(* ===== verification/Prelude.thy ===== *)
theory Prelude
  imports Main "HOL-Library.Word"
begin

text \<open>
  Shared vocabulary of the development: machine integers and byte strings, the results of
  fallible Rust code (\<open>Ok\<close>, \<open>Err\<close>, a panic, or no return), slices, big-endian encodings, the receive
  buffer of a UDP socket, and the shape shared by all asynchronous tasks of the program: a
  loop whose body consumes one event and either continues or returns.
  Sources: src/src/error.rs, src/src/result.rs.
\<close>

unbundle bit_operations_syntax

section \<open>Machine integers and bytes\<close>

type_synonym u8 = "8 word"
type_synonym u16 = "16 word"
type_synonym u32 = "32 word"
type_synonym u64 = "64 word"
type_synonym i16 = "16 word"
type_synonym i32 = "32 word"
type_synonym bytes = "u8 list"

named_theorems outcome_simps "evaluation of fallible code"
named_theorems codec_simps "byte-level encodings"
named_theorems body_defs "loop bodies of the asynchronous tasks"

section \<open>Results, errors and panics\<close>

text \<open>
  The program boxes every error; the model keeps one constructor per cause that the code
  can raise. A panic is not an error value: it unwinds the task. \<open>Hang\<close> stands for a call that
  never returns.
\<close>

datatype error =
    IoError | SendError | RecvError | ConnectionReset | MessageError
  | Utf8Error | ParseFloatError | Base64Error | RsaError
  | SdpError | MissingMedia | AttributeError | MissingFmtp | WriteError | InitError

datatype 'a outcome = Ok 'a | Err error | Panic | Hang

primrec and_then :: "'a outcome \<Rightarrow> ('a \<Rightarrow> 'b outcome) \<Rightarrow> 'b outcome" where
  "and_then (Ok a) f = f a"
| "and_then (Err e) f = Err e"
| "and_then Panic f = Panic"
| "and_then Hang f = Hang"

definition ok_or :: "error \<Rightarrow> 'a option \<Rightarrow> 'a outcome" where
  "ok_or e x = (case x of None \<Rightarrow> Err e | Some a \<Rightarrow> Ok a)"

definition unwrap :: "'a option \<Rightarrow> 'a outcome" where
  "unwrap x = (case x of None \<Rightarrow> Panic | Some a \<Rightarrow> Ok a)"

definition require :: "error \<Rightarrow> bool \<Rightarrow> unit outcome" where
  "require e b = (if b then Ok () else Err e)"

lemma ok_or_simps [simp, outcome_simps]:
  "ok_or e None = Err e" "ok_or e (Some a) = Ok a"
  by (simp_all add: ok_or_def)

lemma unwrap_simps [simp, outcome_simps]:
  "unwrap None = Panic" "unwrap (Some a) = Ok a"
  by (simp_all add: unwrap_def)

lemma require_simps [simp, outcome_simps]:
  "require e True = Ok ()" "require e False = Err e"
  by (simp_all add: require_def)

lemma and_then_eq_Ok: "and_then m f = Ok b \<longleftrightarrow> (\<exists>a. m = Ok a \<and> f a = Ok b)"
  by (cases m) simp_all

lemma and_then_eq_Panic:
  "and_then m f = Panic \<longleftrightarrow> m = Panic \<or> (\<exists>a. m = Ok a \<and> f a = Panic)"
  by (cases m) simp_all

lemma and_then_eq_Hang:
  "and_then m f = Hang \<longleftrightarrow> m = Hang \<or> (\<exists>a. m = Ok a \<and> f a = Hang)"
  by (cases m) simp_all

lemma and_then_eq_Err:
  "and_then m f = Err e \<longleftrightarrow> m = Err e \<or> (\<exists>a. m = Ok a \<and> f a = Err e)"
  by (cases m) simp_all

lemma ok_or_eq_Ok: "ok_or e x = Ok a \<longleftrightarrow> x = Some a"
  by (cases x) simp_all

lemma ok_or_not_Panic [simp]: "ok_or e x \<noteq> Panic"
  by (cases x) simp_all

lemma require_eq_Ok: "require e b = Ok u \<longleftrightarrow> b"
  by (cases b) simp_all

lemma require_not_Panic [simp]: "require e b \<noteq> Panic"
  by (cases b) simp_all

lemma unwrap_eq_Ok: "unwrap x = Ok a \<longleftrightarrow> x = Some a"
  by (cases x) simp_all

lemma and_then_assoc: "and_then (and_then m f) g = and_then m (\<lambda>x. and_then (f x) g)"
  by (cases m) simp_all

lemmas outcome_iffs = and_then_eq_Ok and_then_eq_Panic ok_or_eq_Ok require_eq_Ok unwrap_eq_Ok

section \<open>Slices and big-endian integers\<close>

text \<open>A slice \<open>xs[lo..hi]\<close> panics when its bounds are out of order or out of range.\<close>

definition slice :: "'a list \<Rightarrow> nat \<Rightarrow> nat \<Rightarrow> 'a list outcome" where
  "slice xs lo hi =
     (if lo \<le> hi \<and> hi \<le> length xs then Ok (take (hi - lo) (drop lo xs)) else Panic)"

lemma slice_Ok: "lo \<le> hi \<Longrightarrow> hi \<le> length xs \<Longrightarrow> slice xs lo hi = Ok (take (hi - lo) (drop lo xs))"
  by (simp add: slice_def)

lemma slice_eq_Panic: "slice xs lo hi = Panic \<longleftrightarrow> hi < lo \<or> length xs < hi"
  by (auto simp: slice_def)

text \<open>\<open>u16::to_be_bytes\<close>, \<open>u32::to_be_bytes\<close> and \<open>u32::from_be_bytes\<close> with its
  \<open>try_into().unwrap()\<close>, which panics on a slice that is not four bytes long.\<close>

definition u16_to_be_bytes :: "u16 \<Rightarrow> bytes" where
  "u16_to_be_bytes x = [ucast (drop_bit 8 x), ucast x]"

definition u16_of_bytes :: "u8 \<Rightarrow> u8 \<Rightarrow> u16" where
  "u16_of_bytes hi lo = push_bit 8 (ucast hi) OR ucast lo"

definition u32_to_be_bytes :: "u32 \<Rightarrow> bytes" where
  "u32_to_be_bytes x = [ucast (drop_bit 24 x), ucast (drop_bit 16 x), ucast (drop_bit 8 x), ucast x]"

fun u32_from_be_bytes :: "bytes \<Rightarrow> u32 outcome" where
  "u32_from_be_bytes [a, b, c, d] =
     Ok (push_bit 24 (ucast a) OR push_bit 16 (ucast b) OR push_bit 8 (ucast c) OR ucast d)"
| "u32_from_be_bytes _ = Panic"

lemma length_u16_to_be_bytes [simp]: "length (u16_to_be_bytes x) = 2"
  by (simp add: u16_to_be_bytes_def)

lemma length_u32_to_be_bytes [simp]: "length (u32_to_be_bytes x) = 4"
  by (simp add: u32_to_be_bytes_def)

lemma u16_of_to_be_bytes [codec_simps]: "u16_of_bytes (ucast (drop_bit 8 x)) (ucast x) = x"
  unfolding u16_of_bytes_def
  by (rule bit_word_eqI) (auto simp: bit_simps)

lemma u16_to_of_bytes [codec_simps]: "u16_to_be_bytes (u16_of_bytes hi lo) = [hi, lo]"
proof -
  have "\<not> bit lo (8 + n)" for n using bit_imp_le_length[of lo "8 + n"] by auto
  then show ?thesis
    unfolding u16_of_bytes_def u16_to_be_bytes_def
    by (auto intro!: bit_word_eqI simp: bit_simps)
qed

lemma u32_from_to_be_bytes [codec_simps]: "u32_from_be_bytes (u32_to_be_bytes x) = Ok x"
  unfolding u32_to_be_bytes_def u32_from_be_bytes.simps outcome.inject
proof (rule bit_word_eqI)
  fix n
  assume "n < LENGTH(32)"
  then consider "n < 8" | "8 \<le> n" "n < 16" | "16 \<le> n" "n < 24" | "24 \<le> n" "n < 32"
    by fastforce
  then show "bit (push_bit 24 (ucast (ucast (drop_bit 24 x) :: u8) :: u32) OR
      push_bit 16 (ucast (ucast (drop_bit 16 x) :: u8)) OR
      push_bit 8 (ucast (ucast (drop_bit 8 x) :: u8)) OR ucast (ucast x :: u8)) n = bit x n"
    by cases (auto simp: bit_simps)
qed

lemma u32_from_be_bytes_total: "length bs = 4 \<Longrightarrow> \<exists>x. u32_from_be_bytes bs = Ok x"
  by (cases bs rule: u32_from_be_bytes.cases) auto

section \<open>Association lists\<close>

lemma map_of_same_set:
  assumes "set xs = set ys" "distinct (map fst ys)"
  shows "map_of xs = map_of ys"
proof
  fix k
  show "map_of xs k = map_of ys k"
  proof (cases "map_of ys k")
    case None
    moreover from this have "map_of xs k = None" using assms(1) by (simp add: map_of_eq_None_iff)
    ultimately show ?thesis by simp
  next
    case (Some v)
    then have "k \<in> fst ` set xs" using assms(1) by (force dest: map_of_SomeD)
    then obtain v' where v': "map_of xs k = Some v'" using map_of_eq_None_iff[of xs k] by auto
    then have "(k, v') \<in> set ys" using assms(1) by (auto dest: map_of_SomeD)
    then show ?thesis using v' Some assms(2) by simp
  qed
qed

section \<open>Receive buffers\<close>

text \<open>
  \<open>recv_from(&mut buf)\<close> overwrites a prefix of the buffer and returns its length; what does
  not fit is discarded, what lies behind the datagram keeps its old contents.
\<close>

definition recv_into :: "bytes \<Rightarrow> bytes \<Rightarrow> bytes \<times> nat" where
  "recv_into buf dgram =
     (let n = min (length dgram) (length buf) in (take n dgram @ drop n buf, n))"

lemma length_recv_into: "recv_into buf d = (buf', n) \<Longrightarrow> length buf' = length buf \<and> n \<le> length buf"
  by (auto simp: recv_into_def Let_def)

lemma recv_into_fits:
  "length d \<le> length buf \<Longrightarrow> recv_into buf d = (d @ drop (length d) buf, length d)"
  by (simp add: recv_into_def Let_def min_def)

section \<open>Asynchronous tasks\<close>

text \<open>
  Every task of the program is a loop around one \<open>select!\<close>. What wins the selection is the
  environment's choice, so it is the event the body is given; the body continues with a new
  local state or returns, and emits effects. The task waits when there is no event left.
\<close>

datatype ('s, 'o) step = Continue 's "'o list" | Return "unit outcome" "'o list"

datatype 's status = Waiting 's | Finished "unit outcome"

fun task_loop :: "('s \<Rightarrow> 'e \<Rightarrow> ('s, 'o) step) \<Rightarrow> 's \<Rightarrow> 'e list \<Rightarrow> 'o list \<times> 's status" where
  "task_loop body s [] = ([], Waiting s)"
| "task_loop body s (e # es) =
     (case body s e of
        Return r os \<Rightarrow> (os, Finished r)
      | Continue s' os \<Rightarrow> (let (os', st) = task_loop body s' es in (os @ os', st)))"

lemma task_loop_finished:
  "task_loop body s es = (os, Finished r) \<Longrightarrow> task_loop body s (es @ fs) = (os, Finished r)"
proof (induction es arbitrary: s os)
  case Nil
  then show ?case by simp
next
  case (Cons e es)
  then show ?case
    by (auto split: step.splits prod.splits)
qed

lemma task_loop_append:
  "task_loop body s es = (os, Waiting s') \<Longrightarrow>
   task_loop body s (es @ fs) = (let (os', st) = task_loop body s' fs in (os @ os', st))"
proof (induction es arbitrary: s os)
  case Nil
  then show ?case by simp
next
  case (Cons e es)
  then show ?case
    by (fastforce split: step.splits prod.splits)
qed

text \<open>An invariant of the body's state, with a property of everything the body emits.\<close>

lemma task_loop_invariant:
  assumes keep: "\<And>s e s' os. I s \<Longrightarrow> body s e = Continue s' os \<Longrightarrow> I s' \<and> (\<forall>x \<in> set os. P x)"
    and ret: "\<And>s e r os. I s \<Longrightarrow> body s e = Return r os \<Longrightarrow> Q r \<and> (\<forall>x \<in> set os. P x)"
    and init: "I s" and run: "task_loop body s es = (out, st)"
  shows "(\<forall>x \<in> set out. P x) \<and> (case st of Waiting s' \<Rightarrow> I s' | Finished r \<Rightarrow> Q r)"
  using init run
proof (induction es arbitrary: s out)
  case Nil
  then show ?case by auto
next
  case (Cons e es)
  show ?case
  proof (cases "body s e")
    case (Return r os)
    then show ?thesis using Cons.prems ret by auto
  next
    case (Continue s' os)
    obtain os' where rec: "task_loop body s' es = (os', st)" and out: "out = os @ os'"
      using Cons.prems(2) Continue by (auto split: prod.splits)
    have s': "I s'" "\<forall>x \<in> set os. P x"
      using keep[OF Cons.prems(1) Continue] by auto
    then show ?thesis using Cons.IH[OF s'(1) rec] out by auto
  qed
qed

end
