(* ===== verification/Rust_Strings.thy ===== *)
theory Rust_Strings
  imports Prelude "HOL-Library.Sublist"
begin

text \<open>
  The part of Rust's \<open>str\<close> that the program uses. A \<open>str\<close> is the list of its UTF-8 bytes, as
  characters; searches for ASCII characters and for encoded white space are exact on valid
  UTF-8. Unsigned integers are parsed and printed as \<open>FromStr\<close> and \<open>Display\<close> do.
\<close>

named_theorems str_simps "evaluation of string functions"

section \<open>Searching and splitting\<close>

fun find_char :: "char \<Rightarrow> string \<Rightarrow> nat option" where
  "find_char c [] = None"
| "find_char c (x # xs) = (if x = c then Some 0 else map_option Suc (find_char c xs))"

definition split_once :: "char \<Rightarrow> string \<Rightarrow> (string \<times> string) option" where
  "split_once c s = (case find_char c s of None \<Rightarrow> None | Some i \<Rightarrow> Some (take i s, drop (Suc i) s))"

lemma find_char_None: "find_char c s = None \<longleftrightarrow> c \<notin> set s"
  by (induction s) auto

lemma find_char_append: "c \<notin> set s \<Longrightarrow> find_char c (s @ c # t) = Some (length s)"
  by (induction s) auto

lemma split_once_append: "c \<notin> set s \<Longrightarrow> split_once c (s @ c # t) = Some (s, t)"
  by (simp add: split_once_def find_char_append)

text \<open>\<open>lines\<close> splits at line feeds, drops a carriage return before one, and yields no empty last line.\<close>

definition strip_cr :: "string \<Rightarrow> string" where
  "strip_cr s = (if s \<noteq> [] \<and> last s = CHR 0x0D then butlast s else s)"

fun lines_from :: "string \<Rightarrow> string \<Rightarrow> string list" where
  "lines_from cur [] = (if cur = [] then [] else [cur])"
| "lines_from cur (c # cs) =
     (if c = CHR 0x0A then strip_cr cur # lines_from [] cs else lines_from (cur @ [c]) cs)"

definition str_lines :: "string \<Rightarrow> string list" where
  "str_lines s = lines_from [] s"

fun str_join :: "string \<Rightarrow> string list \<Rightarrow> string" where
  "str_join sep [] = []"
| "str_join sep [s] = s"
| "str_join sep (s # t # ss) = s @ sep @ str_join sep (t # ss)"

lemma lines_from_nolf: "CHR 0x0A \<notin> set s \<Longrightarrow> lines_from cur s = (if cur @ s = [] then [] else [cur @ s])"
  by (induction s arbitrary: cur) auto

lemma lines_from_lf:
  "CHR 0x0A \<notin> set s \<Longrightarrow> lines_from cur (s @ CHR 0x0A # t) = strip_cr (cur @ s) # lines_from [] t"
  by (induction s arbitrary: cur) auto

lemma str_lines_single: "CHR 0x0A \<notin> set s \<Longrightarrow> s \<noteq> [] \<Longrightarrow> str_lines s = [s]"
  by (simp add: str_lines_def lines_from_nolf)

lemma str_lines_crlf:
  "CHR 0x0A \<notin> set s \<Longrightarrow> str_lines (s @ CHR 0x0D # CHR 0x0A # t) = s # str_lines t"
  using lines_from_lf[of "s @ [CHR 0x0D]" "[]" t] by (simp add: str_lines_def strip_cr_def)

text \<open>\<open>replace\<close>: every occurrence of a non-empty pattern, from the left, without overlaps.\<close>

function str_replace :: "string \<Rightarrow> string \<Rightarrow> string \<Rightarrow> string" where
  "str_replace pat rep s =
     (if s = [] then []
      else if pat \<noteq> [] \<and> prefix pat s then rep @ str_replace pat rep (drop (length pat) s)
      else hd s # str_replace pat rep (tl s))"
  by pat_completeness auto
termination
  by (relation "measure (\<lambda>(pat, rep, s). length s)") auto

declare str_replace.simps [simp del]

section \<open>White space\<close>

text \<open>The code points of the Unicode property \<open>White_Space\<close>, in UTF-8.\<close>

definition ws_seqs :: "string list" where
  "ws_seqs = map (map char_of)
     ([[9], [10], [11], [12], [13], [32], [0xC2, 0x85], [0xC2, 0xA0], [0xE1, 0x9A, 0x80]] @
      map (\<lambda>b. [0xE2, 0x80, b]) [0x80, 0x81, 0x82, 0x83, 0x84, 0x85, 0x86, 0x87, 0x88, 0x89, 0x8A] @
      [[0xE2, 0x80, 0xA8], [0xE2, 0x80, 0xA9], [0xE2, 0x80, 0xAF], [0xE2, 0x81, 0x9F],
       [0xE3, 0x80, 0x80 :: nat]])"

definition starts_with_any :: "string list \<Rightarrow> string \<Rightarrow> string option" where
  "starts_with_any ws s = find (\<lambda>w. w \<noteq> [] \<and> prefix w s) ws"

lemma starts_with_any_Some: "starts_with_any ws s = Some w \<Longrightarrow> w \<noteq> [] \<and> prefix w s"
  by (auto simp: starts_with_any_def find_Some_iff)

function strip_any :: "string list \<Rightarrow> string \<Rightarrow> string" where
  "strip_any ws s =
     (case starts_with_any ws s of None \<Rightarrow> s | Some w \<Rightarrow> strip_any ws (drop (length w) s))"
  by pat_completeness auto
termination
  by (relation "measure (\<lambda>(ws, s). length s)") (auto dest!: starts_with_any_Some simp: prefix_def)

declare strip_any.simps [simp del]

definition trim_start :: "string \<Rightarrow> string" where
  "trim_start s = strip_any ws_seqs s"

definition trim_end :: "string \<Rightarrow> string" where
  "trim_end s = rev (strip_any (map rev ws_seqs) (rev s))"

definition str_trim :: "string \<Rightarrow> string" where
  "str_trim s = trim_end (trim_start s)"

fun find_whitespace :: "string \<Rightarrow> nat option" where
  "find_whitespace [] = None"
| "find_whitespace (c # cs) =
     (if starts_with_any ws_seqs (c # cs) \<noteq> None then Some 0
      else map_option Suc (find_whitespace cs))"

lemma find_whitespace_less: "find_whitespace s = Some i \<Longrightarrow> i < length s"
  by (induction s arbitrary: i) (auto split: if_splits)

text \<open>No digit starts a white space sequence.\<close>

lemma starts_with_any_None:
  "c \<notin> set (map hd ws) \<Longrightarrow> starts_with_any ws (c # s) = None"
  by (force simp: starts_with_any_def find_None_iff prefix_def Cons_eq_append_conv)

lemma find_whitespace_blank: "find_whitespace (CHR '' '' # s) = Some 0"
proof -
  have "list_ex (\<lambda>w. w = [CHR '' '']) ws_seqs" by code_simp
  then have "[CHR '' ''] \<in> set ws_seqs" by (auto simp: list_ex_iff)
  then have "starts_with_any ws_seqs (CHR '' '' # s) \<noteq> None"
    by (auto simp: starts_with_any_def find_None_iff prefix_def)
  then show ?thesis by simp
qed

lemma find_whitespace_after:
  "\<forall>c \<in> set s. c \<notin> set (map hd ws_seqs) \<Longrightarrow> find_whitespace (s @ CHR '' '' # t) = Some (length s)"
proof (induction s)
  case Nil
  then show ?case by (simp only: append_Nil find_whitespace_blank list.size)
next
  case (Cons c s)
  then have "starts_with_any ws_seqs (c # s @ CHR '' '' # t) = None"
    by (intro starts_with_any_None) simp
  with Cons show ?case by simp
qed

section \<open>Unsigned integers\<close>

definition digit_char :: "nat \<Rightarrow> char" where
  "digit_char d = char_of (48 + d)"

definition digit_val :: "char \<Rightarrow> nat option" where
  "digit_val c = (let k = of_char c in if 48 \<le> k \<and> k \<le> 57 then Some (k - 48) else None)"

fun parse_digits :: "nat \<Rightarrow> string \<Rightarrow> nat option" where
  "parse_digits acc [] = Some acc"
| "parse_digits acc (c # cs) =
     (case digit_val c of None \<Rightarrow> None | Some d \<Rightarrow> parse_digits (10 * acc + d) cs)"

text \<open>\<open>str::parse\<close> for an unsigned integer of \<open>w\<close> bits: an optional plus sign, at least one
  digit, no overflow.\<close>

definition parse_uint :: "nat \<Rightarrow> string \<Rightarrow> nat option" where
  "parse_uint w s =
     (let ds = (if s \<noteq> [] \<and> hd s = CHR ''+'' then tl s else s)
      in if ds = [] then None
         else case parse_digits 0 ds of
                None \<Rightarrow> None
              | Some n \<Rightarrow> if n < 2 ^ w then Some n else None)"

fun show_nat :: "nat \<Rightarrow> string" where
  "show_nat n =
     (if n < 10 then [digit_char n] else show_nat (n div 10) @ [digit_char (n mod 10)])"

declare show_nat.simps [simp del]

lemma digit_val_char [simp]: "d < 10 \<Longrightarrow> digit_val (digit_char d) = Some d"
  by (simp add: digit_val_def digit_char_def Let_def)

lemma digit_val_less: "digit_val c = Some d \<Longrightarrow> d < 10"
  by (auto simp: digit_val_def Let_def split: if_splits)

lemma digit_val_inj: "digit_val c = Some d \<Longrightarrow> c = digit_char d"
  by (auto simp: digit_val_def digit_char_def Let_def split: if_splits)

lemma parse_digits_append:
  "parse_digits acc (xs @ ys) = Option.bind (parse_digits acc xs) (\<lambda>a. parse_digits a ys)"
  by (induction acc xs rule: parse_digits.induct) (auto split: option.splits)

lemma parse_digits_total: "\<forall>c \<in> set s. digit_val c \<noteq> None \<Longrightarrow> \<exists>n. parse_digits a s = Some n"
  by (induction s arbitrary: a) auto

lemma show_nat_digits: "\<forall>c \<in> set (show_nat n). digit_val c \<noteq> None"
proof (induction n rule: show_nat.induct)
  case (1 n)
  then show ?case by (subst show_nat.simps) auto
qed

lemma show_nat_nonempty [simp]: "show_nat n \<noteq> []"
  by (subst show_nat.simps) simp

lemma parse_show_digits: "parse_digits 0 (show_nat n) = Some n"
proof (induction n rule: show_nat.induct)
  case (1 n)
  then show ?case by (subst show_nat.simps) (auto simp: parse_digits_append)
qed

lemma digit_not_plus: "digit_val c \<noteq> None \<Longrightarrow> c \<noteq> CHR ''+''"
  by (auto simp: digit_val_def)

lemma parse_show_nat: "parse_uint w (show_nat n) = (if n < 2 ^ w then Some n else None)"
proof -
  have "hd (show_nat n) \<noteq> CHR ''+''"
    using show_nat_digits[of n] digit_not_plus by (metis hd_in_set show_nat_nonempty)
  then show ?thesis by (simp add: parse_uint_def parse_show_digits)
qed

lemma parse_uint_bound: "parse_uint w s = Some n \<Longrightarrow> n < 2 ^ w"
  by (auto simp: parse_uint_def Let_def split: option.splits if_splits)

lemma digit_not_ws: "digit_val c \<noteq> None \<Longrightarrow> c \<notin> set (map hd ws_seqs)"
proof -
  have "list_all (\<lambda>c. digit_val c = None) (map hd ws_seqs)" by code_simp
  then show "digit_val c \<noteq> None \<Longrightarrow> c \<notin> set (map hd ws_seqs)" by (auto simp: list_all_iff)
qed

section \<open>Hexadecimal bytes\<close>

definition hex_digit :: "nat \<Rightarrow> char" where
  "hex_digit d = (if d < 10 then char_of (48 + d) else char_of (55 + d))"

text \<open>\<open>format!("{:02X}", b)\<close>\<close>

definition hex_byte :: "u8 \<Rightarrow> string" where
  "hex_byte b = [hex_digit (unat b div 16), hex_digit (unat b mod 16)]"

definition hex_val :: "char \<Rightarrow> nat" where
  "hex_val c = (if of_char c < (58 :: nat) then of_char c - 48 else of_char c - 55)"

lemma hex_val_digit [simp]: "d < 16 \<Longrightarrow> hex_val (hex_digit d) = d"
  by (simp add: hex_val_def hex_digit_def)

lemma hex_byte_inverse:
  "word_of_nat (16 * hex_val (hex_byte b ! 0) + hex_val (hex_byte b ! 1)) = b"
proof -
  have "unat b < 256" using unsigned_less[of b] by simp
  then have "unat b div 16 < 16" by (simp add: less_mult_imp_div_less)
  then show ?thesis by (simp add: hex_byte_def mult_div_mod_eq)
qed

section \<open>UTF-8\<close>

text \<open>\<open>str::from_utf8\<close> accepts well-formed UTF-8: shortest forms, no surrogates, at most U+10FFFF.\<close>

definition cont_byte :: "u8 \<Rightarrow> bool" where
  "cont_byte b = (0x80 \<le> b \<and> b \<le> 0xBF)"

fun utf8_valid :: "bytes \<Rightarrow> bool" where
  "utf8_valid [] = True"
| "utf8_valid (a # bs) =
     (if a \<le> 0x7F then utf8_valid bs
      else case bs of
        b # cs \<Rightarrow>
          (if 0xC2 \<le> a \<and> a \<le> 0xDF then cont_byte b \<and> utf8_valid cs
           else case cs of
             c # ds \<Rightarrow>
               (if 0xE0 \<le> a \<and> a \<le> 0xEF
                then cont_byte b \<and> (a = 0xE0 \<longrightarrow> 0xA0 \<le> b) \<and> (a = 0xED \<longrightarrow> b \<le> 0x9F) \<and>
                     cont_byte c \<and> utf8_valid ds
                else case ds of
                  d # es \<Rightarrow>
                    0xF0 \<le> a \<and> a \<le> 0xF4 \<and> cont_byte b \<and> (a = 0xF0 \<longrightarrow> 0x90 \<le> b) \<and>
                    (a = 0xF4 \<longrightarrow> b \<le> 0x8F) \<and> cont_byte c \<and> cont_byte d \<and> utf8_valid es
                | [] \<Rightarrow> False)
           | [] \<Rightarrow> False)
      | [] \<Rightarrow> False)"

definition str_of_bytes :: "bytes \<Rightarrow> string" where
  "str_of_bytes bs = map (\<lambda>b. char_of (unat b)) bs"

definition bytes_of_str :: "string \<Rightarrow> bytes" where
  "bytes_of_str s = map (\<lambda>c. word_of_nat (of_char c)) s"

definition from_utf8 :: "bytes \<Rightarrow> string option" where
  "from_utf8 bs = (if utf8_valid bs then Some (str_of_bytes bs) else None)"

lemma str_of_bytes_of_str [simp]: "str_of_bytes (bytes_of_str s) = s"
proof -
  have "of_char c < (256 :: nat)" for c by simp
  then have "unat (word_of_nat (of_char c) :: u8) = of_char c" for c
    by (simp add: unat_of_nat take_bit_nat_eq_self)
  then show ?thesis by (induction s) (simp_all add: str_of_bytes_def bytes_of_str_def)
qed

lemma utf8_ascii: "\<forall>c \<in> set s. of_char c < (128 :: nat) \<Longrightarrow> utf8_valid (bytes_of_str s)"
proof (induction s)
  case Nil
  then show ?case by (simp add: bytes_of_str_def)
next
  case (Cons c s)
  then have "(word_of_nat (of_char c) :: u8) \<le> 0x7F"
    by (simp add: word_le_nat_alt unat_of_nat take_bit_nat_eq_self)
  with Cons show ?case by (simp add: bytes_of_str_def)
qed

lemma from_utf8_ascii: "\<forall>c \<in> set s. of_char c < (128 :: nat) \<Longrightarrow> from_utf8 (bytes_of_str s) = Some s"
  by (simp add: from_utf8_def utf8_ascii)

end
