(* ===== verification/Sequence_Numbers.thy ===== *)
theory Sequence_Numbers
  imports Prelude
begin

text \<open>
  RTP sequence numbers. The type \<open>Seq\<close> comes from the crate \<open>rtp-rs\<close>, so its operations are
  a parameter of the model (\<open>seq_ops\<close>) and the locale \<open>seq_api\<close> names what the program
  relies on: conversion from and to \<open>u16\<close>, a successor that wraps at 65535, an order that
  compares two numbers by their wrapped distance, and the iteration of a half-open range.
\<close>

section \<open>The interface of rtp-rs\<close>

record 'q seq_ops =
  seq_next :: "'q \<Rightarrow> 'q"
  seq_lt :: "'q \<Rightarrow> 'q \<Rightarrow> bool"
  seq_of_u16 :: "u16 \<Rightarrow> 'q"
  seq_to_u16 :: "'q \<Rightarrow> u16"
  seq_iter :: "'q \<Rightarrow> 'q \<Rightarrow> 'q list"

text \<open>The wrapped distance from \<open>a\<close> forward to \<open>b\<close>, and \<open>Range::is_empty\<close> of the standard
  library, which asks the order of the key type.\<close>

definition seq_dist :: "'q seq_ops \<Rightarrow> 'q \<Rightarrow> 'q \<Rightarrow> nat" where
  "seq_dist Q a b = unat (seq_to_u16 Q b - seq_to_u16 Q a)"

definition range_is_empty :: "'q seq_ops \<Rightarrow> 'q \<times> 'q \<Rightarrow> bool" where
  "range_is_empty Q r = (\<not> seq_lt Q (fst r) (snd r))"

definition seq_plus :: "'q seq_ops \<Rightarrow> 'q \<Rightarrow> nat \<Rightarrow> 'q" where
  "seq_plus Q s n = (seq_next Q ^^ n) s"

lemma seq_plus_eval [codec_simps]:
  "seq_plus Q s 0 = s" "seq_plus Q s (Suc n) = seq_next Q (seq_plus Q s n)"
  "seq_plus Q s 1 = seq_next Q s"
  "seq_plus Q s (numeral k) = seq_next Q (seq_plus Q s (pred_numeral k))"
  by (simp_all add: seq_plus_def numeral_eq_Suc)

text \<open>Distances of exactly half the number space are left open: nothing depends on them.\<close>

locale seq_api =
  fixes Q :: "'q seq_ops"
  assumes of_to: "seq_of_u16 Q (seq_to_u16 Q s) = s"
    and to_of: "seq_to_u16 Q (seq_of_u16 Q n) = n"
    and to_next: "seq_to_u16 Q (seq_next Q s) = seq_to_u16 Q s + 1"
    and lt_near: "0 < seq_dist Q a b \<Longrightarrow> seq_dist Q a b < 2 ^ 15 \<Longrightarrow> seq_lt Q a b"
    and lt_far: "seq_dist Q a b = 0 \<or> 2 ^ 15 < seq_dist Q a b \<Longrightarrow> \<not> seq_lt Q a b"
    and iter_step: "seq_iter Q a b = (if seq_lt Q a b then a # seq_iter Q (seq_next Q a) b else [])"
begin

lemma to_inj: "seq_to_u16 Q a = seq_to_u16 Q b \<longleftrightarrow> a = b"
  by (metis of_to)

lemma inj_to: "inj (seq_to_u16 Q)"
  by (simp add: inj_def to_inj)

lemma next_of: "seq_next Q (seq_of_u16 Q n) = seq_of_u16 Q (n + 1)"
  by (metis of_to to_next to_of)

lemma next_inj: "seq_next Q a = seq_next Q b \<longleftrightarrow> a = b"
  by (metis add_right_cancel to_inj to_next)

lemma to_plus: "seq_to_u16 Q (seq_plus Q s n) = seq_to_u16 Q s + of_nat n"
  by (induction n) (simp_all add: seq_plus_def to_next)

lemma plus_0 [simp]: "seq_plus Q s 0 = s"
  by (simp add: seq_plus_def)

lemma plus_Suc: "seq_plus Q s (Suc n) = seq_plus Q (seq_next Q s) n"
  by (simp add: seq_plus_def funpow_swap1)

lemma plus_Suc': "seq_plus Q s (Suc n) = seq_next Q (seq_plus Q s n)"
  by (simp add: seq_plus_def)

lemma plus_add: "seq_plus Q (seq_plus Q s a) b = seq_plus Q s (a + b)"
  by (simp add: seq_plus_def funpow_add add.commute[of a b])

lemma dist_0 [simp]: "seq_dist Q a b = 0 \<longleftrightarrow> a = b"
  using to_inj[of b a] by (auto simp: seq_dist_def unat_eq_0)

lemma dist_self [simp]: "seq_dist Q a a = 0"
  by simp

lemma dist_bound: "seq_dist Q a b < 65536"
  using unsigned_less[of "seq_to_u16 Q b - seq_to_u16 Q a"] by (simp add: seq_dist_def)

lemma dist_next: "a \<noteq> b \<Longrightarrow> seq_dist Q (seq_next Q a) b = seq_dist Q a b - 1"
proof -
  assume "a \<noteq> b"
  then have "seq_to_u16 Q b - seq_to_u16 Q a \<noteq> 0" using to_inj[of b a] by auto
  then have "unat (seq_to_u16 Q b - seq_to_u16 Q a - 1) = unat (seq_to_u16 Q b - seq_to_u16 Q a) - 1"
    by (rule unat_minus_one)
  then show ?thesis by (simp add: seq_dist_def to_next algebra_simps)
qed

lemma dist_plus: "n < 65536 \<Longrightarrow> seq_dist Q s (seq_plus Q s n) = n"
  by (simp add: seq_dist_def to_plus unat_of_nat)

lemma plus_dist: "seq_plus Q a (seq_dist Q a b) = b"
  using to_inj[of "seq_plus Q a (seq_dist Q a b)" b]
  by (simp add: to_plus seq_dist_def)

lemma plus_eq_iff: "n < 65536 \<Longrightarrow> m < 65536 \<Longrightarrow> seq_plus Q s n = seq_plus Q s m \<longleftrightarrow> n = m"
  by (metis dist_plus)

lemma dist_next_key:
  "a \<noteq> k \<Longrightarrow> a \<noteq> b \<Longrightarrow>
   seq_dist Q (seq_next Q a) k < seq_dist Q (seq_next Q a) b \<longleftrightarrow> seq_dist Q a k < seq_dist Q a b"
  using dist_0[of a k] dist_0[of a b] by (auto simp: dist_next simp del: dist_0)

lemma next_neq [simp]: "seq_next Q a \<noteq> a"
  by (metis add_cancel_left_right to_next zero_neq_one)

lemma iter_eq:
  "seq_dist Q a b < 2 ^ 15 \<Longrightarrow> seq_iter Q a b = map (seq_plus Q a) [0..<seq_dist Q a b]"
proof (induction "seq_dist Q a b" arbitrary: a)
  case 0
  then show ?case by (subst iter_step) (simp add: lt_far)
next
  case (Suc n)
  then have neq: "a \<noteq> b" by auto
  then have n: "seq_dist Q (seq_next Q a) b = n"
    using Suc.hyps(2) by (simp add: dist_next)
  then have IH: "seq_iter Q (seq_next Q a) b = map (seq_plus Q (seq_next Q a)) [0..<n]"
    using Suc by simp
  have "seq_lt Q a b" using Suc by (intro lt_near) auto
  then have "seq_iter Q a b = a # map (\<lambda>i. seq_plus Q a (Suc i)) [0..<n]"
    by (subst iter_step) (simp add: IH plus_Suc)
  also have "\<dots> = map (seq_plus Q a) [0..<Suc n]"
    by (simp only: upt_conv_Cons[OF zero_less_Suc] list.map map_Suc_upt[symmetric] map_map comp_def plus_0)
  finally show ?case using Suc by simp
qed

lemma dist_turn:
  "seq_dist Q x y = (if seq_dist Q a x \<le> seq_dist Q a y then seq_dist Q a y - seq_dist Q a x
                     else seq_dist Q a y + 65536 - seq_dist Q a x)"
proof -
  have "seq_to_u16 Q y - seq_to_u16 Q x =
      (seq_to_u16 Q y - seq_to_u16 Q a) - (seq_to_u16 Q x - seq_to_u16 Q a)" by simp
  then show ?thesis unfolding seq_dist_def by (simp only: unat_sub_if') simp
qed

text \<open>Within half the number space ahead of some \<open>a\<close>, and only there, the cyclic order is a total one.\<close>

lemma lt_ahead:
  assumes "seq_dist Q a x < 2 ^ 15" "seq_dist Q a y < 2 ^ 15"
  shows "seq_lt Q x y \<longleftrightarrow> seq_dist Q a x < seq_dist Q a y"
proof (cases "seq_dist Q a x < seq_dist Q a y")
  case True
  then show ?thesis using assms dist_turn[of x y a] lt_near[of x y] by simp
next
  case False
  then have "seq_dist Q x y = 0 \<or> 2 ^ 15 < seq_dist Q x y"
    using assms dist_turn[of x y a] dist_bound[of x y] by auto
  then show ?thesis using False lt_far by blast
qed

text \<open>Three numbers spread over more than half the number space: the first precedes the second and the second the third,
  but the third precedes the first.\<close>

lemma far_apart:
  assumes "0 < m" "m < 2 ^ 15" "2 ^ 15 < n" "n < m + 2 ^ 15"
  shows "seq_lt Q s (seq_plus Q s m)" "\<not> seq_lt Q (seq_plus Q s m) s" "seq_lt Q (seq_plus Q s n) s"
    and "seq_lt Q (seq_plus Q s m) (seq_plus Q s n)"
proof -
  have d: "seq_dist Q s (seq_plus Q s m) = m" "seq_dist Q s (seq_plus Q s n) = n"
    using assms by (simp_all add: dist_plus)
  show "seq_lt Q s (seq_plus Q s m)" using assms d by (intro lt_near) simp_all
  show "\<not> seq_lt Q (seq_plus Q s m) s" using assms d dist_turn[of "seq_plus Q s m" s s] by (intro lt_far) simp
  show "seq_lt Q (seq_plus Q s n) s" using assms d dist_turn[of "seq_plus Q s n" s s] by (intro lt_near) simp_all
  show "seq_lt Q (seq_plus Q s m) (seq_plus Q s n)"
    using assms d dist_turn[of "seq_plus Q s m" "seq_plus Q s n" s] by (intro lt_near) simp_all
qed

lemma dist_inj: "seq_dist Q a x = seq_dist Q a y \<longleftrightarrow> x = y"
  by (metis plus_dist)

end

section \<open>Sequence numbers as 16-bit words\<close>

text \<open>The documented behaviour as an executable instance, used to evaluate the model.\<close>

definition word_seq_lt :: "u16 \<Rightarrow> u16 \<Rightarrow> bool" where
  "word_seq_lt a b = (0 < b - a \<and> b - a < 0x8000)"

function word_seq_iter :: "u16 \<Rightarrow> u16 \<Rightarrow> u16 list" where
  "word_seq_iter a b = (if word_seq_lt a b then a # word_seq_iter (a + 1) b else [])"
  by pat_completeness auto
termination
proof (relation "measure (\<lambda>(a, b). unat (b - a))")
  fix a b :: u16
  assume "word_seq_lt a b"
  then have "b - a \<noteq> 0" by (auto simp: word_seq_lt_def)
  then have "unat (b - a - 1) < unat (b - a)"
    by (simp add: unat_minus_one unat_gt_0)
  then show "((a + 1, b), a, b) \<in> measure (\<lambda>(a, b). unat (b - a))"
    by (simp add: algebra_simps)
qed simp

declare word_seq_iter.simps [simp del]

definition word_seq :: "u16 seq_ops" where
  "word_seq = \<lparr>seq_next = (\<lambda>s. s + 1), seq_lt = word_seq_lt, seq_of_u16 = (\<lambda>n. n),
     seq_to_u16 = (\<lambda>s. s), seq_iter = word_seq_iter\<rparr>"

lemma word_seq_simps [simp]:
  "seq_next word_seq s = s + 1" "seq_lt word_seq = word_seq_lt"
  "seq_of_u16 word_seq n = n" "seq_to_u16 word_seq s = s" "seq_iter word_seq = word_seq_iter"
  by (simp_all add: word_seq_def)

lemma u16_wrap [simp]: "(65536 :: u16) = 0" "(65537 :: u16) = 1"
  by simp_all

lemma unat_minus_one_u16: "unat (- 1 :: u16) = 65535"
  by (simp add: unsigned_minus_1_eq_mask mask_eq_exp_minus_1)

interpretation word_seq: seq_api word_seq
proof unfold_locales
  fix a b :: u16
  show "0 < seq_dist word_seq a b \<Longrightarrow> seq_dist word_seq a b < 2 ^ 15 \<Longrightarrow> seq_lt word_seq a b"
    by (simp add: seq_dist_def word_seq_lt_def word_less_nat_alt)
  show "seq_dist word_seq a b = 0 \<or> 2 ^ 15 < seq_dist word_seq a b \<Longrightarrow> \<not> seq_lt word_seq a b"
    by (auto simp: seq_dist_def word_seq_lt_def word_less_nat_alt)
  show "seq_iter word_seq a b =
    (if seq_lt word_seq a b then a # seq_iter word_seq (seq_next word_seq a) b else [])"
    by (simp add: word_seq_iter.simps[of a b])
qed simp_all

end
