(* ===== verification/BTree_Map.thy ===== *)
theory BTree_Map
  imports Main
begin

text \<open>
  \<open>BTreeMap\<close> of the Rust standard library, as far as the program uses it: \<open>new\<close>, \<open>insert\<close> and
  \<open>remove\<close>. The map is the tree it is in Rust (at most 11 entries in a node, at least 5 below the root), because the
  program keys it by RTP sequence numbers, whose order is cyclic and hence no total order: the map then behaves
  as a finite map only while its keys lie within half the number space, and what it does beyond
  that depends on the shape of the tree.

  The order is a parameter \<open>lt\<close>; \<open>cmp k key\<close> of Rust is \<open>Equal\<close> for equal keys, \<open>Less\<close> if \<open>lt k key\<close>,
  and \<open>Greater\<close> otherwise. The first group of lemmas holds for any \<open>lt\<close>: an operation adds or
  removes one entry at most, and the tree keeps its shape. The second one holds where \<open>lt\<close> agrees with a rank on the keys in question: then the
  operations are the update and the deletion of a finite map.
\<close>

section \<open>Trees\<close>

text \<open>A branch holds its children but the last one paired with the entry that follows each.\<close>

datatype ('k, 'v) btree =
    Leaf "('k \<times> 'v) list"
  | Branch "(('k, 'v) btree \<times> ('k \<times> 'v)) list" "('k, 'v) btree"

fun entries :: "('k, 'v) btree \<Rightarrow> ('k \<times> 'v) list" where
  "entries (Leaf xs) = xs"
| "entries (Branch ts u) = concat (map (\<lambda>(t, kv). entries t @ [kv]) ts) @ entries u"

definition row_entries :: "(('k, 'v) btree \<times> ('k \<times> 'v)) list \<Rightarrow> ('k \<times> 'v) list" where
  "row_entries ts = concat (map (\<lambda>(t, kv). entries t @ [kv]) ts)"

lemma row_simps [simp]:
  "row_entries [] = []" "row_entries ((t, kv) # ts) = entries t @ kv # row_entries ts" "row_entries (ts @ us) = row_entries ts @ row_entries us"
  by (simp_all add: row_entries_def)

lemma entries_Branch [simp]: "entries (Branch ts u) = row_entries ts @ entries u"
  by (simp add: row_entries_def)

declare entries.simps(2) [simp del]

definition btree_new :: "('k, 'v) btree" where
  "btree_new = Leaf []"

fun node_len :: "('k, 'v) btree \<Rightarrow> nat" where
  "node_len (Leaf xs) = length xs"
| "node_len (Branch ts u) = length ts"

text \<open>The search within a node goes on while the key compares \<open>Greater\<close>.\<close>

definition search_beyond :: "('k \<Rightarrow> 'k \<Rightarrow> bool) \<Rightarrow> 'k \<Rightarrow> 'k \<Rightarrow> bool" where
  "search_beyond lt k key \<longleftrightarrow> k \<noteq> key \<and> \<not> lt k key"

section \<open>Insertion\<close>

datatype ('k, 'v) grown =
    Fits "('k, 'v) btree"
  | Splits "('k, 'v) btree" "'k \<times> 'v" "('k, 'v) btree"

text \<open>Where a node of 12 entries is split, by the position of the entry that was inserted.\<close>

definition middle_kv :: "nat \<Rightarrow> nat" where
  "middle_kv i = (if i < 5 \<or> i = 6 then 5 else 6)"

definition grow_leaf :: "nat \<Rightarrow> ('k \<times> 'v) list \<Rightarrow> ('k, 'v) grown" where
  "grow_leaf i xs =
     (if length xs \<le> 11 then Fits (Leaf xs)
      else Splits (Leaf (take (middle_kv i) xs)) (xs ! middle_kv i) (Leaf (drop (Suc (middle_kv i)) xs)))"

definition grow_branch ::
  "nat \<Rightarrow> (('k, 'v) btree \<times> ('k \<times> 'v)) list \<Rightarrow> ('k, 'v) btree \<Rightarrow> ('k, 'v) grown" where
  "grow_branch i ts u =
     (if length ts \<le> 11 then Fits (Branch ts u)
      else Splits (Branch (take (middle_kv i) ts) (fst (ts ! middle_kv i))) (snd (ts ! middle_kv i))
             (Branch (drop (Suc (middle_kv i)) ts) u))"

lemma in_dropWhile: "dropWhile P xs = x # ys \<Longrightarrow> x \<in> set xs"
  by (metis list.set_intros(1) set_dropWhileD)

lemma size_child: "dropWhile P ts = (c, kv) # post \<Longrightarrow> size c < size (Branch ts u)"
  using in_dropWhile[of P ts "(c, kv)" post]
    size_list_estimation'[of "(c, kv)" ts "size c" "size_prod size size"] by simp

function insert_in :: "('k \<Rightarrow> 'k \<Rightarrow> bool) \<Rightarrow> 'k \<Rightarrow> 'v \<Rightarrow> ('k, 'v) btree \<Rightarrow> ('k, 'v) grown" where
  "insert_in lt k v (Leaf xs) =
     (let pre = takeWhile (\<lambda>kv. search_beyond lt k (fst kv)) xs
      in case dropWhile (\<lambda>kv. search_beyond lt k (fst kv)) xs of
           [] \<Rightarrow> grow_leaf (length pre) (pre @ [(k, v)])
         | (k', v') # post \<Rightarrow>
             (if k = k' then Fits (Leaf (pre @ (k, v) # post))
              else grow_leaf (length pre) (pre @ (k, v) # (k', v') # post)))"
| "insert_in lt k v (Branch ts u) =
     (let pre = takeWhile (\<lambda>p. search_beyond lt k (fst (snd p))) ts
      in case dropWhile (\<lambda>p. search_beyond lt k (fst (snd p))) ts of
           [] \<Rightarrow> (case insert_in lt k v u of
                    Fits u' \<Rightarrow> Fits (Branch ts u')
                  | Splits l a r \<Rightarrow> grow_branch (length pre) (ts @ [(l, a)]) r)
         | (c, (k', v')) # post \<Rightarrow>
             (if k = k' then Fits (Branch (pre @ (c, (k, v)) # post) u)
              else (case insert_in lt k v c of
                      Fits c' \<Rightarrow> Fits (Branch (pre @ (c', (k', v')) # post) u)
                    | Splits l a r \<Rightarrow>
                        grow_branch (length pre) (pre @ (l, a) # (r, (k', v')) # post) u)))"
  by pat_completeness auto
termination
  by (relation "measure (\<lambda>(lt, k, v, t). size t)") (auto simp: size_child[simplified])

definition btree_insert ::
  "('k \<Rightarrow> 'k \<Rightarrow> bool) \<Rightarrow> 'k \<Rightarrow> 'v \<Rightarrow> ('k, 'v) btree \<Rightarrow> ('k, 'v) btree" where
  "btree_insert lt k v t = (case insert_in lt k v t of Fits t' \<Rightarrow> t' | Splits l a r \<Rightarrow> Branch [(l, a)] r)"

section \<open>Removal\<close>

text \<open>Two neighbours in a node, after one of them has become too small: either merged, or still apart, one entry
  having moved over through their parent.\<close>

datatype ('k, 'v) neighbours =
    Merged "('k, 'v) btree"
  | Apart "('k, 'v) btree" "'k \<times> 'v" "('k, 'v) btree"

fun merge_nodes :: "('k, 'v) btree \<Rightarrow> 'k \<times> 'v \<Rightarrow> ('k, 'v) btree \<Rightarrow> ('k, 'v) neighbours" where
  "merge_nodes (Leaf xs) a (Leaf ys) = Merged (Leaf (xs @ a # ys))"
| "merge_nodes (Branch ts u) a (Branch us w) = Merged (Branch (ts @ (u, a) # us) w)"
| "merge_nodes l a r = Apart l a r"

fun steal_left :: "('k, 'v) btree \<Rightarrow> 'k \<times> 'v \<Rightarrow> ('k, 'v) btree \<Rightarrow> ('k, 'v) neighbours" where
  "steal_left (Leaf xs) a (Leaf ys) =
     (if xs = [] then Apart (Leaf xs) a (Leaf ys) else Apart (Leaf (butlast xs)) (last xs) (Leaf (a # ys)))"
| "steal_left (Branch ts u) a (Branch us w) =
     (if ts = [] then Apart (Branch ts u) a (Branch us w)
      else Apart (Branch (butlast ts) (fst (last ts))) (snd (last ts)) (Branch ((u, a) # us) w))"
| "steal_left l a r = Apart l a r"

fun steal_right :: "('k, 'v) btree \<Rightarrow> 'k \<times> 'v \<Rightarrow> ('k, 'v) btree \<Rightarrow> ('k, 'v) neighbours" where
  "steal_right (Leaf xs) a (Leaf (b # ys)) = Apart (Leaf (xs @ [a])) b (Leaf ys)"
| "steal_right (Branch ts u) a (Branch ((t, b) # us) w) = Apart (Branch (ts @ [(u, a)]) t) b (Branch us w)"
| "steal_right l a r = Apart l a r"

definition settle_pair ::
  "(('k, 'v) btree \<Rightarrow> 'k \<times> 'v \<Rightarrow> ('k, 'v) btree \<Rightarrow> ('k, 'v) neighbours) \<Rightarrow>
   ('k, 'v) btree \<Rightarrow> 'k \<times> 'v \<Rightarrow> ('k, 'v) btree \<Rightarrow> ('k, 'v) neighbours" where
  "settle_pair steal l a r = (if node_len l + 1 + node_len r \<le> 11 then merge_nodes l a r else steal l a r)"

text \<open>A child with fewer than 5 entries turns to its left neighbour, the first child to its right one.\<close>

definition mend_last :: "(('k, 'v) btree \<times> ('k \<times> 'v)) list \<Rightarrow> ('k, 'v) btree \<Rightarrow> ('k, 'v) btree" where
  "mend_last pre c =
     (if 5 \<le> node_len c \<or> pre = [] then Branch pre c
      else (case settle_pair steal_left (fst (last pre)) (snd (last pre)) c of
              Merged t \<Rightarrow> Branch (butlast pre) t
            | Apart l a r \<Rightarrow> Branch (butlast pre @ [(l, a)]) r))"

definition mend_child ::
  "(('k, 'v) btree \<times> ('k \<times> 'v)) list \<Rightarrow> ('k, 'v) btree \<Rightarrow> 'k \<times> 'v \<Rightarrow>
   (('k, 'v) btree \<times> ('k \<times> 'v)) list \<Rightarrow> ('k, 'v) btree \<Rightarrow> ('k, 'v) btree" where
  "mend_child pre c kv post u =
     (if 5 \<le> node_len c then Branch (pre @ (c, kv) # post) u
      else if pre \<noteq> []
      then (case settle_pair steal_left (fst (last pre)) (snd (last pre)) c of
              Merged t \<Rightarrow> Branch (butlast pre @ (t, kv) # post) u
            | Apart l a r \<Rightarrow> Branch (butlast pre @ (l, a) # (r, kv) # post) u)
      else (case post of
              [] \<Rightarrow> (case settle_pair steal_right c kv u of
                       Merged t \<Rightarrow> Branch [] t
                     | Apart l a r \<Rightarrow> Branch [(l, a)] r)
            | (d, b) # post' \<Rightarrow> (case settle_pair steal_right c kv d of
                       Merged t \<Rightarrow> Branch ((t, b) # post') u
                     | Apart l a r \<Rightarrow> Branch ((l, a) # (r, b) # post') u)))"

text \<open>The entry before a removed one takes its place; \<open>None\<close> stands for a tree without entries.\<close>

fun pop_max :: "('k, 'v) btree \<Rightarrow> (('k \<times> 'v) \<times> ('k, 'v) btree) option" where
  "pop_max (Leaf xs) = (if xs = [] then None else Some (last xs, Leaf (butlast xs)))"
| "pop_max (Branch ts u) =
     (case pop_max u of
        Some (kv, u') \<Rightarrow> Some (kv, mend_last ts u')
      | None \<Rightarrow> (if ts = [] then None else Some (snd (last ts), Branch (butlast ts) (fst (last ts)))))"

function delete_in :: "('k \<Rightarrow> 'k \<Rightarrow> bool) \<Rightarrow> 'k \<Rightarrow> ('k, 'v) btree \<Rightarrow> 'v option \<times> ('k, 'v) btree" where
  "delete_in lt k (Leaf xs) =
     (case dropWhile (\<lambda>kv. search_beyond lt k (fst kv)) xs of
        [] \<Rightarrow> (None, Leaf xs)
      | (k', v') # post \<Rightarrow>
          (if k = k' then (Some v', Leaf (takeWhile (\<lambda>kv. search_beyond lt k (fst kv)) xs @ post))
           else (None, Leaf xs)))"
| "delete_in lt k (Branch ts u) =
     (let pre = takeWhile (\<lambda>p. search_beyond lt k (fst (snd p))) ts
      in case dropWhile (\<lambda>p. search_beyond lt k (fst (snd p))) ts of
           [] \<Rightarrow> (case delete_in lt k u of
                    (None, u') \<Rightarrow> (None, Branch ts u)
                  | (Some w, u') \<Rightarrow> (Some w, mend_last ts u'))
         | (c, (k', v')) # post \<Rightarrow>
             (if k = k'
              then (Some v', (case pop_max c of
                                None \<Rightarrow> Branch (pre @ post) u
                              | Some (kv, c') \<Rightarrow> mend_child pre c' kv post u))
              else (case delete_in lt k c of
                      (None, c') \<Rightarrow> (None, Branch ts u)
                    | (Some w, c') \<Rightarrow> (Some w, mend_child pre c' (k', v') post u))))"
  by pat_completeness auto
termination
  by (relation "measure (\<lambda>(lt, k, t). size t)") (auto simp: size_child[simplified])

fun without_root :: "('k, 'v) btree \<Rightarrow> ('k, 'v) btree" where
  "without_root (Branch [] u) = u"
| "without_root t = t"

definition btree_remove ::
  "('k \<Rightarrow> 'k \<Rightarrow> bool) \<Rightarrow> 'k \<Rightarrow> ('k, 'v) btree \<Rightarrow> 'v option \<times> ('k, 'v) btree" where
  "btree_remove lt k t =
     (case delete_in lt k t of (None, t') \<Rightarrow> (None, t) | (Some w, t') \<Rightarrow> (Some w, without_root t'))"

section \<open>One entry at a time, whatever the order\<close>

fun joined_entries :: "('k, 'v) neighbours \<Rightarrow> ('k \<times> 'v) list" where
  "joined_entries (Merged t) = entries t"
| "joined_entries (Apart l a r) = entries l @ a # entries r"

lemma last_pair: "ts \<noteq> [] \<Longrightarrow> row_entries (butlast ts) @ entries (fst (last ts)) @ snd (last ts) # ys = row_entries ts @ ys"
  by (cases ts rule: rev_cases) (auto split: prod.splits)

lemma joined_merge [simp]: "joined_entries (merge_nodes l a r) = entries l @ a # entries r"
  by (induction l a r rule: merge_nodes.induct) simp_all

lemma joined_steal_left [simp]: "joined_entries (steal_left l a r) = entries l @ a # entries r"
  by (induction l a r rule: steal_left.induct) (simp_all add: last_pair)

lemma joined_steal_right [simp]: "joined_entries (steal_right l a r) = entries l @ a # entries r"
  by (induction l a r rule: steal_right.induct) simp_all

lemma joined_settle [simp]:
  "joined_entries (settle_pair steal_left l a r) = entries l @ a # entries r"
  "joined_entries (settle_pair steal_right l a r) = entries l @ a # entries r"
  by (simp_all add: settle_pair_def)

lemma settled:
  "settle_pair steal_left l a r = Merged t \<Longrightarrow> entries t = entries l @ a # entries r"
  "settle_pair steal_right l a r = Merged t \<Longrightarrow> entries t = entries l @ a # entries r"
  "settle_pair steal_left l a r = Apart l' a' r' \<Longrightarrow> entries l' @ a' # entries r' = entries l @ a # entries r"
  "settle_pair steal_right l a r = Apart l' a' r' \<Longrightarrow> entries l' @ a' # entries r' = entries l @ a # entries r"
  by (metis joined_entries.simps joined_settle)+

lemma entries_mend_last [simp]: "entries (mend_last pre c) = row_entries pre @ entries c"
  by (cases pre rule: rev_cases) (auto simp: mend_last_def settled split: neighbours.splits prod.splits)

lemma entries_mend [simp]: "entries (mend_child pre c kv post u) = row_entries pre @ entries c @ kv # row_entries post @ entries u"
proof (cases pre rule: rev_cases)
  case Nil
  then show ?thesis
    by (cases post) (auto simp: mend_child_def settled dest: settled(4) split: neighbours.splits prod.splits)
next
  case (snoc ps p)
  then show ?thesis
    by (cases p) (auto simp: mend_child_def settled dest: settled(3) split: neighbours.splits)
qed

lemma pop_max_None: "pop_max t = None \<Longrightarrow> entries t = []"
  by (induction t rule: pop_max.induct) (auto split: option.splits if_splits)

lemma pop_max_Some: "pop_max t = Some (kv, t') \<Longrightarrow> entries t = entries t' @ [kv]"
proof (induction t arbitrary: t' rule: pop_max.induct)
  case (1 xs)
  then show ?case by (auto split: if_splits)
next
  case (2 ts u)
  then show ?case
    by (auto split: option.splits if_splits dest: pop_max_None simp: last_pair[of ts "[]"])
qed

lemma entries_without_root [simp]: "entries (without_root t) = entries t"
  by (cases t rule: without_root.cases) simp_all

text \<open>The scan of a node splits it before the first key that does not compare \<open>Greater\<close>.\<close>

lemma scan_split:
  "dropWhile P xs = [] \<Longrightarrow> takeWhile P xs = xs"
  "dropWhile P xs = x # post \<Longrightarrow> xs = takeWhile P xs @ x # post"
  by (metis append_Nil2 takeWhile_dropWhile_id) (metis takeWhile_dropWhile_id)

lemma scan_row:
  "dropWhile P ts = (c, kv) # post \<Longrightarrow>
   row_entries ts = row_entries (takeWhile P ts) @ entries c @ kv # row_entries post"
  by (subst scan_split(2)[of P ts "(c, kv)" post]) simp_all

declare insert_in.simps [simp del] delete_in.simps [simp del] dropWhile_eq_Nil_conv [simp del]

lemma del_entries:
  "delete_in lt k t = (res, t') \<Longrightarrow>
   (case res of None \<Rightarrow> t' = t | Some w \<Rightarrow> \<exists>xs ys. entries t = xs @ (k, w) # ys \<and> entries t' = xs @ ys)"
proof (induction lt k t arbitrary: res t' rule: delete_in.induct)
  case (1 lt k xs)
  show ?case
  proof (cases "dropWhile (\<lambda>kv. search_beyond lt k (fst kv)) xs")
    case Nil
    then show ?thesis using 1 by (simp add: delete_in.simps)
  next
    case (Cons p post)
    define pre where "pre = takeWhile (\<lambda>kv. search_beyond lt k (fst kv)) xs"
    have xs: "entries (Leaf xs) = pre @ p # post" using scan_split(2)[OF Cons] by (simp add: pre_def)
    obtain k' v' where p: "p = (k', v')" by (cases p)
    show ?thesis
    proof (cases "k = k'")
      case True
      then have "res = Some v'" "t' = Leaf (pre @ post)" using 1 Cons p by (simp_all add: delete_in.simps pre_def)
      then show ?thesis using xs p True by auto
    next
      case False
      then show ?thesis using 1 Cons p by (simp add: delete_in.simps)
    qed
  qed
next
  case (2 lt k ts u)
  let ?P = "\<lambda>p. search_beyond lt k (fst (snd p))"
  let ?pre = "takeWhile ?P ts"
  show ?case
  proof (cases "dropWhile ?P ts")
    case Nil
    obtain r u' where ru: "delete_in lt k u = (r, u')" by fastforce
    note IH = 2(1)[OF refl Nil ru]
    have eq: "(res, t') = (case r of None \<Rightarrow> (None, Branch ts u) | Some w \<Rightarrow> (Some w, mend_last ts u'))"
      using 2(3) Nil ru by (simp add: delete_in.simps Let_def split: option.splits)
    show ?thesis
    proof (cases r)
      case None
      then show ?thesis using eq by simp
    next
      case (Some w)
      then obtain xs ys where "entries u = xs @ (k, w) # ys" "entries u' = xs @ ys" using IH by auto
      then have "entries (Branch ts u) = (row_entries ts @ xs) @ (k, w) # ys \<and> entries t' = (row_entries ts @ xs) @ ys"
        using eq Some by simp
      then show ?thesis using eq Some by (simp only: prod.inject option.case) blast
    qed
  next
    case (Cons p post)
    obtain c k' v' where p: "p = (c, (k', v'))" by (cases p) auto
    note row = scan_row[OF Cons[unfolded p]]
    show ?thesis
    proof (cases "k = k'")
      case True
      have p: "p = (c, (k, v'))" using p True by simp
      have "res = Some v'" "t' = (case pop_max c of None \<Rightarrow> Branch (?pre @ post) u
          | Some (kv, c') \<Rightarrow> mend_child ?pre c' kv post u)"
        using 2(3) Cons p by (simp_all add: delete_in.simps Let_def)
      then have "entries t' = (row_entries ?pre @ entries c) @ row_entries post @ entries u" "res = Some v'"
        by (auto simp: pop_max_None pop_max_Some split: option.splits)
      moreover have "entries (Branch ts u) = (row_entries ?pre @ entries c) @ (k, v') # row_entries post @ entries u"
        using row True by simp
      ultimately show ?thesis by (simp only: option.case) blast
    next
      case False
      obtain r c' where rc: "delete_in lt k c = (r, c')" by fastforce
      note IH = 2(2)[OF refl Cons p[symmetric] refl False rc]
      have eq: "(res, t') = (case r of None \<Rightarrow> (None, Branch ts u) | Some w \<Rightarrow> (Some w, mend_child ?pre c' (k', v') post u))"
        using 2(3) Cons p False rc by (simp add: delete_in.simps Let_def split: option.splits)
      show ?thesis
      proof (cases r)
        case None
        then show ?thesis using eq by simp
      next
        case (Some w)
        then obtain xs ys where "entries c = xs @ (k, w) # ys" "entries c' = xs @ ys" using IH by auto
        then have "entries (Branch ts u) = (row_entries ?pre @ xs) @ (k, w) # (ys @ (k', v') # row_entries post @ entries u) \<and>
            entries t' = (row_entries ?pre @ xs) @ (ys @ (k', v') # row_entries post @ entries u)"
          using eq row Some by simp
        then show ?thesis using eq Some by (simp only: prod.inject option.case) blast
      qed
    qed
  qed
qed

lemma remove_miss: "btree_remove lt k t = (None, t') \<Longrightarrow> t' = t"
  by (auto simp: btree_remove_def split: prod.splits option.splits)

lemma remove_hit:
  assumes "btree_remove lt k t = (Some w, t')"
  shows "\<exists>xs ys. entries t = xs @ (k, w) # ys \<and> entries t' = xs @ ys"
proof -
  obtain t1 where "delete_in lt k t = (Some w, t1)" "t' = without_root t1"
    using assms by (auto simp: btree_remove_def split: prod.splits option.splits)
  then show ?thesis using del_entries[of lt k t "Some w" t1] by simp
qed

fun grown_entries :: "('k, 'v) grown \<Rightarrow> ('k \<times> 'v) list" where
  "grown_entries (Fits t) = entries t"
| "grown_entries (Splits l a r) = entries l @ a # entries r"

lemma middle_less: "11 < n \<Longrightarrow> middle_kv i < n"
  by (simp add: middle_kv_def)

lemma grown_leaf [simp]: "grown_entries (grow_leaf i xs) = xs"
  using id_take_nth_drop[of "middle_kv i" xs] middle_less[of "length xs" i] by (simp add: grow_leaf_def)

lemma grown_branch [simp]: "grown_entries (grow_branch i ts u) = row_entries ts @ entries u"
proof (cases "length ts \<le> 11")
  case False
  then have "ts = take (middle_kv i) ts @ ts ! middle_kv i # drop (Suc (middle_kv i)) ts"
    by (intro id_take_nth_drop middle_less) simp
  then have "row_entries ts = row_entries (take (middle_kv i) ts) @ row_entries [ts ! middle_kv i] @ row_entries (drop (Suc (middle_kv i)) ts)"
    by (metis append_Cons append_Nil row_simps(3))
  then show ?thesis using False by (cases "ts ! middle_kv i") (simp add: grow_branch_def)
qed (simp add: grow_branch_def)

lemma ins_entries:
  "\<exists>xs old ys. entries t = xs @ old @ ys \<and> (old = [] \<or> (\<exists>w. old = [(k, w)])) \<and>
     grown_entries (insert_in lt k v t) = xs @ (k, v) # ys"
proof (induction lt k v t rule: insert_in.induct)
  case (1 lt k v xs)
  show ?case
  proof (cases "dropWhile (\<lambda>kv. search_beyond lt k (fst kv)) xs")
    case Nil
    then have "grown_entries (insert_in lt k v (Leaf xs)) = xs @ [(k, v)]"
      by (simp add: insert_in.simps scan_split(1) Let_def)
    moreover have "entries (Leaf xs) = xs @ [] @ []" by simp
    ultimately show ?thesis by blast
  next
    case (Cons p post)
    define pre where "pre = takeWhile (\<lambda>kv. search_beyond lt k (fst kv)) xs"
    have xs: "entries (Leaf xs) = pre @ p # post" using scan_split(2)[OF Cons] by (simp add: pre_def)
    obtain k' v' where p: "p = (k', v')" by (cases p)
    show ?thesis
    proof (cases "k = k'")
      case True
      then have "grown_entries (insert_in lt k v (Leaf xs)) = pre @ (k, v) # post"
        using Cons p by (simp add: insert_in.simps pre_def Let_def)
      moreover have "entries (Leaf xs) = pre @ [(k, v')] @ post" using xs p True by simp
      ultimately show ?thesis by blast
    next
      case False
      then have "grown_entries (insert_in lt k v (Leaf xs)) = pre @ (k, v) # p # post"
        using Cons p by (simp add: insert_in.simps pre_def Let_def)
      moreover have "entries (Leaf xs) = pre @ [] @ p # post" using xs by simp
      ultimately show ?thesis by blast
    qed
  qed
next
  case (2 lt k v ts u)
  let ?P = "\<lambda>p. search_beyond lt k (fst (snd p))"
  let ?pre = "takeWhile ?P ts"
  show ?case
  proof (cases "dropWhile ?P ts")
    case Nil
    obtain xs old ys where IH: "entries u = xs @ old @ ys" "old = [] \<or> (\<exists>w. old = [(k, w)])"
        "grown_entries (insert_in lt k v u) = xs @ (k, v) # ys" using 2(1)[OF refl Nil] by auto
    have "grown_entries (insert_in lt k v (Branch ts u)) = row_entries ts @ grown_entries (insert_in lt k v u)"
      using Nil by (simp add: insert_in.simps Let_def split: grown.splits)
    then have "entries (Branch ts u) = (row_entries ts @ xs) @ old @ ys"
        "grown_entries (insert_in lt k v (Branch ts u)) = (row_entries ts @ xs) @ (k, v) # ys" using IH by simp_all
    then show ?thesis using IH(2) by blast
  next
    case (Cons p post)
    obtain c k' v' where p: "p = (c, (k', v'))" by (cases p) auto
    note row = scan_row[OF Cons[unfolded p]]
    show ?thesis
    proof (cases "k = k'")
      case True
      have "grown_entries (insert_in lt k v (Branch ts u)) = (row_entries ?pre @ entries c) @ (k, v) # row_entries post @ entries u"
        using Cons p True by (simp add: insert_in.simps Let_def)
      moreover have "entries (Branch ts u) = (row_entries ?pre @ entries c) @ [(k, v')] @ row_entries post @ entries u"
        using row True by simp
      ultimately show ?thesis by blast
    next
      case False
      obtain xs old ys where IH: "entries c = xs @ old @ ys" "old = [] \<or> (\<exists>w. old = [(k, w)])"
        "grown_entries (insert_in lt k v c) = xs @ (k, v) # ys" using 2(2)[OF refl Cons p[symmetric] refl False] by auto
      have "grown_entries (insert_in lt k v (Branch ts u)) =
          row_entries ?pre @ grown_entries (insert_in lt k v c) @ (k', v') # row_entries post @ entries u"
        using Cons p False by (simp add: insert_in.simps Let_def split: grown.splits)
      then have "grown_entries (insert_in lt k v (Branch ts u)) =
            (row_entries ?pre @ xs) @ (k, v) # (ys @ (k', v') # row_entries post @ entries u)"
          "entries (Branch ts u) = (row_entries ?pre @ xs) @ old @ (ys @ (k', v') # row_entries post @ entries u)"
        using IH row by simp_all
      then show ?thesis using IH(2) by blast
    qed
  qed
qed

lemma entries_btree_insert: "entries (btree_insert lt k v t) = grown_entries (insert_in lt k v t)"
  by (simp add: btree_insert_def split: grown.splits)

lemma insert_one:
  "\<exists>xs old ys. entries t = xs @ old @ ys \<and> (old = [] \<or> (\<exists>w. old = [(k, w)])) \<and>
     entries (btree_insert lt k v t) = xs @ (k, v) # ys"
  unfolding entries_btree_insert by (rule ins_entries)

section \<open>The shape of the tree\<close>

text \<open>All leaves of a tree are at the same depth, no node has more than 11 entries, and none but the root fewer than 5.
  This holds whatever the order, so the equations above for neighbours of different height, and for a
  child without entries, are never used.\<close>

fun sound :: "nat \<Rightarrow> ('k, 'v) btree \<Rightarrow> bool" where
  "sound 0 (Leaf xs) \<longleftrightarrow> length xs \<le> 11"
| "sound (Suc n) (Branch ts u) \<longleftrightarrow>
     length ts \<le> 11 \<and> list_all (\<lambda>p. sound n (fst p) \<and> 5 \<le> node_len (fst p)) ts \<and> sound n u \<and> 5 \<le> node_len u"
| "sound _ _ \<longleftrightarrow> False"

definition sound_tree :: "('k, 'v) btree \<Rightarrow> bool" where
  "sound_tree t \<longleftrightarrow> (\<exists>n. sound n t \<and> (n = 0 \<or> 1 \<le> node_len t))"

lemma sound_LeafD: "sound n (Leaf xs) \<Longrightarrow> n = 0 \<and> length xs \<le> 11"
  by (cases n) simp_all

lemma sound_BranchE:
  assumes "sound n (Branch ts u)"
  obtains m where "n = Suc m" "length ts \<le> 11" "list_all (\<lambda>p. sound m (fst p) \<and> 5 \<le> node_len (fst p)) ts"
    "sound m u" "5 \<le> node_len u"
  using assms by (cases n) simp_all

fun sound_grown :: "nat \<Rightarrow> nat \<Rightarrow> ('k, 'v) grown \<Rightarrow> bool" where
  "sound_grown n k (Fits t) \<longleftrightarrow> sound n t \<and> k \<le> node_len t"
| "sound_grown n k (Splits l a r) \<longleftrightarrow> sound n l \<and> 5 \<le> node_len l \<and> sound n r \<and> 5 \<le> node_len r"

lemma sound_grow_leaf: "length xs \<le> 12 \<Longrightarrow> k \<le> length xs \<Longrightarrow> sound_grown 0 k (grow_leaf i xs)"
  by (auto simp: grow_leaf_def middle_kv_def)

lemma sound_grow_branch:
  assumes "length ts \<le> 12" "k \<le> length ts" "list_all (\<lambda>p. sound n (fst p) \<and> 5 \<le> node_len (fst p)) ts"
    and "sound n u" "5 \<le> node_len u"
  shows "sound_grown (Suc n) k (grow_branch i ts u)"
proof (cases "length ts \<le> 11")
  case True
  then show ?thesis using assms by (simp add: grow_branch_def)
next
  case False
  then have len: "length ts = 12" using assms(1) by simp
  have m: "middle_kv i = 5 \<or> middle_kv i = 6" by (simp add: middle_kv_def)
  then have "middle_kv i < length ts" using len by auto
  then have "sound n (fst (ts ! middle_kv i)) \<and> 5 \<le> node_len (fst (ts ! middle_kv i))"
    using assms(3) by (simp add: list_all_length)
  moreover have "list_all (\<lambda>p. sound n (fst p) \<and> 5 \<le> node_len (fst p)) (take (middle_kv i) ts)"
    "list_all (\<lambda>p. sound n (fst p) \<and> 5 \<le> node_len (fst p)) (drop (Suc (middle_kv i)) ts)"
    using assms(3) by (auto simp: list_all_iff dest: in_set_takeD in_set_dropD)
  ultimately show ?thesis using False len m assms(4,5) by (auto simp: grow_branch_def)
qed

lemma scan_list_all:
  "dropWhile P ts = x # post \<Longrightarrow> list_all R ts \<Longrightarrow> list_all R (takeWhile P ts) \<and> R x \<and> list_all R post"
  "dropWhile P ts = x # post \<Longrightarrow> length ts = Suc (length (takeWhile P ts) + length post)"
  by (metis list_all_append list.pred_inject(2) scan_split(2)) (metis add_Suc_right length_Cons length_append scan_split(2))

lemma sound_insert_in: "sound n t \<Longrightarrow> sound_grown n (node_len t) (insert_in lt k v t)"
proof (induction lt k v t arbitrary: n rule: insert_in.induct)
  case (1 lt k v xs)
  then have n: "n = 0" "length xs \<le> 11" using sound_LeafD by blast+
  show ?case
  proof (cases "dropWhile (\<lambda>kv. search_beyond lt k (fst kv)) xs")
    case Nil
    then show ?thesis using n by (simp add: insert_in.simps Let_def scan_split(1)[OF Nil] sound_grow_leaf)
  next
    case (Cons p post)
    then show ?thesis using n scan_list_all(2)[OF Cons]
      by (cases p) (auto simp: insert_in.simps Let_def intro!: sound_grow_leaf)
  qed
next
  case (2 lt k v ts u)
  obtain m where m: "n = Suc m" "length ts \<le> 11" "list_all (\<lambda>p. sound m (fst p) \<and> 5 \<le> node_len (fst p)) ts"
    "sound m u" "5 \<le> node_len u" using 2(3) by (rule sound_BranchE)
  define pre where "pre = takeWhile (\<lambda>p. search_beyond lt k (fst (snd p))) ts"
  show ?case
  proof (cases "dropWhile (\<lambda>p. search_beyond lt k (fst (snd p))) ts")
    case Nil
    note IH = 2(1)[OF refl Nil m(4)]
    show ?thesis
    proof (cases "insert_in lt k v u")
      case (Fits u')
      then show ?thesis using IH m Nil by (simp add: insert_in.simps Let_def)
    next
      case (Splits l a r)
      then have "sound_grown (Suc m) (length ts) (grow_branch (length pre) (ts @ [(l, a)]) r)"
        using IH m by (intro sound_grow_branch) simp_all
      then show ?thesis using Splits m(1) Nil by (simp add: insert_in.simps Let_def pre_def)
    qed
  next
    case (Cons p post)
    obtain c k' v' where p: "p = (c, (k', v'))" by (cases p) auto
    have parts: "list_all (\<lambda>p. sound m (fst p) \<and> 5 \<le> node_len (fst p)) pre" "sound m c" "5 \<le> node_len c"
      "list_all (\<lambda>p. sound m (fst p) \<and> 5 \<le> node_len (fst p)) post" "length ts = Suc (length pre + length post)"
      using scan_list_all(1)[OF Cons m(3)] scan_list_all(2)[OF Cons] p by (simp_all add: pre_def)
    show ?thesis
    proof (cases "k = k'")
      case True
      then show ?thesis using Cons p m parts by (simp add: insert_in.simps Let_def pre_def)
    next
      case False
      note IH = 2(2)[OF refl Cons p[symmetric] refl False parts(2)]
      show ?thesis
      proof (cases "insert_in lt k v c")
        case (Fits c')
        then show ?thesis using IH m parts Cons p False by (simp add: insert_in.simps Let_def pre_def)
      next
        case (Splits l a r)
        then have "sound_grown (Suc m) (length ts) (grow_branch (length pre) (pre @ (l, a) # (r, (k', v')) # post) u)"
          using IH m parts by (intro sound_grow_branch) simp_all
        then show ?thesis using Splits m(1) Cons p False by (simp add: insert_in.simps Let_def pre_def)
      qed
    qed
  qed
qed

lemma sound_btree_insert: "sound_tree t \<Longrightarrow> sound_tree (btree_insert lt k v t)"
proof -
  assume "sound_tree t"
  then obtain n where n: "sound n t" "n = 0 \<or> 1 \<le> node_len t" by (auto simp: sound_tree_def)
  show ?thesis
  proof (cases "insert_in lt k v t")
    case (Fits t')
    then show ?thesis using sound_insert_in[OF n(1), of lt k v] n(2)
      by (auto simp: btree_insert_def sound_tree_def intro!: exI[of _ n])
  next
    case (Splits l a r)
    then show ?thesis using sound_insert_in[OF n(1), of lt k v]
      by (auto simp: btree_insert_def sound_tree_def intro!: exI[of _ "Suc n"])
  qed
qed

text \<open>Neighbours of which one has lost an entry.\<close>

fun sound_pair :: "nat \<Rightarrow> ('k, 'v) neighbours \<Rightarrow> bool" where
  "sound_pair n (Merged t) \<longleftrightarrow> sound n t \<and> 5 \<le> node_len t"
| "sound_pair n (Apart l a r) \<longleftrightarrow> sound n l \<and> 5 \<le> node_len l \<and> sound n r \<and> 5 \<le> node_len r"

lemma sound_settle_left:
  assumes "sound n l" "5 \<le> node_len l" "sound n r" "node_len r = 4"
  shows "sound_pair n (settle_pair steal_left l a r)"
proof (cases l)
  case (Leaf xs)
  with assms obtain ys where r: "r = Leaf ys" "n = 0" by (cases r) (auto dest: sound_LeafD elim: sound_BranchE)
  then show ?thesis using Leaf assms by (auto simp: settle_pair_def)
next
  case (Branch ts u)
  with assms obtain us w m where r: "r = Branch us w" "n = Suc m"
    by (cases r) (auto dest: sound_LeafD elim: sound_BranchE)
  obtain qs q where "ts = qs @ [q]" using Branch assms(2) by (cases ts rule: rev_cases) auto
  then show ?thesis using Branch r assms by (auto simp: settle_pair_def)
qed

lemma sound_settle_right:
  assumes "sound n l" "node_len l = 4" "sound n r" "5 \<le> node_len r"
  shows "sound_pair n (settle_pair steal_right l a r)"
proof (cases r)
  case (Leaf ys)
  with assms obtain xs where l: "l = Leaf xs" "n = 0" by (cases l) (auto dest: sound_LeafD elim: sound_BranchE)
  obtain b ys' where "ys = b # ys'" using Leaf assms(4) by (cases ys) auto
  then show ?thesis using Leaf l assms by (auto simp: settle_pair_def)
next
  case (Branch us w)
  with assms obtain ts u m where l: "l = Branch ts u" "n = Suc m"
    by (cases l) (auto dest: sound_LeafD elim: sound_BranchE)
  obtain t b us' where "us = (t, b) # us'" using Branch assms(4) by (cases us) auto
  then show ?thesis using Branch l assms by (auto simp: settle_pair_def)
qed

text \<open>A node one child of which has lost an entry.\<close>

lemma sound_mend_last:
  assumes "list_all (\<lambda>p. sound n (fst p) \<and> 5 \<le> node_len (fst p)) pre" "pre \<noteq> []" "length pre \<le> 11"
    and "sound n c" "4 \<le> node_len c"
  shows "sound (Suc n) (mend_last pre c) \<and> length pre \<le> Suc (node_len (mend_last pre c))"
proof (cases "5 \<le> node_len c")
  case True
  then show ?thesis using assms by (simp add: mend_last_def)
next
  case False
  then have c: "node_len c = 4" using assms(5) by simp
  obtain ps l a where pre: "pre = ps @ [(l, a)]" using assms(2) by (cases pre rule: rev_cases) auto
  have "sound_pair n (settle_pair steal_left l a c)" using sound_settle_left[of n l c a] assms(1,4) c pre by simp
  then show ?thesis using False assms(1,3) unfolding pre
    by (auto simp: mend_last_def split: neighbours.splits)
qed

lemma sound_mend_child:
  assumes "list_all (\<lambda>p. sound n (fst p) \<and> 5 \<le> node_len (fst p)) pre"
    and "list_all (\<lambda>p. sound n (fst p) \<and> 5 \<le> node_len (fst p)) post"
    and "Suc (length pre + length post) \<le> 11" and "sound n c" "4 \<le> node_len c" and "sound n u" "5 \<le> node_len u"
  shows "sound (Suc n) (mend_child pre c kv post u) \<and> length pre + length post \<le> node_len (mend_child pre c kv post u)"
proof (cases "5 \<le> node_len c")
  case True
  then show ?thesis using assms by (simp add: mend_child_def)
next
  case False
  then have c: "node_len c = 4" using assms(5) by simp
  show ?thesis
  proof (cases pre rule: rev_cases)
    case (snoc ps p)
    obtain l a where pre: "pre = ps @ [(l, a)]" using snoc by (cases p) auto
    have "sound_pair n (settle_pair steal_left l a c)" using sound_settle_left[of n l c a] assms(1,4) c pre by simp
    then show ?thesis using False assms unfolding pre
      by (auto simp: mend_child_def split: neighbours.splits)
  next
    case Nil
    show ?thesis
    proof (cases post)
      case post: Nil
      have "sound_pair n (settle_pair steal_right c kv u)" using sound_settle_right[of n c u kv] assms(4,6,7) c by simp
      then show ?thesis using False assms Nil post by (auto simp: mend_child_def split: neighbours.splits)
    next
      case (Cons q post')
      obtain d b where q: "q = (d, b)" by (cases q)
      have "sound_pair n (settle_pair steal_right c kv d)"
        using sound_settle_right[of n c d kv] assms(2,4) c Cons q by simp
      then show ?thesis using False assms Nil Cons q by (auto simp: mend_child_def split: neighbours.splits)
    qed
  qed
qed

lemma sound_pop_max:
  "sound n t \<Longrightarrow> 1 \<le> node_len t \<Longrightarrow>
   \<exists>kv t'. pop_max t = Some (kv, t') \<and> sound n t' \<and> node_len t \<le> Suc (node_len t')"
proof (induction t arbitrary: n rule: pop_max.induct)
  case (1 xs)
  then show ?case by (cases n) auto
next
  case (2 ts u)
  obtain m where m: "n = Suc m" "length ts \<le> 11" "list_all (\<lambda>p. sound m (fst p) \<and> 5 \<le> node_len (fst p)) ts"
    "sound m u" "5 \<le> node_len u" using 2(2) by (rule sound_BranchE)
  obtain kv u' where "pop_max u = Some (kv, u')" "sound m u'" "node_len u \<le> Suc (node_len u')"
    using 2(1)[OF m(4)] m(5) by auto
  moreover have "ts \<noteq> []" using 2(3) by auto
  ultimately show ?case using sound_mend_last[OF m(3) _ m(2), of u'] m(1,5) by auto
qed

lemma sound_delete_in:
  "sound n t \<Longrightarrow> n = 0 \<or> 1 \<le> node_len t \<Longrightarrow> delete_in lt k t = (res, t') \<Longrightarrow>
   sound n t' \<and> node_len t \<le> Suc (node_len t')"
proof (induction lt k t arbitrary: n res t' rule: delete_in.induct)
  case (1 lt k xs)
  then have n: "n = 0" "length xs \<le> 11" using sound_LeafD by blast+
  show ?case
  proof (cases "dropWhile (\<lambda>kv. search_beyond lt k (fst kv)) xs")
    case Nil
    then show ?thesis using 1(3) n by (auto simp: delete_in.simps)
  next
    case (Cons p post)
    then show ?thesis using 1(3) n scan_list_all(2)[OF Cons]
      by (cases p) (auto simp: delete_in.simps split: if_splits)
  qed
next
  case (2 lt k ts u)
  obtain m where m: "n = Suc m" "length ts \<le> 11" "list_all (\<lambda>p. sound m (fst p) \<and> 5 \<le> node_len (fst p)) ts"
    "sound m u" "5 \<le> node_len u" using 2(3) by (rule sound_BranchE)
  have ts: "ts \<noteq> []" using 2(4) m(1) by auto
  define pre where "pre = takeWhile (\<lambda>p. search_beyond lt k (fst (snd p))) ts"
  show ?case
  proof (cases "dropWhile (\<lambda>p. search_beyond lt k (fst (snd p))) ts")
    case Nil
    obtain r u' where ru: "delete_in lt k u = (r, u')" by fastforce
    have "sound m u' \<and> node_len u \<le> Suc (node_len u')" using 2(1)[OF refl Nil m(4) _ ru] m(5) by simp
    then show ?thesis using 2(5) Nil ru m sound_mend_last[OF m(3) ts m(2), of u']
      by (cases r) (auto simp: delete_in.simps Let_def)
  next
    case (Cons p post)
    obtain c k' v' where p: "p = (c, (k', v'))" by (cases p) auto
    have parts: "list_all (\<lambda>p. sound m (fst p) \<and> 5 \<le> node_len (fst p)) pre" "sound m c" "5 \<le> node_len c"
      "list_all (\<lambda>p. sound m (fst p) \<and> 5 \<le> node_len (fst p)) post" "length ts = Suc (length pre + length post)"
      using scan_list_all(1)[OF Cons m(3)] scan_list_all(2)[OF Cons] p by (simp_all add: pre_def)
    have len: "Suc (length pre + length post) \<le> 11" using parts(5) m(2) by simp
    note mend = sound_mend_child[OF parts(1,4) len _ _ m(4,5)]
    show ?thesis
    proof (cases "k = k'")
      case True
      obtain kv c' where c': "pop_max c = Some (kv, c')" "sound m c'" "node_len c \<le> Suc (node_len c')"
        using sound_pop_max[OF parts(2)] parts(3) by auto
      have "t' = mend_child pre c' kv post u" using 2(5) Cons p True c'(1) by (simp add: delete_in.simps Let_def pre_def)
      then show ?thesis using mend[of c' kv] c'(2,3) parts(3,5) m(1) by simp
    next
      case False
      obtain r c' where rc: "delete_in lt k c = (r, c')" by fastforce
      have "sound m c' \<and> node_len c \<le> Suc (node_len c')"
        using 2(2)[OF refl Cons p[symmetric] refl False parts(2) _ rc] parts(3) by simp
      then show ?thesis using 2(3,5) Cons p False rc mend[of c' "(k', v')"] parts(3,5) m(1)
        by (cases r) (auto simp: delete_in.simps Let_def pre_def)
    qed
  qed
qed

lemma sound_btree_remove:
  assumes "sound_tree t"
  shows "sound_tree (snd (btree_remove lt k t))"
proof -
  obtain n where n: "sound n t" "n = 0 \<or> 1 \<le> node_len t" using assms by (auto simp: sound_tree_def)
  obtain res t' where d: "delete_in lt k t = (res, t')" by fastforce
  have t': "sound n t'" using sound_delete_in[OF n d] by simp
  have "sound_tree (without_root t')"
  proof (cases t')
    case (Leaf xs)
    then show ?thesis using t' by (auto simp: sound_tree_def dest: sound_LeafD)
  next
    case (Branch ts u)
    show ?thesis
    proof (cases ts)
      case Nil
      then show ?thesis using t' Branch by (cases n) (auto simp: sound_tree_def intro: order_trans)
    next
      case (Cons p ps)
      then show ?thesis using t' Branch by (auto simp: sound_tree_def)
    qed
  qed
  then show ?thesis using d assms by (cases res) (simp_all add: btree_remove_def)
qed

lemma sound_btree_new: "sound_tree btree_new"
  by (auto simp: sound_tree_def btree_new_def intro!: exI[of _ 0])

section \<open>A finite map, where the order is one\<close>

text \<open>A rank \<open>f\<close> that orders the keys of \<open>S\<close> as \<open>lt\<close> does.\<close>

definition ranked :: "('k \<Rightarrow> 'k \<Rightarrow> bool) \<Rightarrow> ('k \<Rightarrow> nat) \<Rightarrow> 'k set \<Rightarrow> bool" where
  "ranked lt f S \<longleftrightarrow> inj_on f S \<and> (\<forall>x \<in> S. \<forall>y \<in> S. lt x y \<longleftrightarrow> f x < f y)"

abbreviation keys :: "('k \<times> 'v) list \<Rightarrow> 'k set" where
  "keys xs \<equiv> fst ` set xs"

abbreviation ascending :: "('k \<Rightarrow> nat) \<Rightarrow> ('k \<times> 'v) list \<Rightarrow> bool" where
  "ascending f xs \<equiv> sorted_wrt (\<lambda>p q. f (fst p) < f (fst q)) xs"

definition ranked_below :: "('k \<Rightarrow> nat) \<Rightarrow> 'k \<Rightarrow> ('k \<times> 'v) list \<Rightarrow> ('k \<times> 'v) list" where
  "ranked_below f k xs = filter (\<lambda>p. f (fst p) < f k) xs"

definition ranked_above :: "('k \<Rightarrow> nat) \<Rightarrow> 'k \<Rightarrow> ('k \<times> 'v) list \<Rightarrow> ('k \<times> 'v) list" where
  "ranked_above f k xs = filter (\<lambda>p. f k < f (fst p)) xs"

lemma below_append [simp]: "ranked_below f k (xs @ ys) = ranked_below f k xs @ ranked_below f k ys"
  by (simp add: ranked_below_def)

lemma above_append [simp]: "ranked_above f k (xs @ ys) = ranked_above f k xs @ ranked_above f k ys"
  by (simp add: ranked_above_def)

lemma below_Cons [simp]: "ranked_below f k (p # xs) = (if f (fst p) < f k then p # ranked_below f k xs else ranked_below f k xs)"
  by (simp add: ranked_below_def)

lemma above_Cons [simp]: "ranked_above f k (p # xs) = (if f k < f (fst p) then p # ranked_above f k xs else ranked_above f k xs)"
  by (simp add: ranked_above_def)

lemma all_below: "\<forall>p \<in> set xs. f (fst p) < f k \<Longrightarrow> ranked_below f k xs = xs \<and> ranked_above f k xs = []"
  by (auto simp: ranked_below_def ranked_above_def filter_id_conv filter_empty_conv)

lemma all_above: "\<forall>p \<in> set xs. f k < f (fst p) \<Longrightarrow> ranked_above f k xs = xs \<and> ranked_below f k xs = []"
  by (auto simp: ranked_below_def ranked_above_def filter_id_conv filter_empty_conv)

lemma ranked_subset: "ranked lt f S \<Longrightarrow> T \<subseteq> S \<Longrightarrow> ranked lt f T"
  unfolding ranked_def by (meson inj_on_subset subsetD)

lemma ranked_beyond: "ranked lt f S \<Longrightarrow> k \<in> S \<Longrightarrow> key \<in> S \<Longrightarrow> search_beyond lt k key \<longleftrightarrow> f key < f k"
  unfolding ranked_def search_beyond_def by (metis inj_on_eq_iff linorder_neqE_nat order_less_imp_not_less)

lemma ranked_eq: "ranked lt f S \<Longrightarrow> k \<in> S \<Longrightarrow> key \<in> S \<Longrightarrow> f key = f k \<longleftrightarrow> k = key"
  unfolding ranked_def by (metis inj_on_eq_iff)

lemma in_row: "(c, kv) \<in> set ts \<Longrightarrow> kv \<in> set (row_entries ts)"
  by (induction ts) auto

text \<open>What a scan leaves behind is smaller than the key, what comes after it is larger.\<close>

lemma scan_row_below:
  assumes "ranked lt f S" "k \<in> S" "keys (row_entries ts) \<subseteq> S" "ascending f (row_entries ts)"
    and "\<forall>p \<in> set ts. search_beyond lt k (fst (snd p))"
  shows "\<forall>p \<in> set (row_entries ts). f (fst p) < f k"
proof
  fix p assume "p \<in> set (row_entries ts)"
  then obtain c kv where ckv: "(c, kv) \<in> set ts" "p = kv \<or> p \<in> set (entries c)" by (auto simp: row_entries_def)
  then obtain ts1 ts2 where ts: "ts = ts1 @ (c, kv) # ts2" by (meson split_list)
  have "fst kv \<in> S" using assms(3) in_row[OF ckv(1)] by blast
  then have kv: "f (fst kv) < f k" using assms(5) ckv(1) ranked_beyond[OF assms(1,2)] by force
  show "f (fst p) < f k"
  proof (cases "p = kv")
    case False
    then have "f (fst p) < f (fst kv)" using assms(4) ckv(2) unfolding ts by (auto simp: sorted_wrt_append)
    then show ?thesis using kv by simp
  qed (use kv in simp)
qed

lemma takeWhile_all: "\<forall>x \<in> set (takeWhile P xs). P x"
  by (meson set_takeWhileD)

lemma dropWhile_stops: "dropWhile P xs = x # ys \<Longrightarrow> \<not> P x"
  by (metis hd_dropWhile list.distinct(1) list.sel(1))

text \<open>The scan of a leaf and of a branch in these terms.\<close>

lemma leaf_scan:
  assumes "ranked lt f S" "k \<in> S" "keys xs \<subseteq> S" "ascending f xs"
    and pre: "pre = takeWhile (\<lambda>kv. search_beyond lt k (fst kv)) xs"
  shows "\<forall>p \<in> set pre. f (fst p) < f k"
    and "dropWhile (\<lambda>kv. search_beyond lt k (fst kv)) xs = [] \<Longrightarrow> xs = pre"
    and "dropWhile (\<lambda>kv. search_beyond lt k (fst kv)) xs = (k', v') # post \<Longrightarrow>
      xs = pre @ (k', v') # post \<and> f k \<le> f k' \<and> (f k' = f k \<longleftrightarrow> k = k') \<and> (\<forall>p \<in> set post. f k < f (fst p))"
proof -
  have "\<forall>p \<in> set pre. search_beyond lt k (fst p)" unfolding pre by (rule takeWhile_all)
  then show "\<forall>p \<in> set pre. f (fst p) < f k"
    using assms(3) ranked_beyond[OF assms(1,2)] set_takeWhileD unfolding pre by fastforce
  show "dropWhile (\<lambda>kv. search_beyond lt k (fst kv)) xs = [] \<Longrightarrow> xs = pre" by (simp add: scan_split(1) pre)
  assume d: "dropWhile (\<lambda>kv. search_beyond lt k (fst kv)) xs = (k', v') # post"
  then have xs: "xs = pre @ (k', v') # post" unfolding pre by (rule scan_split(2))
  then have k': "k' \<in> S" using assms(3) by auto
  have ge: "f k \<le> f k'" using dropWhile_stops[OF d] ranked_beyond[OF assms(1,2) k'] by simp
  moreover have "\<forall>p \<in> set post. f k' < f (fst p)" using assms(4) unfolding xs by (simp add: sorted_wrt_append)
  ultimately show "xs = pre @ (k', v') # post \<and> f k \<le> f k' \<and> (f k' = f k \<longleftrightarrow> k = k') \<and> (\<forall>p \<in> set post. f k < f (fst p))"
    using xs ranked_eq[OF assms(1,2) k'] by fastforce
qed

lemma branch_scan:
  assumes "ranked lt f S" "k \<in> S" "keys (entries (Branch ts u)) \<subseteq> S" "ascending f (entries (Branch ts u))"
    and pre: "pre = takeWhile (\<lambda>p. search_beyond lt k (fst (snd p))) ts"
  shows "\<forall>p \<in> set (row_entries pre). f (fst p) < f k"
    and "dropWhile (\<lambda>p. search_beyond lt k (fst (snd p))) ts = [] \<Longrightarrow> ts = pre"
    and "dropWhile (\<lambda>p. search_beyond lt k (fst (snd p))) ts = (c, (k', v')) # post \<Longrightarrow>
      row_entries ts = row_entries pre @ entries c @ (k', v') # row_entries post \<and> f k \<le> f k' \<and> (f k' = f k \<longleftrightarrow> k = k') \<and>
      (\<forall>p \<in> set (row_entries post @ entries u). f k < f (fst p))"
proof -
  have row: "row_entries ts = row_entries pre @ row_entries (dropWhile (\<lambda>p. search_beyond lt k (fst (snd p))) ts)"
    unfolding pre by (metis row_simps(3) takeWhile_dropWhile_id)
  have "keys (row_entries pre) \<subseteq> S" "ascending f (row_entries pre)"
    using assms(3,4) unfolding entries_Branch row by (auto simp: sorted_wrt_append)
  moreover have "\<forall>p \<in> set pre. search_beyond lt k (fst (snd p))" unfolding pre by (rule takeWhile_all)
  ultimately show "\<forall>p \<in> set (row_entries pre). f (fst p) < f k" by (rule scan_row_below[OF assms(1,2)])
  show "dropWhile (\<lambda>p. search_beyond lt k (fst (snd p))) ts = [] \<Longrightarrow> ts = pre" by (simp add: scan_split(1) pre)
  assume d: "dropWhile (\<lambda>p. search_beyond lt k (fst (snd p))) ts = (c, (k', v')) # post"
  then have ts: "row_entries ts = row_entries pre @ entries c @ (k', v') # row_entries post" unfolding row by simp
  then have k': "k' \<in> S" using assms(3) by auto
  have ge: "f k \<le> f k'" using dropWhile_stops[OF d] ranked_beyond[OF assms(1,2) k'] by simp
  moreover have "\<forall>p \<in> set (row_entries post @ entries u). f k' < f (fst p)"
    using assms(4) unfolding entries_Branch ts by (auto simp: sorted_wrt_append)
  ultimately show "row_entries ts = row_entries pre @ entries c @ (k', v') # row_entries post \<and> f k \<le> f k' \<and> (f k' = f k \<longleftrightarrow> k = k') \<and>
      (\<forall>p \<in> set (row_entries post @ entries u). f k < f (fst p))"
    using ts ranked_eq[OF assms(1,2) k'] by fastforce
qed

lemma ins_ranked:
  "ranked lt f S \<Longrightarrow> k \<in> S \<Longrightarrow> keys (entries t) \<subseteq> S \<Longrightarrow> ascending f (entries t) \<Longrightarrow>
   grown_entries (insert_in lt k v t) = ranked_below f k (entries t) @ (k, v) # ranked_above f k (entries t)"
proof (induction lt k v t rule: insert_in.induct)
  case (1 lt k v xs)
  define pre where "pre = takeWhile (\<lambda>kv. search_beyond lt k (fst kv)) xs"
  note scan = leaf_scan[OF 1(1,2) 1(3,4)[unfolded entries.simps] pre_def]
  note left = all_below[OF scan(1)]
  show ?case
  proof (cases "dropWhile (\<lambda>kv. search_beyond lt k (fst kv)) xs")
    case Nil
    then have "grown_entries (insert_in lt k v (Leaf xs)) = pre @ [(k, v)]"
      by (simp add: insert_in.simps Let_def pre_def)
    then show ?thesis using left scan(2)[OF Nil] by simp
  next
    case (Cons p post)
    obtain k' v' where p: "p = (k', v')" by (cases p)
    have s: "xs = pre @ (k', v') # post" "f k \<le> f k'" "f k' = f k \<longleftrightarrow> k = k'" "\<forall>p \<in> set post. f k < f (fst p)"
      using scan(3)[OF Cons[unfolded p]] by blast+
    have "grown_entries (insert_in lt k v (Leaf xs)) = pre @ (k, v) # (if k = k' then post else p # post)"
      using Cons p by (simp add: insert_in.simps Let_def pre_def)
    moreover have "ranked_above f k xs = (if k = k' then post else p # post)" "ranked_below f k xs = pre"
      unfolding s(1) using s(2,3) all_above[OF s(4)] left p by (auto simp: le_less)
    ultimately show ?thesis by simp
  qed
next
  case (2 lt k v ts u)
  define pre where "pre = takeWhile (\<lambda>p. search_beyond lt k (fst (snd p))) ts"
  note scan = branch_scan[OF 2(3-6) pre_def]
  note left = all_below[OF scan(1)]
  show ?case
  proof (cases "dropWhile (\<lambda>p. search_beyond lt k (fst (snd p))) ts")
    case Nil
    have "ascending f (entries u)" "keys (entries u) \<subseteq> S" using 2(5,6) by (auto simp: sorted_wrt_append)
    note IH = 2(1)[OF refl Nil 2(3,4) this(2,1)]
    have "grown_entries (insert_in lt k v (Branch ts u)) = row_entries ts @ grown_entries (insert_in lt k v u)"
      using Nil by (simp add: insert_in.simps Let_def split: grown.splits)
    then show ?thesis using IH left scan(2)[OF Nil] by simp
  next
    case (Cons p post)
    obtain c k' v' where p: "p = (c, (k', v'))" by (cases p) auto
    have s: "row_entries ts = row_entries pre @ entries c @ (k', v') # row_entries post" "f k \<le> f k'" "f k' = f k \<longleftrightarrow> k = k'"
      "\<forall>p \<in> set (row_entries post @ entries u). f k < f (fst p)"
      using scan(3)[OF Cons[unfolded p]] by blast+
    have es: "entries (Branch ts u) = row_entries pre @ entries c @ (k', v') # (row_entries post @ entries u)"
      unfolding entries_Branch s(1) by simp
    have c: "ascending f (entries c)" "keys (entries c) \<subseteq> S" "\<forall>p \<in> set (entries c). f (fst p) < f k'"
      using 2(5,6) unfolding es by (auto simp: sorted_wrt_append)
    show ?thesis
    proof (cases "k = k'")
      case True
      have "grown_entries (insert_in lt k v (Branch ts u)) = (row_entries pre @ entries c) @ (k, v) # row_entries post @ entries u"
        using Cons p True by (simp add: insert_in.simps Let_def pre_def)
      moreover have "ranked_below f k (entries c) = entries c" "ranked_above f k (entries c) = []"
        using all_below[OF c(3)] True by simp_all
      ultimately show ?thesis unfolding es below_append above_append below_Cons above_Cons
        using left all_above[OF s(4)] True by simp
    next
      case False
      note IH = 2(2)[OF refl Cons p[symmetric] refl False 2(3,4) c(2,1)]
      have "grown_entries (insert_in lt k v (Branch ts u)) =
          row_entries pre @ grown_entries (insert_in lt k v c) @ (k', v') # row_entries post @ entries u"
        using Cons p False by (simp add: insert_in.simps Let_def pre_def split: grown.splits)
      then show ?thesis unfolding es below_append above_append below_Cons above_Cons
        using IH left all_above[OF s(4)] s(2,3) False by simp
    qed
  qed
qed

lemma del_ranked:
  "ranked lt f S \<Longrightarrow> k \<in> S \<Longrightarrow> keys (entries t) \<subseteq> S \<Longrightarrow> ascending f (entries t) \<Longrightarrow>
   k \<in> keys (entries t) \<Longrightarrow> fst (delete_in lt k t) \<noteq> None"
proof (induction lt k t rule: delete_in.induct)
  case (1 lt k xs)
  define pre where "pre = takeWhile (\<lambda>kv. search_beyond lt k (fst kv)) xs"
  note scan = leaf_scan[OF 1(1,2) 1(3,4)[unfolded entries.simps] pre_def]
  have pre: "k \<notin> keys pre" using scan(1) by force
  show ?case
  proof (cases "dropWhile (\<lambda>kv. search_beyond lt k (fst kv)) xs")
    case Nil
    then show ?thesis using pre 1(5) scan(2) by simp
  next
    case (Cons p post)
    obtain k' v' where p: "p = (k', v')" by (cases p)
    have s: "xs = pre @ (k', v') # post" "\<forall>p \<in> set post. f k < f (fst p)" using scan(3)[OF Cons[unfolded p]] by blast+
    have "k \<notin> keys post" using s(2) by force
    then have "k = k'" using pre 1(5) unfolding entries.simps s(1) by auto
    then show ?thesis using Cons p by (simp add: delete_in.simps)
  qed
next
  case (2 lt k ts u)
  define pre where "pre = takeWhile (\<lambda>p. search_beyond lt k (fst (snd p))) ts"
  note scan = branch_scan[OF 2(3-6) pre_def]
  have pre: "k \<notin> keys (row_entries pre)" using scan(1) by force
  show ?case
  proof (cases "dropWhile (\<lambda>p. search_beyond lt k (fst (snd p))) ts")
    case Nil
    have u: "ascending f (entries u)" "keys (entries u) \<subseteq> S" using 2(5,6) by (auto simp: sorted_wrt_append)
    have "k \<in> keys (entries u)" using 2(7) pre scan(2)[OF Nil] by auto
    from 2(1)[OF refl Nil 2(3,4) u(2,1) this] show ?thesis
      using Nil by (auto simp: delete_in.simps Let_def split: prod.splits option.splits)
  next
    case (Cons p post)
    obtain c k' v' where p: "p = (c, (k', v'))" by (cases p) auto
    have s: "row_entries ts = row_entries pre @ entries c @ (k', v') # row_entries post" "f k \<le> f k'" "f k' = f k \<longleftrightarrow> k = k'"
      "\<forall>p \<in> set (row_entries post @ entries u). f k < f (fst p)"
      using scan(3)[OF Cons[unfolded p]] by blast+
    have es: "entries (Branch ts u) = row_entries pre @ entries c @ (k', v') # (row_entries post @ entries u)"
      unfolding entries_Branch s(1) by simp
    show ?thesis
    proof (cases "k = k'")
      case True
      then show ?thesis using Cons p by (simp add: delete_in.simps Let_def)
    next
      case False
      have c: "ascending f (entries c)" "keys (entries c) \<subseteq> S"
        using 2(5,6) unfolding es by (auto simp: sorted_wrt_append)
      have "k \<notin> keys (row_entries post @ entries u)" using s(4) by force
      then have "k \<in> keys (entries c)" using 2(7) pre False unfolding es by auto
      from 2(2)[OF refl Cons p[symmetric] refl False 2(3,4) c(2,1) this] show ?thesis
        using Cons p False by (auto simp: delete_in.simps Let_def split: prod.splits option.splits)
    qed
  qed
qed

text \<open>Together: \<open>insert\<close> is the update and \<open>remove\<close> the look-up and deletion of a finite map.\<close>

lemma ascending_distinct: "ascending f xs \<Longrightarrow> distinct (map fst xs)"
  by (induction xs) force+

lemma insert_ranked:
  assumes "ranked lt f (insert k (keys (entries t)))" "ascending f (entries t)"
  shows "map_of (entries (btree_insert lt k v t)) = (map_of (entries t))(k \<mapsto> v)"
    and "ascending f (entries (btree_insert lt k v t))"
    and "keys (entries (btree_insert lt k v t)) = insert k (keys (entries t))"
proof -
  let ?xs = "entries t"
  have new: "entries (btree_insert lt k v t) = ranked_below f k ?xs @ (k, v) # ranked_above f k ?xs"
    using ins_ranked[OF assms(1) _ _ assms(2)] by (auto simp: entries_btree_insert)
  have mem: "p \<in> set (ranked_below f k ?xs) \<or> p \<in> set (ranked_above f k ?xs) \<longleftrightarrow> p \<in> set ?xs \<and> fst p \<noteq> k" for p
    using ranked_eq[OF assms(1), of k "fst p"] by (auto simp: ranked_below_def ranked_above_def)
  show asc: "ascending f (entries (btree_insert lt k v t))"
    unfolding new using assms(2) by (auto simp: ranked_below_def ranked_above_def sorted_wrt_append sorted_wrt_filter)
  show "keys (entries (btree_insert lt k v t)) = insert k (keys (entries t))"
    unfolding new using mem by force
  show "map_of (entries (btree_insert lt k v t)) = (map_of (entries t))(k \<mapsto> v)"
  proof
    fix x
    have d: "distinct (map fst (entries (btree_insert lt k v t)))" "distinct (map fst ?xs)"
      using asc assms(2) by (simp_all add: ascending_distinct)
    show "map_of (entries (btree_insert lt k v t)) x = ((map_of ?xs)(k \<mapsto> v)) x"
    proof (cases "x = k")
      case True
      then show ?thesis using map_of_eq_Some_iff[OF d(1), of k v] unfolding new by simp
    next
      case False
      have "map_of (entries (btree_insert lt k v t)) x = Some w \<longleftrightarrow> map_of ?xs x = Some w" for w
        using False mem[of "(x, w)"] unfolding map_of_eq_Some_iff[OF d(1)] map_of_eq_Some_iff[OF d(2)]
        by (auto simp: new)
      then show ?thesis using False by (metis fun_upd_other option.exhaust)
    qed
  qed
qed

lemma remove_ranked:
  assumes "ranked lt f (insert k (keys (entries t)))" "ascending f (entries t)"
    and "btree_remove lt k t = (res, t')"
  shows "res = map_of (entries t) k" and "map_of (entries t') = (map_of (entries t))(k := None)"
    and "ascending f (entries t')" and "keys (entries t') = keys (entries t) - {k}"
proof -
  have dist: "distinct (map fst (entries t))" using assms(2) by (rule ascending_distinct)
  have "res = map_of (entries t) k \<and> map_of (entries t') = (map_of (entries t))(k := None) \<and>
    ascending f (entries t') \<and> keys (entries t') = keys (entries t) - {k}"
  proof (cases res)
    case None
    then have t': "t' = t" using assms(3) remove_miss by simp
    have "fst (delete_in lt k t) = None" using assms(3) None
      by (auto simp: btree_remove_def split: prod.splits option.splits)
    then have "k \<notin> keys (entries t)" using del_ranked[OF assms(1) _ _ assms(2)] by blast
    moreover from this have "map_of (entries t) k = None" by (simp add: map_of_eq_None_iff)
    ultimately show ?thesis using None t' assms(2) by (simp add: fun_upd_idem)
  next
    case (Some w)
    then obtain xs ys where es: "entries t = xs @ (k, w) # ys" "entries t' = xs @ ys"
      using assms(3) remove_hit by fastforce
    have k: "k \<notin> keys xs" "k \<notin> keys ys" using dist unfolding es(1) by auto
    then have "map_of xs k = None" "map_of ys k = None" by (simp_all add: map_of_eq_None_iff)
    then have "map_of (entries t) k = res" "map_of (entries t') = (map_of (entries t))(k := None)"
      unfolding es Some by (auto simp: map_add_def fun_eq_iff split: option.splits)
    moreover have "ascending f (entries t')" using assms(2) unfolding es by (simp add: sorted_wrt_append)
    ultimately show ?thesis using k unfolding es by auto
  qed
  then show "res = map_of (entries t) k" "map_of (entries t') = (map_of (entries t))(k := None)"
    "ascending f (entries t')" "keys (entries t') = keys (entries t) - {k}" by blast+
qed

end
