(* ===== verification/Frame_Buffer.thy ===== *)
theory Frame_Buffer
  imports Sequence_Numbers BTree_Map "HOL-Library.Multiset"
begin

text \<open>
  The jitter buffer between the network tasks and the audio thread, and the sample source
  that plays it: \<open>FrameBuffer\<close> and \<open>FrameBufferSource\<close> of src/src/player/frame_buffer.rs.
  The \<open>BTreeMap\<close> keyed by sequence number is the tree of \<open>BTree_Map\<close> over the cyclic order of \<open>Seq\<close>, an
  \<open>IntoIter\<close> is the list of the samples it still yields, and the buffer behind the \<open>Arc<Mutex<_>>\<close> is passed
  explicitly. The order is total only between numbers that lie within half the number space, so the buffer is
  a finite map (\<open>stored\<close>) only while all its packets lie less than 32768 ahead of the read marker (\<open>well_ordered\<close>).
  The interface between the two, \<open>packet_queue\<close>, is a locale: the source only relies on
  \<open>pop_front\<close> handing out the packets of a queue in order.
\<close>

section \<open>The buffer\<close>

record ('q, 's) frame_buffer =
  fb_data :: "('q, 's list) btree"
  read_marker :: 'q
  write_marker :: 'q

definition frame_buffer_new :: "'q \<Rightarrow> ('q, 's) frame_buffer" where
  "frame_buffer_new initial_seq =
     \<lparr>fb_data = btree_new, read_marker = initial_seq, write_marker = initial_seq\<rparr>"

definition add_packet ::
  "'q seq_ops \<Rightarrow> ('q, 's) frame_buffer \<Rightarrow> 'q \<Rightarrow> 's list \<Rightarrow> ('q, 's) frame_buffer \<times> ('q \<times> 'q)" where
  "add_packet Q fb seq packet =
     (let old_write_marker = write_marker fb;
          fb1 = fb\<lparr>write_marker := seq\<rparr>;
          fb2 = fb1\<lparr>fb_data := btree_insert (seq_lt Q) seq packet (fb_data fb1)\<rparr>
      in (fb2, (seq_next Q old_write_marker, seq)))"

text \<open>The loop of \<open>flush\<close>; \<open>None\<close> would mean that it never reaches the requested number.\<close>

partial_function (option) flush_fb ::
  "'q seq_ops \<Rightarrow> ('q, 's) frame_buffer \<Rightarrow> 'q \<Rightarrow> ('q, 's) frame_buffer option" where
  "flush_fb Q fb seq =
     (if read_marker fb \<noteq> seq
      then flush_fb Q (fb\<lparr>fb_data := snd (btree_remove (seq_lt Q) (read_marker fb) (fb_data fb)),
                         read_marker := seq_next Q (read_marker fb)\<rparr>) seq
      else Some fb)"

definition pop_front ::
  "'q seq_ops \<Rightarrow> ('q, 's) frame_buffer \<Rightarrow> 's list option \<times> ('q, 's) frame_buffer" where
  "pop_front Q fb =
     (let (data, rest) = btree_remove (seq_lt Q) (read_marker fb) (fb_data fb);
          fb1 = fb\<lparr>fb_data := rest\<rparr>
      in (data, if data \<noteq> None then fb1\<lparr>read_marker := seq_next Q (read_marker fb1)\<rparr> else fb1))"

text \<open>What the buffer holds: its entries, and the finite map they make.\<close>

definition contents :: "('q, 's) frame_buffer \<Rightarrow> ('q \<times> 's list) list" where
  "contents fb = entries (fb_data fb)"

definition stored :: "('q, 's) frame_buffer \<Rightarrow> 'q \<Rightarrow> 's list option" where
  "stored fb = map_of (contents fb)"

lemma stored_None: "stored fb k = None \<longleftrightarrow> k \<notin> keys (contents fb)"
  by (simp add: stored_def map_of_eq_None_iff)

lemma pop_front_miss: "fst (pop_front Q fb) = None \<Longrightarrow> pop_front Q fb = (None, fb)"
  by (cases fb) (auto simp: pop_front_def Let_def dest: remove_miss split: prod.splits)

lemma pop_front_hit:
  assumes "pop_front Q fb = (Some p, fb')"
  shows "\<exists>xs ys. contents fb = xs @ (read_marker fb, p) # ys \<and> contents fb' = xs @ ys"
    and "read_marker fb' = seq_next Q (read_marker fb)"
  using assms by (auto simp: pop_front_def contents_def Let_def dest: remove_hit split: prod.splits if_splits)

lemma pop_front_None: "stored fb (read_marker fb) = None \<Longrightarrow> pop_front Q fb = (None, fb)"
proof (rule pop_front_miss, rule ccontr)
  assume none: "stored fb (read_marker fb) = None" and "fst (pop_front Q fb) \<noteq> None"
  then obtain p fb' where "pop_front Q fb = (Some p, fb')" by (metis option.exhaust prod.collapse)
  then have "read_marker fb \<in> keys (contents fb)" using pop_front_hit(1) by fastforce
  then show False using none by (simp add: stored_None)
qed

lemma add_packet_simps [simp]:
  "read_marker (fst (add_packet Q fb s p)) = read_marker fb"
  "write_marker (fst (add_packet Q fb s p)) = s"
  "snd (add_packet Q fb s p) = (seq_next Q (write_marker fb), s)"
  by (simp_all add: add_packet_def Let_def)

lemma add_packet_contents:
  "\<exists>xs old ys. contents fb = xs @ old @ ys \<and> (old = [] \<or> (\<exists>w. old = [(s, w)])) \<and>
     contents (fst (add_packet Q fb s p)) = xs @ (s, p) # ys"
  using insert_one[of "fb_data fb" s "seq_lt Q" p] by (simp add: add_packet_def Let_def contents_def)

text \<open>A new packet is in the buffer, and only a packet of the same number leaves for it.\<close>

lemma add_packet_mem: "(s, p) \<in> set (contents (fst (add_packet Q fb s p)))"
  using add_packet_contents[of fb s Q p] by auto

lemma add_packet_keeps:
  "x \<in> set (contents fb) \<Longrightarrow> fst x \<noteq> s \<Longrightarrow> x \<in> set (contents (fst (add_packet Q fb s p)))"
  using add_packet_contents[of fb s Q p] by auto

lemma add_packet_keys: "keys (contents (fst (add_packet Q fb s p))) = insert s (keys (contents fb))"
proof -
  obtain xs old ys where h: "contents fb = xs @ old @ ys" "contents (fst (add_packet Q fb s p)) = xs @ (s, p) # ys"
    and old: "old = [] \<or> (\<exists>w. old = [(s, w)])" using add_packet_contents[of fb s Q p] by blast
  have "insert s (keys old) = {s}" using old by auto
  then show ?thesis unfolding h set_append list.set image_Un image_insert fst_conv by blast
qed

lemma frame_buffer_new_simps [simp]:
  "fb_data (frame_buffer_new s) = btree_new" "contents (frame_buffer_new s) = []"
  "stored (frame_buffer_new s) = Map.empty"
  "read_marker (frame_buffer_new s) = s" "write_marker (frame_buffer_new s) = s"
  by (simp_all add: frame_buffer_new_def contents_def stored_def btree_new_def)

text \<open>Receiving several packets.\<close>

fun add_packets ::
  "'q seq_ops \<Rightarrow> ('q, 's) frame_buffer \<Rightarrow> ('q \<times> 's list) list \<Rightarrow> ('q, 's) frame_buffer" where
  "add_packets Q fb [] = fb"
| "add_packets Q fb ((s, p) # ps) = add_packets Q (fst (add_packet Q fb s p)) ps"

lemma add_packets_read_marker [simp]: "read_marker (add_packets Q fb ps) = read_marker fb"
  by (induction Q fb ps rule: add_packets.induct) auto

text \<open>Every operation keeps the shape of the tree.\<close>

lemma sound_frame_buffer:
  "sound_tree (fb_data (frame_buffer_new s))"
  "sound_tree (fb_data fb) \<Longrightarrow> sound_tree (fb_data (fst (add_packet Q fb s p)))"
  "sound_tree (fb_data fb) \<Longrightarrow> sound_tree (fb_data (snd (pop_front Q fb)))"
  using sound_btree_remove[of "fb_data fb" "seq_lt Q" "read_marker fb"]
  by (auto simp: sound_btree_new add_packet_def sound_btree_insert pop_front_def Let_def split: prod.splits)

lemma sound_flush:
  assumes "flush_fb Q fb seq = Some fb'" "sound_tree (fb_data fb)"
  shows "sound_tree (fb_data fb')"
proof -
  have "sound_tree (fb_data fb) \<longrightarrow> sound_tree (fb_data fb')"
    by (rule flush_fb.raw_induct[where P = "\<lambda>_ fb _ fb'. sound_tree (fb_data fb) \<longrightarrow> sound_tree (fb_data fb')", OF _ assms(1)])
      (auto simp: sound_btree_remove split: if_splits)
  then show ?thesis using assms(2) by simp
qed

section \<open>The buffer as a finite map\<close>

definition well_ordered :: "'q seq_ops \<Rightarrow> ('q, 's) frame_buffer \<Rightarrow> bool" where
  "well_ordered Q fb \<longleftrightarrow>
     (\<forall>k \<in> keys (contents fb). seq_dist Q (read_marker fb) k < 2 ^ 15) \<and>
     ascending (seq_dist Q (read_marker fb)) (contents fb)"

lemma well_ordered_new [simp]: "well_ordered Q (frame_buffer_new s)"
  by (simp add: well_ordered_def)

context seq_api
begin

lemma ranked_ahead: "(\<forall>k \<in> S. seq_dist Q a k < 2 ^ 15) \<Longrightarrow> ranked (seq_lt Q) (seq_dist Q a) S"
  by (auto simp: ranked_def inj_on_def dist_inj lt_ahead)

lemma add_packet_ordered:
  assumes "well_ordered Q fb" "seq_dist Q (read_marker fb) s < 2 ^ 15"
  shows "stored (fst (add_packet Q fb s p)) = (stored fb)(s \<mapsto> p)"
    and "well_ordered Q (fst (add_packet Q fb s p))"
proof -
  have rank: "ranked (seq_lt Q) (seq_dist Q (read_marker fb)) (insert s (keys (entries (fb_data fb))))"
    using assms by (intro ranked_ahead) (auto simp: well_ordered_def contents_def)
  have asc: "ascending (seq_dist Q (read_marker fb)) (entries (fb_data fb))"
    using assms(1) by (simp add: well_ordered_def contents_def)
  have data: "fb_data (fst (add_packet Q fb s p)) = btree_insert (seq_lt Q) s p (fb_data fb)"
    by (simp add: add_packet_def Let_def)
  show "stored (fst (add_packet Q fb s p)) = (stored fb)(s \<mapsto> p)"
    unfolding stored_def contents_def data by (rule insert_ranked(1)[OF rank asc])
  show "well_ordered Q (fst (add_packet Q fb s p))"
    using insert_ranked(2,3)[OF rank asc, of p] assms by (simp add: well_ordered_def contents_def data)
qed

text \<open>Behind a packet that is taken or skipped the window moves on.\<close>

lemma well_ordered_next:
  assumes "well_ordered Q fb" "read_marker fb \<notin> keys (contents fb)"
    and "contents fb' = contents fb" "read_marker fb' = seq_next Q (read_marker fb)"
  shows "well_ordered Q fb'"
proof -
  have d: "seq_dist Q (seq_next Q (read_marker fb)) (fst x) = seq_dist Q (read_marker fb) (fst x) - 1 \<and>
      0 < seq_dist Q (read_marker fb) (fst x)" if "x \<in> set (contents fb)" for x
  proof -
    have "read_marker fb \<noteq> fst x" using that assms(2) by auto
    then show ?thesis using dist_next dist_0[of "read_marker fb" "fst x"] by (simp del: dist_0)
  qed
  have "ascending (seq_dist Q (seq_next Q (read_marker fb))) (contents fb)"
    by (rule sorted_wrt_mono_rel[of _ "\<lambda>p q. seq_dist Q (read_marker fb) (fst p) < seq_dist Q (read_marker fb) (fst q)"])
      (use d assms(1) in \<open>auto simp: well_ordered_def dest!: d\<close>)
  moreover have "\<forall>k \<in> keys (contents fb). seq_dist Q (seq_next Q (read_marker fb)) k < 2 ^ 15"
    using d assms(1) by (auto simp: well_ordered_def less_imp_diff_less)
  ultimately show ?thesis by (simp add: well_ordered_def assms(3,4))
qed

lemma remove_ordered:
  assumes "well_ordered Q fb" "btree_remove (seq_lt Q) (read_marker fb) (fb_data fb) = (res, rest)"
  shows "res = stored fb (read_marker fb)"
    and "map_of (entries rest) = (stored fb)(read_marker fb := None)"
    and "well_ordered Q (fb\<lparr>fb_data := rest\<rparr>)"
    and "well_ordered Q (fb\<lparr>fb_data := rest, read_marker := seq_next Q (read_marker fb)\<rparr>)"
proof -
  have rank: "ranked (seq_lt Q) (seq_dist Q (read_marker fb)) (insert (read_marker fb) (keys (entries (fb_data fb))))"
    using assms by (intro ranked_ahead) (auto simp: well_ordered_def contents_def)
  have asc: "ascending (seq_dist Q (read_marker fb)) (entries (fb_data fb))"
    using assms(1) by (simp add: well_ordered_def contents_def)
  note remove = remove_ranked[OF rank asc assms(2)]
  show "res = stored fb (read_marker fb)" "map_of (entries rest) = (stored fb)(read_marker fb := None)"
    using remove(1,2) by (simp_all add: stored_def contents_def)
  show rest: "well_ordered Q (fb\<lparr>fb_data := rest\<rparr>)"
    using remove(3,4) assms(1) by (auto simp: well_ordered_def contents_def)
  show "well_ordered Q (fb\<lparr>fb_data := rest, read_marker := seq_next Q (read_marker fb)\<rparr>)"
    by (rule well_ordered_next[OF rest]) (use remove(4) in \<open>auto simp: contents_def\<close>)
qed

lemma pop_front_Some:
  assumes "well_ordered Q fb" "stored fb (read_marker fb) = Some p"
  obtains fb' where "pop_front Q fb = (Some p, fb')" "stored fb' = (stored fb)(read_marker fb := None)"
    "read_marker fb' = seq_next Q (read_marker fb)" "well_ordered Q fb'"
proof -
  obtain res rest where r: "btree_remove (seq_lt Q) (read_marker fb) (fb_data fb) = (res, rest)" by fastforce
  note remove = remove_ordered[OF assms(1) r]
  show ?thesis
    by (rule that[of "fb\<lparr>fb_data := rest, read_marker := seq_next Q (read_marker fb)\<rparr>"])
      (use r remove assms(2) in \<open>simp_all add: pop_front_def stored_def contents_def\<close>)
qed

end

section \<open>The sample source\<close>

record 's source =
  channels :: u16
  sample_rate :: u32
  current :: "'s list option"

definition source_new :: "u16 \<Rightarrow> u32 \<Rightarrow> 's source outcome" where
  "source_new chans rate =
     (if chans = 0 then Panic
      else if rate = 0 then Panic
      else Ok \<lparr>channels = chans, sample_rate = rate, current = None\<rparr>)"

text \<open>The block that appears twice in \<open>next\<close>: take the current packet and, if it has samples
  left, its first one; an exhausted packet is dropped.\<close>

definition take_sample :: "'s list option \<Rightarrow> 's option \<times> 's list option" where
  "take_sample cur =
     (case cur of
        Some xs \<Rightarrow> (if 0 < length xs then (Some (hd xs), Some (tl xs)) else (None, None))
      | None \<Rightarrow> (None, None))"

definition source_next ::
  "('b \<Rightarrow> 's list option \<times> 'b) \<Rightarrow> 's \<Rightarrow> 's source \<Rightarrow> 'b \<Rightarrow> 's option \<times> 's source \<times> 'b" where
  "source_next pop zero_value src buf =
     (case take_sample (current src) of
        (Some val, cur) \<Rightarrow> (Some val, src\<lparr>current := cur\<rparr>, buf)
      | (None, _) \<Rightarrow>
          (let (data, buf') = pop buf
           in case take_sample data of
                (Some val, cur) \<Rightarrow> (Some val, src\<lparr>current := cur\<rparr>, buf')
              | (None, cur) \<Rightarrow> (Some zero_value, src\<lparr>current := cur\<rparr>, buf')))"

text \<open>What \<open>rodio\<close> asks a source besides its samples; \<open>None\<close> stands for an endless frame and an endless source.\<close>

definition current_frame_len :: "'s source \<Rightarrow> nat option" where
  "current_frame_len src = None"

definition source_channels :: "'s source \<Rightarrow> u16" where
  "source_channels src = channels src"

definition source_sample_rate :: "'s source \<Rightarrow> u32" where
  "source_sample_rate src = sample_rate src"

definition total_duration :: "'s source \<Rightarrow> nat option" where
  "total_duration src = None"

definition size_hint :: "'s source \<Rightarrow> nat \<times> nat option" where
  "size_hint src = (0, None)"

text \<open>An endless frame promises that the format never changes.\<close>

lemma source_format_constant:
  "source_next pop z src buf = (v, src', buf') \<Longrightarrow>
   source_channels src' = source_channels src \<and> source_sample_rate src' = source_sample_rate src"
  by (auto simp: source_next_def source_channels_def source_sample_rate_def Let_def split: prod.splits option.splits)

text \<open>What the audio thread sees when it asks for \<open>n\<close> samples.\<close>

fun source_play ::
  "('b \<Rightarrow> 's list option \<times> 'b) \<Rightarrow> 's \<Rightarrow> nat \<Rightarrow> 's source \<Rightarrow> 'b \<Rightarrow> 's option list" where
  "source_play pop z 0 src buf = []"
| "source_play pop z (Suc n) src buf =
     (case source_next pop z src buf of (v, src', buf') \<Rightarrow> v # source_play pop z n src' buf')"

lemma take_sample_simps [simp]:
  "take_sample None = (None, None)" "take_sample (Some []) = (None, None)"
  "take_sample (Some (x # xs)) = (Some x, Some xs)"
  by (simp_all add: take_sample_def)

section \<open>Playing a queue of packets\<close>

text \<open>An empty packet costs one sample of silence.\<close>

definition voiced :: "'s \<Rightarrow> 's list \<Rightarrow> 's list" where
  "voiced z p = (if p = [] then [z] else p)"

definition stream_of :: "'s \<Rightarrow> 's list option \<Rightarrow> 's list list \<Rightarrow> 's list" where
  "stream_of z cur ps = (case cur of None \<Rightarrow> [] | Some xs \<Rightarrow> xs) @ concat (map (voiced z) ps)"

locale packet_queue =
  fixes pop :: "'b \<Rightarrow> 's list option \<times> 'b"
    and pending :: "'b \<Rightarrow> 's list list"
  assumes pop_empty: "pending b = [] \<Longrightarrow> pop b = (None, b)"
    and pop_packet: "pending b = p # ps \<Longrightarrow> \<exists>b'. pop b = (Some p, b') \<and> pending b' = ps"
begin

lemma next_from_current:
  "current src = Some (x # xs) \<Longrightarrow> source_next pop z src b = (Some x, src\<lparr>current := Some xs\<rparr>, b)"
  by (simp add: source_next_def)

lemma next_silent:
  assumes "current src = None \<or> current src = Some []" "pending b = []"
  shows "source_next pop z src b = (Some z, src\<lparr>current := None\<rparr>, b)"
  using assms pop_empty[of b] by (auto simp: source_next_def)

lemma next_from_packet:
  assumes "current src = None \<or> current src = Some []" "pending b = p # ps"
  shows "\<exists>b'. pending b' = ps \<and> source_next pop z src b =
           (Some (hd (voiced z p)), src\<lparr>current := if p = [] then None else Some (tl p)\<rparr>, b')"
  using assms pop_packet[OF assms(2)] by (cases p) (auto simp: source_next_def voiced_def)

lemma next_never_ends: "\<exists>v src' b'. source_next pop z src b = (Some v, src', b')"
  by (auto simp: source_next_def split: prod.splits option.splits)

lemma take_pad: "take n (xs @ replicate (Suc n) z) = take n (xs @ replicate n z)"
  by (simp add: take_append del: replicate_Suc)

lemma play_stream:
  "source_play pop z n src b =
     map Some (take n (stream_of z (current src) (pending b) @ replicate n z))"
proof (induction n arbitrary: src b)
  case 0
  then show ?case by simp
next
  case (Suc n)
  show ?case
  proof (cases "\<exists>x xs. current src = Some (x # xs)")
    case True
    then obtain x xs where "current src = Some (x # xs)" by blast
    then show ?thesis
      using take_pad[of n "xs @ concat (map (voiced z) (pending b))" z]
      by (simp add: next_from_current Suc.IH stream_of_def)
  next
    case False
    then have cur: "current src = None \<or> current src = Some []"
      by (metis list.exhaust option.exhaust)
    then have nil: "(case current src of None \<Rightarrow> [] | Some xs \<Rightarrow> xs) = []" by auto
    show ?thesis
    proof (cases "pending b")
      case Nil
      then show ?thesis by (simp add: next_silent[OF cur Nil] Suc.IH stream_of_def nil)
    next
      case (Cons p ps)
      from next_from_packet[OF cur Cons, of z] obtain b' where b': "pending b' = ps"
        and nx: "source_next pop z src b =
          (Some (hd (voiced z p)), src\<lparr>current := if p = [] then None else Some (tl p)\<rparr>, b')"
        by blast
      let ?rest = "tl (voiced z p) @ concat (map (voiced z) ps)"
      have "stream_of z (current src) (pending b) = hd (voiced z p) # ?rest"
        by (cases p) (simp_all add: stream_of_def nil Cons voiced_def)
      moreover have "stream_of z (if p = [] then None else Some (tl p)) ps = ?rest"
        by (simp add: stream_of_def voiced_def)
      ultimately show ?thesis
        using take_pad[of n ?rest z] by (simp add: nx b' Suc.IH)
    qed
  qed
qed

end

section \<open>The frame buffer as a packet queue\<close>

text \<open>The packets that \<open>pop_front\<close> hands out until it has none; every one of them leaves the buffer, so that as many
  steps as it has packets suffice.\<close>

fun drained :: "'q seq_ops \<Rightarrow> nat \<Rightarrow> ('q, 's) frame_buffer \<Rightarrow> 's list list" where
  "drained Q 0 fb = []"
| "drained Q (Suc n) fb =
     (case pop_front Q fb of (None, _) \<Rightarrow> [] | (Some p, fb') \<Rightarrow> p # drained Q n fb')"

definition pending :: "'q seq_ops \<Rightarrow> ('q, 's) frame_buffer \<Rightarrow> 's list list" where
  "pending Q fb = drained Q (length (contents fb)) fb"

lemma pending_unfold:
  "pending Q fb = (case pop_front Q fb of (None, _) \<Rightarrow> [] | (Some p, fb') \<Rightarrow> p # pending Q fb')"
proof (cases "pop_front Q fb")
  case (Pair res fb')
  show ?thesis
  proof (cases res)
    case None
    then show ?thesis using Pair by (cases "length (contents fb)") (simp_all add: pending_def)
  next
    case (Some p)
    then obtain xs ys where "contents fb = xs @ (read_marker fb, p) # ys" "contents fb' = xs @ ys"
      using Pair pop_front_hit(1) by blast
    then have "length (contents fb) = Suc (length (contents fb'))" by simp
    then show ?thesis using Pair Some by (simp add: pending_def)
  qed
qed

lemma pending_empty: "pending Q fb = [] \<Longrightarrow> pop_front Q fb = (None, fb)"
  using pop_front_miss[of Q fb] by (auto simp: pending_unfold[of Q fb] split: prod.splits option.splits)

lemma pending_packet: "pending Q fb = p # ps \<Longrightarrow> \<exists>fb'. pop_front Q fb = (Some p, fb') \<and> pending Q fb' = ps"
  by (auto simp: pending_unfold[of Q fb] split: prod.splits option.splits)

lemma pending_silent: "stored fb (read_marker fb) = None \<Longrightarrow> pending Q fb = []"
  by (subst pending_unfold) (simp add: pop_front_None)

interpretation frames: packet_queue "pop_front Q" "pending Q" for Q :: "'q seq_ops"
  by unfold_locales (auto simp: pending_empty pending_packet)

lemma play_frames:
  "source_play (pop_front Q) z n src fb =
     map Some (take n (stream_of z (current src) (pending Q fb) @ replicate n z))"
  by (rule frames.play_stream)

context seq_api
begin

lemma pending_consecutive:
  assumes "well_ordered Q fb"
    and "\<And>i. i < n \<Longrightarrow> stored fb (seq_plus Q (read_marker fb) i) = Some (f i)"
    and "stored fb (seq_plus Q (read_marker fb) n) = None" and "n < 65536"
  shows "pending Q fb = map f [0..<n]"
  using assms
proof (induction n arbitrary: fb f)
  case 0
  then show ?case by (simp add: pending_silent)
next
  case (Suc n)
  let ?rm = "read_marker fb"
  have "stored fb ?rm = Some (f 0)" using Suc.prems(2)[of 0] by simp
  then obtain fb' where fb': "pop_front Q fb = (Some (f 0), fb')" "stored fb' = (stored fb)(?rm := None)"
    "read_marker fb' = seq_next Q ?rm" "well_ordered Q fb'" by (rule pop_front_Some[OF Suc.prems(1)])
  have neq: "seq_plus Q (seq_next Q ?rm) i \<noteq> ?rm" if "i \<le> n" for i
    using plus_eq_iff[of "Suc i" 0 ?rm] that Suc.prems(4) by (simp add: plus_Suc)
  have "pending Q fb' = map (\<lambda>i. f (Suc i)) [0..<n]"
    by (rule Suc.IH) (use Suc.prems fb' neq in \<open>auto simp: plus_Suc[symmetric]\<close>)
  moreover have "map f [0..<Suc n] = f 0 # map (\<lambda>i. f (Suc i)) [0..<n]"
    by (simp only: upt_conv_Cons[OF zero_less_Suc] list.map map_Suc_upt[symmetric] map_map comp_def)
  ultimately show ?case by (subst pending_unfold) (simp add: fb'(1))
qed

text \<open>\<open>flush\<close> comes to its end from every state, and on an ordered buffer it removes what it passes.\<close>

lemma flush_steps:
  "\<exists>d. flush_fb Q fb seq = Some (fb\<lparr>fb_data := d, read_marker := seq\<rparr>) \<and>
     (well_ordered Q fb \<longrightarrow>
        map_of (entries d) = (\<lambda>k. if seq_dist Q (read_marker fb) k < seq_dist Q (read_marker fb) seq
                                  then None else stored fb k) \<and>
        well_ordered Q (fb\<lparr>fb_data := d, read_marker := seq\<rparr>))"
proof (induction "seq_dist Q (read_marker fb) seq" arbitrary: fb)
  case 0
  then show ?case
    by (intro exI[of _ "fb_data fb"]) (simp add: flush_fb.simps stored_def contents_def well_ordered_def)
next
  case (Suc n)
  let ?rm = "read_marker fb"
  obtain res rest where r: "btree_remove (seq_lt Q) ?rm (fb_data fb) = (res, rest)" by fastforce
  let ?fb = "fb\<lparr>fb_data := rest, read_marker := seq_next Q ?rm\<rparr>"
  from Suc.hyps(2) have neq: "?rm \<noteq> seq" by auto
  then have n: "n = seq_dist Q (read_marker ?fb) seq" using Suc.hyps(2) by (simp add: dist_next)
  have upd: "(\<lambda>k. if seq_dist Q (seq_next Q ?rm) k < seq_dist Q (seq_next Q ?rm) seq then None
      else ((stored fb)(?rm := None)) k) =
     (\<lambda>k. if seq_dist Q ?rm k < seq_dist Q ?rm seq then None else stored fb k)"
  proof
    fix k
    show "(if seq_dist Q (seq_next Q ?rm) k < seq_dist Q (seq_next Q ?rm) seq then None
        else ((stored fb)(?rm := None)) k) =
      (if seq_dist Q ?rm k < seq_dist Q ?rm seq then None else stored fb k)"
      using neq Suc.hyps(2) by (cases "k = ?rm") (auto simp: dist_next_key)
  qed
  have ord: "stored ?fb = (stored fb)(?rm := None) \<and> well_ordered Q ?fb" if "well_ordered Q fb"
    using remove_ordered[OF that r] by (simp add: stored_def contents_def)
  have "flush_fb Q fb seq = flush_fb Q ?fb seq" using neq r by (subst flush_fb.simps) simp
  moreover obtain d where d: "flush_fb Q ?fb seq = Some (?fb\<lparr>fb_data := d, read_marker := seq\<rparr>)"
    "well_ordered Q ?fb \<longrightarrow>
        map_of (entries d) = (\<lambda>k. if seq_dist Q (read_marker ?fb) k < seq_dist Q (read_marker ?fb) seq
                                  then None else stored ?fb k) \<and>
        well_ordered Q (?fb\<lparr>fb_data := d, read_marker := seq\<rparr>)" using Suc.hyps(1)[OF n] by blast
  moreover have "map_of (entries d) = (\<lambda>k. if seq_dist Q ?rm k < seq_dist Q ?rm seq then None else stored fb k) \<and>
      well_ordered Q (fb\<lparr>fb_data := d, read_marker := seq\<rparr>)" if "well_ordered Q fb"
    using d(2) ord[OF that] upd by (simp cong: if_cong)
  ultimately show ?case by (intro exI[of _ d]) simp
qed

lemma distinct_window: "n < 65536 \<Longrightarrow> distinct (map (seq_plus Q s) [0..<n])"
  by (auto simp: distinct_map inj_on_def plus_eq_iff)

lemma add_packets_ordered:
  assumes "well_ordered Q fb" "\<forall>k \<in> keys ps. seq_dist Q (read_marker fb) k < 2 ^ 15"
  shows "stored (add_packets Q fb ps) = stored fb ++ map_of (rev ps) \<and> well_ordered Q (add_packets Q fb ps)"
  using assms
proof (induction ps arbitrary: fb)
  case Nil
  then show ?case by simp
next
  case (Cons x ps)
  obtain s p where x: "x = (s, p)" by (cases x)
  then have s: "seq_dist Q (read_marker fb) s < 2 ^ 15" using Cons.prems(2) by simp
  note add = add_packet_ordered[OF Cons.prems(1) s, of p]
  have "stored (add_packets Q fb (x # ps)) = (stored fb)(s \<mapsto> p) ++ map_of (rev ps) \<and>
      well_ordered Q (add_packets Q fb (x # ps))"
    using Cons.IH[OF add(2)] Cons.prems(2) x by (simp add: add(1) fun_upd_def)
  then show ?case using x by (auto simp: map_add_def fun_eq_iff split: option.splits)
qed

lemma pending_arrivals:
  assumes "set arrivals = set (zip (map (seq_plus Q s) [0..<length ps]) ps)"
    and len: "length ps \<le> 2 ^ 15"
  shows "pending Q (add_packets Q (frame_buffer_new s) arrivals) = ps"
proof -
  let ?keys = "map (seq_plus Q s) [0..<length ps]" and ?fb = "add_packets Q (frame_buffer_new s) arrivals"
  have distinct: "distinct ?keys" using distinct_window len by simp
  have "keys arrivals \<subseteq> set ?keys" using assms(1) by (auto dest: set_zip_leftD)
  then have "\<forall>k \<in> keys arrivals. seq_dist Q s k < 2 ^ 15" using len dist_plus by fastforce
  then have fb: "stored ?fb = map_of (rev arrivals)" "well_ordered Q ?fb"
    using add_packets_ordered[of "frame_buffer_new s :: ('q, 'a) frame_buffer" arrivals] by simp_all
  have st: "stored ?fb = map_of (zip ?keys ps)"
    unfolding fb(1) using assms(1) distinct by (intro map_of_same_set) simp_all
  have "pending Q ?fb = map (nth ps) [0..<length ps]"
  proof (rule pending_consecutive[OF fb(2)])
    show "stored ?fb (seq_plus Q (read_marker ?fb) i) = Some (ps ! i)" if "i < length ps" for i
      using map_of_zip_nth[of ?keys ps i] distinct that by (simp add: st)
    have "seq_plus Q s i \<noteq> seq_plus Q s (length ps)" if "i < length ps" for i
      using that len plus_eq_iff[of i "length ps" s] by simp
    then have "seq_plus Q s (length ps) \<notin> set ?keys" by (metis (no_types, lifting)
      atLeastLessThan_iff imageE list.set_map set_upt)
    then show "stored ?fb (seq_plus Q (read_marker ?fb) (length ps)) = None"
      by (simp only: st add_packets_read_marker frame_buffer_new_simps map_of_zip_is_None length_map length_upt
          diff_zero simp_thms)
  qed (use len in auto)
  then show ?thesis by (simp add: map_nth)
qed

lemma lt_irrefl: "\<not> seq_lt Q a a"
  by (simp add: lt_far)

lemma range_empty_near: "seq_dist Q (fst r) (snd r) < 2 ^ 15 \<Longrightarrow> range_is_empty Q r \<longleftrightarrow> fst r = snd r"
  by (metis dist_0 gr0I lt_irrefl lt_near range_is_empty_def)

lemma range_empty_behind:
  assumes "seq_dist Q w s = 0 \<or> 2 ^ 15 + 1 < seq_dist Q w s"
  shows "\<not> seq_lt Q (seq_next Q w) s"
proof (cases "w = s")
  case True
  then have "seq_dist Q (seq_next Q w) s = 65535"
    by (simp add: seq_dist_def to_next unat_minus_one_u16)
  then show ?thesis by (intro lt_far) simp
next
  case False
  then show ?thesis using assms dist_next[OF False] by (intro lt_far) auto
qed

lemma iter_window:
  assumes "1 \<le> seq_dist Q w s" "seq_dist Q w s \<le> 2 ^ 15"
  shows "seq_iter Q (seq_next Q w) s = map (seq_plus Q w) [1..<seq_dist Q w s]"
proof -
  have "w \<noteq> s" using assms(1) by auto
  then have "seq_iter Q (seq_next Q w) s =
      map (seq_plus Q (seq_next Q w)) [0..<seq_dist Q w s - 1]"
    using assms iter_eq[of "seq_next Q w" s] by (simp add: dist_next)
  also have "\<dots> = map (seq_plus Q w) (map Suc [0..<seq_dist Q w s - 1])"
    by (simp add: plus_Suc del: map_Suc_upt)
  also have "map Suc [0..<seq_dist Q w s - 1] = [1..<seq_dist Q w s]"
    using assms(1) by (simp add: map_Suc_upt)
  finally show ?thesis .
qed

lemma missing_range:
  "1 \<le> seq_dist Q w s \<Longrightarrow> seq_dist Q (seq_next Q w) s = seq_dist Q w s - 1"
  by (rule dist_next) auto

end

section \<open>Properties of the buffer\<close>

text \<open>C13. Playback is independent of the order of arrival: when the packets \<open>s, s+1, ..., s+n-1\<close>
  (at most 32768, half the number space, which wraps) arrive in any order, each at least once, after RECORD started
  the buffer at \<open>s\<close>, the source yields their samples in sequence order and silence afterwards; an
  empty packet contributes one silent sample.\<close>

theorem reordered_packets_play_in_order:
  assumes "seq_api Q"
    and "set arrivals = set (zip (map (seq_plus Q s) [0..<length packets]) packets)"
    and "length packets \<le> 2 ^ 15" and "current src = None"
  shows "source_play (pop_front Q) z n src (add_packets Q (frame_buffer_new s) arrivals) =
         map Some (take n (concat (map (voiced z) packets) @ replicate n z))"
  by (simp only: play_frames seq_api.pending_arrivals [OF assms(1-3)]
        assms(4) stream_of_def option.case append_Nil)

theorem reordered_packets_play_in_order_witness:
  "source_play (pop_front word_seq) (0 :: i16) 6 \<lparr>channels = 2, sample_rate = 44100, current = None\<rparr>
     (add_packets word_seq (frame_buffer_new 65535) [(1, [5]), (65535, [1, 2]), (1, [5]), (0, [])]) =
   map Some [1, 2, 0, 5, 0, 0]"
proof -
  have "source_play (pop_front word_seq) (0 :: i16) 6 \<lparr>channels = 2, sample_rate = 44100, current = None\<rparr>
     (add_packets word_seq (frame_buffer_new 65535) [(1, [5]), (65535, [1, 2]), (1, [5]), (0, [])]) =
    map Some (take 6 (concat (map (voiced 0) [[1, 2], [], [5]]) @ replicate 6 0))"
    by (rule reordered_packets_play_in_order)
       (auto simp: word_seq.seq_api_axioms codec_simps upt_rec)
  then show ?thesis by (simp add: voiced_def numeral_eq_Suc)
qed



text \<open>C19. The range that \<open>add_packet\<close> returns is the gap before the new packet: for a packet
  \<open>d\<close> numbers ahead of the write marker (half the number space at most) it iterates over exactly
  the \<open>d - 1\<close> numbers in between, so it is empty only for the next packet in line; for a
  duplicate or a packet from behind it is empty.\<close>

theorem add_packet_reports_gap:
  assumes "seq_api Q" and "d = seq_dist Q (write_marker fb) seq"
    and "r = snd (add_packet Q fb seq packet)"
  shows "(1 \<le> d \<and> d \<le> 2 ^ 15 \<longrightarrow>
            seq_iter Q (fst r) (snd r) = map (seq_plus Q (write_marker fb)) [1..<d] \<and>
            (range_is_empty Q r \<longleftrightarrow> d = 1)) \<and>
         (d = 0 \<or> 2 ^ 15 + 1 < d \<longrightarrow> range_is_empty Q r)"
proof (intro conjI impI)
  have r: "fst r = seq_next Q (write_marker fb)" "snd r = seq" using assms(3) by simp_all
  {
    assume d: "1 \<le> d \<and> d \<le> 2 ^ 15"
    then have dist: "seq_dist Q (fst r) (snd r) = d - 1"
      using seq_api.missing_range [OF assms(1), of "write_marker fb" seq] assms(2) r by simp
    show "seq_iter Q (fst r) (snd r) = map (seq_plus Q (write_marker fb)) [1..<d]"
      using seq_api.iter_window [OF assms(1), of "write_marker fb" seq] d assms(2) r by simp
    have "seq_dist Q (fst r) (snd r) < 2 ^ 15" using dist d by auto
    then show "range_is_empty Q r \<longleftrightarrow> d = 1"
      using seq_api.range_empty_near [OF assms(1), of r] dist d
        seq_api.dist_0 [OF assms(1), of "fst r" "snd r"] by auto
  next
    assume "d = 0 \<or> 2 ^ 15 + 1 < d"
    then show "range_is_empty Q r"
      using seq_api.range_empty_behind [OF assms(1), of "write_marker fb" seq] assms(2) r
      by (simp add: range_is_empty_def)
  }
qed

theorem add_packet_reports_gap_witness:
  "seq_iter word_seq 65535 2 = [65535, 0, 1] \<and>
   \<not> range_is_empty word_seq (snd (add_packet word_seq (frame_buffer_new 65534) 2 ''p''))"
proof -
  have d: "4 = seq_dist word_seq (write_marker (frame_buffer_new 65534)) 2"
    by (simp add: seq_dist_def)
  show ?thesis
    using add_packet_reports_gap [OF word_seq.seq_api_axioms d refl, of "''p''"]
    by (simp add: codec_simps upt_rec)
qed

text \<open>A gap at the read marker stalls playback: however many later packets are buffered, the
  source stays silent until the missing packet itself is added, and then plays it.\<close>

lemma gap_stalls_playback:
  assumes "seq_api Q" and "stored fb (read_marker fb) = None" and "current src = None"
  shows "source_play (pop_front Q) z n src fb = replicate n (Some z)"
    and "well_ordered Q fb \<Longrightarrow> take (length (voiced z packet))
       (source_play (pop_front Q) z (length (voiced z packet) + n) src
         (fst (add_packet Q fb (read_marker fb) packet))) = map Some (voiced z packet)"
proof -
  show "source_play (pop_front Q) z n src fb = replicate n (Some z)"
    by (simp add: play_frames stream_of_def pending_silent [OF assms(2)] assms(3))
  assume ord: "well_ordered Q fb"
  let ?fb = "fst (add_packet Q fb (read_marker fb) packet)"
  have "seq_dist Q (read_marker fb) (read_marker fb) < 2 ^ 15"
    using seq_api.dist_self [OF assms(1)] by simp
  note add = seq_api.add_packet_ordered [OF assms(1) ord this, of packet]
  have "stored ?fb (read_marker ?fb) = Some packet" by (simp add: add(1))
  then obtain fb' where "pop_front Q ?fb = (Some packet, fb')"
    by (rule seq_api.pop_front_Some [OF assms(1) add(2)])
  then have "pending Q ?fb = packet # pending Q fb'" by (simp add: pending_unfold [of Q ?fb])
  then show "take (length (voiced z packet)) (source_play (pop_front Q) z (length (voiced z packet) + n) src ?fb) =
      map Some (voiced z packet)"
    by (simp add: play_frames stream_of_def assms(3) take_map)
qed

text \<open>C38. The loss of the very first packet is never reported: RECORD sets both markers to its
  number \<open>s\<close>, so when \<open>s + 1\<close> arrives first the range of missing numbers is empty although \<open>s\<close>
  was never received, and playback is silent for good.\<close>

theorem first_packet_loss_unreported:
  assumes "seq_api Q" and "current src = None"
    and "(fb, r) = add_packet Q (frame_buffer_new s) (seq_next Q s) packet"
  shows "range_is_empty Q r \<and> stored fb s = None \<and> read_marker fb = s \<and>
         source_play (pop_front Q) z n src fb = replicate n (Some z)"
proof -
  have fb: "fb = fst (add_packet Q (frame_buffer_new s) (seq_next Q s) packet)"
    and r: "r = (seq_next Q s, seq_next Q s)" using assms(3) by (simp_all add: prod_eq_iff)
  have none: "stored fb s = None" "read_marker fb = s"
    using seq_api.next_neq [OF assms(1), of s] by (simp_all add: fb stored_None add_packet_keys)
  then have "pending Q fb = []" by (simp add: pending_silent)
  then show ?thesis
    using none seq_api.lt_irrefl [OF assms(1)]
    by (simp add: r range_is_empty_def play_frames stream_of_def assms(2))
qed

theorem first_packet_loss_unreported_witness:
  "range_is_empty word_seq (snd (add_packet word_seq (frame_buffer_new 65535) 0 [1 :: i16]))"
  using first_packet_loss_unreported [OF word_seq.seq_api_axioms,
      of "\<lparr>channels = 2, sample_rate = 44100, current = None\<rparr>" _ _ 65535 "[1 :: i16]"]
  by (simp add: prod_eq_iff)

text \<open>C39. A retransmitted packet moves the write marker backwards: after \<open>s + 1\<close> was missed, \<open>s + 2\<close>
  received and \<open>s + 1\<close> retransmitted, the arrival of \<open>s + 3\<close> reports \<open>s + 2\<close> as missing although
  it is in the buffer.\<close>

theorem retransmission_rewinds_write_marker:
  assumes "seq_api Q" and "write_marker fb = s"
    and "fb' = add_packets Q fb [(seq_plus Q s 2, p2), (seq_plus Q s 1, p1)]"
    and "r = snd (add_packet Q fb' (seq_plus Q s 3) p3)"
  shows "seq_iter Q (fst r) (snd r) = [seq_plus Q s 2] \<and>
     (seq_plus Q s 2, p2) \<in> set (contents fb')"
proof -
  have r: "r = (seq_plus Q s 2, seq_plus Q s 3)"
    using assms(4) by (simp add: assms(3) codec_simps)
  have dist: "seq_dist Q (seq_plus Q s 2) (seq_plus Q s 3) = 1"
    by (simp add: seq_dist_def seq_api.to_plus [OF assms(1)])
  have "seq_plus Q s 1 \<noteq> seq_plus Q s 2" by (simp add: seq_api.plus_eq_iff [OF assms(1)])
  then have "(seq_plus Q s 2, p2) \<in> set (contents fb')"
    by (simp add: assms(3) add_packet_keeps add_packet_mem)
  then show ?thesis
    using dist by (simp add: r assms(3) seq_api.iter_eq [OF assms(1)] seq_api.plus_0 [OF assms(1)])
qed

theorem retransmission_rewinds_write_marker_witness:
  "snd (add_packet word_seq (add_packets word_seq (frame_buffer_new 7) [(9, ''b''), (8, ''a'')]) 10 ''c'')
     = (9, 10) \<and> seq_iter word_seq 9 10 = [9]"
  using retransmission_rewinds_write_marker [OF word_seq.seq_api_axioms refl refl refl,
      of "frame_buffer_new 7" "''b''" "''a''" "''c''"]
  by (simp add: codec_simps)

end
