(* ===== verification/Shutdown.thy ===== *)
theory Shutdown
  imports Prelude
begin

text \<open>
  The shutdown flag that every long-running task carries: \<open>Shutdown\<close> of src/src/shutdown.rs.
  The broadcast receiver belongs to tokio; what the code needs of it is whether its \<open>recv\<close>
  completes (a value was sent, or every sender is gone), which is the argument \<open>ready\<close>.
\<close>

record shutdown_state =
  shutdown :: bool

definition shutdown_new :: "shutdown_state" where
  "shutdown_new = \<lparr>shutdown = False\<rparr>"

definition is_shutdown :: "shutdown_state \<Rightarrow> bool" where
  "is_shutdown sd = shutdown sd"

text \<open>\<open>None\<close>: the caller is still waiting.\<close>

definition shutdown_recv :: "bool \<Rightarrow> shutdown_state \<Rightarrow> shutdown_state option" where
  "shutdown_recv ready sd =
     (if shutdown sd then Some sd
      else if ready then Some (sd\<lparr>shutdown := True\<rparr>)
      else None)"

lemma not_shutdown_new [simp]: "\<not> is_shutdown shutdown_new"
  by (simp add: is_shutdown_def shutdown_new_def)

lemma shutdown_recv_completes: "shutdown_recv ready sd = Some sd' \<Longrightarrow> is_shutdown sd'"
  by (auto simp: shutdown_recv_def is_shutdown_def split: if_splits)

lemma shutdown_recv_waits: "shutdown_recv ready sd = None \<longleftrightarrow> \<not> ready \<and> \<not> is_shutdown sd"
  by (simp add: shutdown_recv_def is_shutdown_def)

fun shutdown_recvs :: "bool list \<Rightarrow> shutdown_state \<Rightarrow> shutdown_state option" where
  "shutdown_recvs [] sd = Some sd"
| "shutdown_recvs (r # rs) sd = Option.bind (shutdown_recv r sd) (shutdown_recvs rs)"

lemma shutdown_recvs_latched: "is_shutdown sd \<Longrightarrow> shutdown_recvs rs sd = Some sd"
  by (induction rs) (simp_all add: shutdown_recv_def is_shutdown_def)

text \<open>The shutdown notice latches: a fresh receiver waits until the channel is ready, and
  once one wait has completed the flag is set and every later wait completes at once, without
  asking the channel again.\<close>

theorem shutdown_latches:
  "shutdown_recv False shutdown_new = None \<and>
   (\<forall>rs sd. shutdown_recv True sd \<noteq> None \<and>
      shutdown_recvs (True # rs) sd = Some (sd\<lparr>shutdown := True\<rparr>))"
proof (intro conjI allI)
  show "shutdown_recv False shutdown_new = None" by (simp add: shutdown_recv_waits)
  fix rs sd
  show "shutdown_recv True sd \<noteq> None" by (simp add: shutdown_recv_waits)
  have "shutdown_recv True sd = Some (sd\<lparr>shutdown := True\<rparr>)"
    by (cases sd) (simp add: shutdown_recv_def)
  moreover have "is_shutdown (sd\<lparr>shutdown := True\<rparr>)" by (simp add: is_shutdown_def)
  ultimately show "shutdown_recvs (True # rs) sd = Some (sd\<lparr>shutdown := True\<rparr>)"
    by (simp add: shutdown_recvs_latched)
qed

end
