(* ===== verification/Net_Tasks.thy ===== *)
theory Net_Tasks
  imports Frame_Buffer Shutdown
begin

text \<open>
  The five UDP tasks of a session: src/src/player/server_receiver.rs, control_receiver.rs,
  control_sender.rs, timing_receiver.rs, timing_sender.rs and the time stamp of ntp.rs. Each is
  a loop body over the events that can win its \<open>select!\<close>; what it emits are commands to the
  player, datagrams to the peer and the decoded values it traces. The RTP reader (crate
  \<open>rtp-rs\<close>) is a parameter with the interface \<open>rtp_reader\<close>.
\<close>

section \<open>The RTP reader\<close>

record 'q rtp_view =
  payload_type :: u8
  sequence_number :: 'q
  payload :: bytes

locale rtp_reader =
  fixes rtp_new :: "bytes \<Rightarrow> 'q rtp_view option"
  assumes min_header: "rtp_new b = Some v \<Longrightarrow> 12 \<le> length b"

text \<open>An executable instance: version 2, no extension, no padding.\<close>

definition rtp_decode :: "bytes \<Rightarrow> u16 rtp_view option" where
  "rtp_decode b =
     (if length b < 12 \<or> b ! 0 AND 0xF0 \<noteq> 0x80 then None
      else (let off = 12 + 4 * unat (b ! 0 AND 0x0F)
            in if length b < off then None
               else Some \<lparr>payload_type = b ! 1 AND 0x7F,
                          sequence_number = u16_of_bytes (b ! 2) (b ! 3),
                          payload = drop off b\<rparr>))"

interpretation rtp_decode: rtp_reader rtp_decode
  by unfold_locales (auto simp: rtp_decode_def split: if_splits)

section \<open>Time stamps\<close>

record time =
  sec :: u32
  frac :: u32

definition u32_at :: "bytes \<Rightarrow> nat \<Rightarrow> u32 outcome" where
  "u32_at buf i = and_then (slice buf i (i + 4)) u32_from_be_bytes"

definition time_at :: "bytes \<Rightarrow> nat \<Rightarrow> time outcome" where
  "time_at buf i = and_then (u32_at buf i) (\<lambda>s. and_then (u32_at buf (i + 4)) (\<lambda>f.
     Ok \<lparr>sec = s, frac = f\<rparr>))"

definition time_to_bytes :: "time \<Rightarrow> bytes" where
  "time_to_bytes t = u32_to_be_bytes (sec t) @ u32_to_be_bytes (frac t)"

lemma u32_at_append: "length a = i \<Longrightarrow> u32_at (a @ u32_to_be_bytes x @ b) i = Ok x"
  by (simp add: u32_at_def slice_def codec_simps)

lemma time_at_append: "length a = i \<Longrightarrow> time_at (a @ time_to_bytes t @ b) i = Ok t"
  using u32_at_append[of a i "sec t" "u32_to_be_bytes (frac t) @ b"]
    u32_at_append[of "a @ u32_to_be_bytes (sec t)" "i + 4" "frac t" b]
  by (simp add: time_at_def time_to_bytes_def)

lemma length_time_to_bytes [simp]: "length (time_to_bytes t) = 8"
  by (simp add: time_to_bytes_def)

section \<open>What the tasks share\<close>

datatype 'q net_effect =
    ToPlayer 'q bytes \<comment> \<open>\<open>Command::PutPacket\<close>\<close>
  | ToPeer bytes
  | SyncTrace 'q time u32
  | TimingTrace 'q time time time

text \<open>\<open>Received d ok\<close>: a datagram arrived; \<open>ok\<close> says whether the player still takes commands.\<close>

datatype recv_event = Received bytes bool | RecvFailed | StopReceiver

record receiver =
  rx_buf :: bytes
  rx_shutdown :: shutdown_state

definition receiver_new :: "nat \<Rightarrow> receiver" where
  "receiver_new n = \<lparr>rx_buf = replicate n 0, rx_shutdown = shutdown_new\<rparr>"

datatype selected = Exit "unit outcome" | Got receiver nat

text \<open>The \<open>select!\<close> at the head of the three receivers.\<close>

definition recv_select :: "receiver \<Rightarrow> recv_event \<Rightarrow> selected" where
  "recv_select st ev =
     (case ev of
        Received dgram _ \<Rightarrow>
          (let (buf, len) = recv_into (rx_buf st) dgram
           in if len = 0 then Exit (Ok ()) else Got (st\<lparr>rx_buf := buf\<rparr>) len)
      | RecvFailed \<Rightarrow> Exit (Err IoError)
      | StopReceiver \<Rightarrow> Exit (Ok ()))"

definition player_accepts :: "recv_event \<Rightarrow> bool" where
  "player_accepts ev = (case ev of Received _ ok \<Rightarrow> ok | _ \<Rightarrow> False)"

definition put_packet ::
  "recv_event \<Rightarrow> receiver \<Rightarrow> 'q \<Rightarrow> bytes \<Rightarrow> (receiver, 'q net_effect) step" where
  "put_packet ev st s packet =
     (if player_accepts ev then Continue st [ToPlayer s packet] else Return (Err SendError) [])"

definition continue_with :: "'s \<Rightarrow> 'o list outcome \<Rightarrow> ('s, 'o) step" where
  "continue_with st m =
     (case m of Ok os \<Rightarrow> Continue st os | Err e \<Rightarrow> Return (Err e) [] | Panic \<Rightarrow> Return Panic []
      | Hang \<Rightarrow> Return Hang [])"

section \<open>The audio receiver\<close>

definition server_receiver_body ::
  "(bytes \<Rightarrow> 'q rtp_view option) \<Rightarrow> receiver \<Rightarrow> recv_event \<Rightarrow> (receiver, 'q net_effect) step" where
  "server_receiver_body rtp_new st ev =
     (if is_shutdown (rx_shutdown st) then Return (Ok ()) []
      else case recv_select st ev of
        Exit r \<Rightarrow> Return r []
      | Got st' len \<Rightarrow>
          (case rtp_new (take len (rx_buf st')) of
             Some reader \<Rightarrow> put_packet ev st' (sequence_number reader) (payload reader)
           | None \<Rightarrow> Continue st' []))"

definition server_receiver_run ::
  "(bytes \<Rightarrow> 'q rtp_view option) \<Rightarrow> recv_event list \<Rightarrow> 'q net_effect list \<times> receiver status" where
  "server_receiver_run rtp_new evs = task_loop (server_receiver_body rtp_new) (receiver_new (4 * 1024)) evs"

section \<open>The control channel\<close>

definition control_receiver_body ::
  "'q seq_ops \<Rightarrow> (bytes \<Rightarrow> 'q rtp_view option) \<Rightarrow> receiver \<Rightarrow> recv_event \<Rightarrow>
   (receiver, 'q net_effect) step" where
  "control_receiver_body Q rtp_new st ev =
     (if is_shutdown (rx_shutdown st) then Return (Ok ()) []
      else case recv_select st ev of
        Exit r \<Rightarrow> Return r []
      | Got st' len \<Rightarrow>
          (let buf = rx_buf st' in
           case rtp_new (take len buf) of
             Some reader \<Rightarrow>
               if payload_type reader = 84 then
                 continue_with st'
                   (and_then (time_at buf 8) (\<lambda>t.
                    and_then (u32_at buf 16) (\<lambda>timestamp.
                      Ok [SyncTrace (sequence_number reader) t timestamp])))
               else if payload_type reader = 86 then
                 (case slice buf 16 len of
                    Ok packet \<Rightarrow>
                      put_packet ev st' (seq_of_u16 Q (u16_of_bytes (buf ! 6) (buf ! 7))) packet
                  | _ \<Rightarrow> Return Panic [])
               else Continue st' []
           | None \<Rightarrow> Continue st' []))"

datatype 'q sender_event = MissingSeqs "'q \<times> 'q" | ChannelClosed | StopSender

definition retransmit_request :: "'q seq_ops \<Rightarrow> 'q \<times> 'q \<Rightarrow> bytes" where
  "retransmit_request Q seqs =
     concat [[0x80, 0x55 OR 0x80],
             u16_to_be_bytes 1,
             u16_to_be_bytes (seq_to_u16 Q (fst seqs)),
             u16_to_be_bytes (word_of_nat (length (seq_iter Q (fst seqs) (snd seqs))))]"

definition control_sender_body ::
  "'q seq_ops \<Rightarrow> shutdown_state \<Rightarrow> 'q sender_event \<Rightarrow> (shutdown_state, 'q net_effect) step" where
  "control_sender_body Q sd ev =
     (if is_shutdown sd then Return (Ok ()) []
      else case ev of
        MissingSeqs seqs \<Rightarrow> Continue sd [ToPeer (retransmit_request Q seqs)]
      | ChannelClosed \<Rightarrow> Return (Ok ()) []
      | StopSender \<Rightarrow> Return (Ok ()) [])"

section \<open>The timing channel\<close>

definition timing_receiver_body ::
  "(bytes \<Rightarrow> 'q rtp_view option) \<Rightarrow> receiver \<Rightarrow> recv_event \<Rightarrow> (receiver, 'q net_effect) step" where
  "timing_receiver_body rtp_new st ev =
     (if is_shutdown (rx_shutdown st) then Return (Ok ()) []
      else case recv_select st ev of
        Exit r \<Rightarrow> Return r []
      | Got st' len \<Rightarrow>
          (let buf = rx_buf st' in
           if len \<noteq> 32 then Continue st' []
           else case rtp_new (take len buf) of
             Some reader \<Rightarrow>
               if payload_type reader \<noteq> 83 then Continue st' []
               else continue_with st'
                 (and_then (time_at buf 8) (\<lambda>origin.
                  and_then (time_at buf 16) (\<lambda>receive.
                  and_then (time_at buf 24) (\<lambda>transmit.
                    Ok [TimingTrace (sequence_number reader) origin receive transmit]))))
           | None \<Rightarrow> Continue st' []))"

datatype timer_event = TimerFired | StopTimer

definition timing_request :: bytes where
  "timing_request =
     [0x80, 0xd2, 0x0, 0x07, 0x0, 0x0, 0x0, 0x0, 0x0, 0x0, 0x0, 0x0, 0x0, 0x0, 0x0, 0x0,
      0x0, 0x0, 0x0, 0x0, 0x0, 0x0, 0x0, 0x0, 0x0, 0x0, 0x0, 0x0, 0x0, 0x0, 0x0, 0x0]"

definition timing_sender_body ::
  "shutdown_state \<Rightarrow> timer_event \<Rightarrow> (shutdown_state, 'q net_effect) step" where
  "timing_sender_body sd ev =
     (if is_shutdown sd then Return (Ok ()) []
      else case ev of
        TimerFired \<Rightarrow> Continue sd [ToPeer timing_request]
      | StopTimer \<Rightarrow> Return (Ok ()) [])"

lemmas task_bodies [body_defs] = server_receiver_body_def control_receiver_body_def
  control_sender_body_def timing_receiver_body_def timing_sender_body_def

section \<open>Behaviour of the receivers\<close>

lemma receiver_new_simps [simp]:
  "length (rx_buf (receiver_new n)) = n" "\<not> is_shutdown (rx_shutdown (receiver_new n))"
  by (simp_all add: receiver_new_def)

lemma recv_select_fits:
  assumes "d \<noteq> []" "length d \<le> length (rx_buf st)"
  shows "recv_select st (Received d ok) =
     Got (st\<lparr>rx_buf := d @ drop (length d) (rx_buf st)\<rparr>) (length d)"
  using assms by (simp add: recv_select_def recv_into_fits)

lemma recv_select_truncates:
  assumes "length (rx_buf st) < length d" "0 < length (rx_buf st)"
  shows "recv_select st (Received d ok) =
     Got (st\<lparr>rx_buf := take (length (rx_buf st)) d\<rparr>) (length (rx_buf st))"
  using assms by (auto simp: recv_select_def recv_into_def Let_def)

lemma player_accepts_Received [simp]: "player_accepts (Received d ok) = ok"
  by (simp add: player_accepts_def)

text \<open>What the buffer invariant of the receivers is: its size never changes, and the shutdown flag
  is only set on the way out.\<close>

definition receiver_inv :: "nat \<Rightarrow> receiver \<Rightarrow> bool" where
  "receiver_inv n st \<longleftrightarrow> length (rx_buf st) = n \<and> \<not> is_shutdown (rx_shutdown st)"

lemma receiver_inv_new: "receiver_inv n (receiver_new n)"
  by (simp add: receiver_inv_def)

lemma recv_select_inv: "receiver_inv n st \<Longrightarrow> recv_select st ev = Got st' len \<Longrightarrow>
   receiver_inv n st' \<and> 0 < len \<and> len \<le> n"
  by (auto simp: recv_select_def receiver_inv_def Let_def recv_into_def split: recv_event.splits if_splits prod.splits)

lemma server_receiver_step:
  assumes "receiver_inv n st" "d \<noteq> []" "length d \<le> n"
  shows "\<exists>st'. receiver_inv n st' \<and> server_receiver_body rtp_new st (Received d True) =
     Continue st' (case rtp_new d of None \<Rightarrow> [] | Some v \<Rightarrow> [ToPlayer (sequence_number v) (payload v)])"
  using assms recv_select_fits[of d st True]
  by (auto simp: server_receiver_body_def receiver_inv_def put_packet_def split: option.splits)

lemma server_receiver_loop:
  assumes "receiver_inv n st" "\<forall>d \<in> set ds. d \<noteq> [] \<and> length d \<le> n"
  shows "\<exists>st'. receiver_inv n st' \<and>
     task_loop (server_receiver_body rtp_new) st (map (\<lambda>d. Received d True) ds) =
       (concat (map (\<lambda>d. case rtp_new d of None \<Rightarrow> []
           | Some v \<Rightarrow> [ToPlayer (sequence_number v) (payload v)]) ds), Waiting st')"
  using assms
proof (induction ds arbitrary: st)
  case Nil
  then show ?case by auto
next
  case (Cons d ds)
  from server_receiver_step[OF Cons.prems(1), of d rtp_new] Cons.prems(2) obtain st1 where
    st1: "receiver_inv n st1" and body: "server_receiver_body rtp_new st (Received d True) =
      Continue st1 (case rtp_new d of None \<Rightarrow> [] | Some v \<Rightarrow> [ToPlayer (sequence_number v) (payload v)])"
    by auto
  from Cons.IH[OF st1] Cons.prems(2) show ?case by (auto simp: body)
qed

text \<open>A body that returns on an event ends its task there, whatever follows.\<close>

lemma stops_on_event:
  assumes "\<And>s. \<exists>r os. body s ev = Return r os"
  shows "\<exists>r. snd (task_loop body s (es @ ev # fs)) = Finished r"
proof (induction es arbitrary: s)
  case Nil
  then show ?case using assms[of s] by auto
next
  case (Cons e es)
  then show ?case by (auto split: step.splits prod.splits) (metis snd_conv)
qed

context rtp_reader
begin

lemma retransmission_step:
  assumes "receiver_inv n st" "d \<noteq> []" "length d \<le> n" "rtp_new d = Some v" "payload_type v = 86"
  shows "control_receiver_body Q rtp_new st (Received d True) =
     (if length d < 16 then Return Panic []
      else Continue (st\<lparr>rx_buf := d @ drop (length d) (rx_buf st)\<rparr>)
             [ToPlayer (seq_of_u16 Q (u16_of_bytes (d ! 6) (d ! 7))) (drop 16 d)])"
proof -
  have "12 \<le> length d" using min_header[OF assms(4)] .
  then show ?thesis
    using assms recv_select_fits[of d st True]
    by (simp add: control_receiver_body_def receiver_inv_def put_packet_def slice_def nth_append Let_def)
qed

end

lemma sync_step:
  assumes "receiver_inv n st" "length hdr = 8" "length d \<le> n"
    and "d = hdr @ time_to_bytes t @ u32_to_be_bytes ts @ rest"
    and "rtp_new d = Some v" "payload_type v = 84"
  shows "control_receiver_body Q rtp_new st (Received d ok) =
     Continue (st\<lparr>rx_buf := d @ drop (length d) (rx_buf st)\<rparr>) [SyncTrace (sequence_number v) t ts]"
proof -
  have "d \<noteq> []" using assms(2,4) by auto
  note sel = recv_select_fits[OF this, of st ok]
  have "time_at (d @ xs) 8 = Ok t" for xs
    using time_at_append[OF assms(2), of t "u32_to_be_bytes ts @ rest @ xs"] by (simp add: assms(4))
  moreover have "u32_at (d @ xs) 16 = Ok ts" for xs
    using u32_at_append[of "hdr @ time_to_bytes t" 16 ts "rest @ xs"] assms(2) by (simp add: assms(4))
  ultimately show ?thesis
    using assms sel by (simp add: control_receiver_body_def receiver_inv_def continue_with_def Let_def)
qed

lemma timing_step:
  assumes st: "receiver_inv 32 st" and hdr: "length hdr = 8"
    and msg: "msg = hdr @ time_to_bytes t1 @ time_to_bytes t2 @ time_to_bytes t3"
    and rtp: "rtp_new msg = Some v" "payload_type v = 83"
  shows "timing_receiver_body rtp_new st (Received (msg @ extra) ok) =
     Continue (st\<lparr>rx_buf := msg\<rparr>) [TimingTrace (sequence_number v) t1 t2 t3]"
proof -
  have len: "length msg = 32" using hdr by (simp add: msg)
  have buf: "length (rx_buf st) = 32" "\<not> is_shutdown (rx_shutdown st)"
    using st by (simp_all add: receiver_inv_def)
  have sel: "recv_select st (Received (msg @ extra) ok) = Got (st\<lparr>rx_buf := msg\<rparr>) 32"
  proof (cases extra)
    case Nil
    moreover have "msg \<noteq> []" using len by auto
    ultimately show ?thesis using recv_select_fits[of msg st ok] len buf by simp
  next
    case (Cons x xs)
    then show ?thesis using recv_select_truncates[of st "msg @ extra" ok] len buf by simp
  qed
  have "time_at msg 8 = Ok t1" "time_at msg 16 = Ok t2" "time_at msg 24 = Ok t3"
    using time_at_append[of hdr 8 t1 "time_to_bytes t2 @ time_to_bytes t3"]
      time_at_append[of "hdr @ time_to_bytes t1" 16 t2 "time_to_bytes t3"]
      time_at_append[of "hdr @ time_to_bytes t1 @ time_to_bytes t2" 24 t3 "[]"] hdr
    by (simp_all add: msg)
  then show ?thesis
    using rtp len buf by (simp add: timing_receiver_body_def sel continue_with_def Let_def)
qed

lemma timing_ignores_short:
  assumes "receiver_inv 32 st" "d \<noteq> []" "length d < 32"
  shows "\<exists>st'. timing_receiver_body rtp_new st (Received d ok) = Continue st' []"
  using assms recv_select_fits[of d st ok]
  by (simp add: timing_receiver_body_def receiver_inv_def Let_def)

section \<open>Properties of the network tasks\<close>

text \<open>The audio receiver forwards in order: of a run of datagrams that fit its buffer, exactly
  those the RTP reader accepts reach the player, each once, in order of arrival, with the
  sequence number and payload of its own header; the others are dropped and the task goes on.\<close>

theorem server_receiver_forwards_in_order:
  assumes "\<forall>d \<in> set ds. d \<noteq> [] \<and> length d \<le> 4096"
  shows "\<exists>st. server_receiver_run rtp_new (map (\<lambda>d. Received d True) ds) =
     (concat (map (\<lambda>d. case rtp_new d of None \<Rightarrow> []
         | Some v \<Rightarrow> [ToPlayer (sequence_number v) (payload v)]) ds), Waiting st)"
  using server_receiver_loop[OF receiver_inv_new, of ds 4096 rtp_new] assms
  by (auto simp: server_receiver_run_def)

theorem server_receiver_forwards_in_order_witness:
  "fst (server_receiver_run rtp_decode (map (\<lambda>d. Received d True)
     [[0x80, 96, 0, 7, 0, 0, 0, 0, 0, 0, 0, 0, 42], [1, 2, 3],
      [0x80, 96, 1, 0, 0, 0, 0, 0, 0, 0, 0, 0, 43, 44]])) =
   [ToPlayer 7 [42], ToPlayer 256 [43, 44]]"
proof -
  let ?ds = "[[0x80, 96, 0, 7, 0, 0, 0, 0, 0, 0, 0, 0, 42], [1, 2, 3],
      [0x80, 96, 1, 0, 0, 0, 0, 0, 0, 0, 0, 0, 43, 44]] :: bytes list"
  have "\<forall>d \<in> set ?ds. d \<noteq> [] \<and> length d \<le> 4096" by simp
  from server_receiver_forwards_in_order[OF this, of rtp_decode] show ?thesis
    by (auto simp: rtp_decode_def u16_of_bytes_def)
qed

text \<open>C36. A retransmission (payload type 86) that fits the buffer: its audio packet goes to the
  player under the sequence number in bytes 6 and 7, unaffected by what older datagrams left in
  the buffer; the RTP reader accepts it from 12 bytes on, and with fewer than 16 the slice of the
  packet is out of range and the task panics.\<close>

theorem retransmission_forwarded_or_panics:
  assumes "rtp_reader rtp_new" and "receiver_inv 4096 st" and "d \<noteq> []" and "length d \<le> 4096"
    and "rtp_new d = Some v" and "payload_type v = 86"
  shows "control_receiver_body Q rtp_new st (Received d True) =
     (if length d < 16 then Return Panic []
      else Continue (st\<lparr>rx_buf := d @ drop (length d) (rx_buf st)\<rparr>)
             [ToPlayer (seq_of_u16 Q (u16_of_bytes (d ! 6) (d ! 7))) (drop 16 d)])"
  by (rule rtp_reader.retransmission_step [OF assms])

theorem retransmission_forwarded_or_panics_witness:
  "control_receiver_body word_seq rtp_decode (receiver_new 4096)
     (Received [0x80, 0xD6, 0, 1, 0, 0, 1, 2, 0, 0, 0, 0, 9, 9] True) = Return Panic []"
  using retransmission_forwarded_or_panics [OF rtp_decode.rtp_reader_axioms receiver_inv_new,
      of "[0x80, 0xD6, 0, 1, 0, 0, 1, 2, 0, 0, 0, 0, 9, 9]"
        "\<lparr>payload_type = 86, sequence_number = 1, payload = [9, 9]\<rparr>" word_seq]
  by (simp add: rtp_decode_def u16_of_bytes_def)

text \<open>A time announcement (payload type 84) is decoded from the datagram's own bytes: NTP time
  at bytes 8 to 15, RTP time stamp at bytes 16 to 19, both big-endian.\<close>

theorem sync_packet_decoded:
  assumes "receiver_inv 4096 st" and "length hdr = 8" and "length d \<le> 4096"
    and "d = hdr @ time_to_bytes t @ u32_to_be_bytes ts @ rest"
    and "rtp_new d = Some v" and "payload_type v = 84"
  shows "control_receiver_body Q rtp_new st (Received d ok) =
     Continue (st\<lparr>rx_buf := d @ drop (length d) (rx_buf st)\<rparr>) [SyncTrace (sequence_number v) t ts]"
  using assms by (rule sync_step)

theorem sync_packet_decoded_witness:
  "\<exists>st. control_receiver_body word_seq rtp_decode (receiver_new 4096)
     (Received ([0x90 AND 0x80, 0xD4, 0, 7, 0, 0, 0, 0] @ time_to_bytes \<lparr>sec = 1, frac = 2\<rparr> @
        u32_to_be_bytes 3 @ []) True) =
     Continue st [SyncTrace 7 \<lparr>sec = 1, frac = 2\<rparr> 3]"
proof -
  have "rtp_decode ([0x90 AND 0x80, 0xD4, 0, 7, 0, 0, 0, 0] @ time_to_bytes \<lparr>sec = 1, frac = 2\<rparr> @
        u32_to_be_bytes 3 @ []) =
      Some \<lparr>payload_type = 84, sequence_number = 7, payload = [0, 0, 0, 2, 0, 0, 0, 3]\<rparr>"
    by (simp add: rtp_decode_def time_to_bytes_def u32_to_be_bytes_def u16_of_bytes_def)
  then show ?thesis
    using sync_packet_decoded [OF receiver_inv_new, of "[0x90 AND 0x80, 0xD4, 0, 7, 0, 0, 0, 0]" _
        "\<lparr>sec = 1, frac = 2\<rparr>" 3 "[]" rtp_decode _ word_seq True]
    by simp
qed

text \<open>C37. The timing receiver reports the three time stamps of a 32-byte reply (payload type 83).
  The check for exactly 32 bytes does not see longer datagrams: the 32-byte buffer cuts them, so a
  reply with any bytes appended is taken for its first 32 bytes. Shorter ones are ignored.\<close>

theorem timing_reply_decoded:
  assumes "receiver_inv 32 st" and "length hdr = 8"
    and "msg = hdr @ time_to_bytes t1 @ time_to_bytes t2 @ time_to_bytes t3"
    and "rtp_new msg = Some v" and "payload_type v = 83"
  shows "timing_receiver_body rtp_new st (Received (msg @ extra) ok) =
           Continue (st\<lparr>rx_buf := msg\<rparr>) [TimingTrace (sequence_number v) t1 t2 t3] \<and>
         (\<forall>n. 0 < n \<and> n < 32 \<longrightarrow>
            (\<exists>st'. timing_receiver_body rtp_new st (Received (take n msg) ok) = Continue st' []))"
proof (intro conjI allI impI)
  show "timing_receiver_body rtp_new st (Received (msg @ extra) ok) =
      Continue (st\<lparr>rx_buf := msg\<rparr>) [TimingTrace (sequence_number v) t1 t2 t3]"
    using assms by (rule timing_step)
  fix n :: nat
  assume n: "0 < n \<and> n < 32"
  moreover have "length msg = 32" using assms(2) by (simp add: assms(3))
  ultimately have "take n msg \<noteq> []" "length (take n msg) < 32" by auto
  then show "\<exists>st'. timing_receiver_body rtp_new st (Received (take n msg) ok) = Continue st' []"
    by (rule timing_ignores_short [OF assms(1)])
qed

theorem timing_reply_decoded_witness:
  "\<exists>st. timing_receiver_body rtp_decode (receiver_new 32)
     (Received (([0x80, 0xD3, 0, 7, 0, 0, 0, 0] @ time_to_bytes \<lparr>sec = 1, frac = 2\<rparr> @
        time_to_bytes \<lparr>sec = 3, frac = 4\<rparr> @ time_to_bytes \<lparr>sec = 5, frac = 6\<rparr>) @ [99]) True) =
     Continue st [TimingTrace 7 \<lparr>sec = 1, frac = 2\<rparr> \<lparr>sec = 3, frac = 4\<rparr> \<lparr>sec = 5, frac = 6\<rparr>]"
proof -
  have "rtp_decode ([0x80, 0xD3, 0, 7, 0, 0, 0, 0] @ time_to_bytes \<lparr>sec = 1, frac = 2\<rparr> @
        time_to_bytes \<lparr>sec = 3, frac = 4\<rparr> @ time_to_bytes \<lparr>sec = 5, frac = 6\<rparr>) =
      Some \<lparr>payload_type = 83, sequence_number = 7, payload =
        [0, 0, 0, 2, 0, 0, 0, 3, 0, 0, 0, 4, 0, 0, 0, 5, 0, 0, 0, 6]\<rparr>"
    by (simp add: rtp_decode_def time_to_bytes_def u32_to_be_bytes_def u16_of_bytes_def)
  then show ?thesis
    using timing_reply_decoded [OF receiver_inv_new, of "[0x80, 0xD3, 0, 7, 0, 0, 0, 0]" _
        "\<lparr>sec = 1, frac = 2\<rparr>" "\<lparr>sec = 3, frac = 4\<rparr>" "\<lparr>sec = 5, frac = 6\<rparr>"
        rtp_decode _ "[99]" True]
    by simp
qed

text \<open>The retransmission request asks for exactly the gap: when a packet arrives \<open>d\<close> numbers
  ahead of the write marker (\<open>2 \<le> d \<le> 32768\<close>), the range the frame buffer returns becomes the
  eight bytes of a request for the \<open>d - 1\<close> packets from the one after the write marker on; the
  count fits its 16 bits.\<close>

theorem retransmit_request_covers_gap:
  assumes "seq_api Q" and "d = seq_dist Q (write_marker fb) s" and "2 \<le> d" and "d \<le> 2 ^ 15"
    and "\<not> is_shutdown sd"
  shows "control_sender_body Q sd (MissingSeqs (snd (add_packet Q fb s packet))) =
     Continue sd [ToPeer ([0x80, 0xD5, 0, 1] @
       u16_to_be_bytes (seq_to_u16 Q (write_marker fb) + 1) @ u16_to_be_bytes (word_of_nat (d - 1)))] \<and>
     unat (word_of_nat (d - 1) :: u16) = d - 1"
proof -
  have "seq_iter Q (seq_next Q (write_marker fb)) s = map (seq_plus Q (write_marker fb)) [1..<d]"
    using seq_api.iter_window [OF assms(1), of "write_marker fb" s] assms(2-4) by simp
  then have "length (seq_iter Q (seq_next Q (write_marker fb)) s) = d - 1" by simp
  moreover have "unat (word_of_nat (d - 1) :: u16) = d - 1"
    using assms(4) by (simp add: unat_of_nat take_bit_nat_eq_self)
  ultimately show ?thesis
    using assms(5)
    by (simp add: control_sender_body_def retransmit_request_def seq_api.to_next [OF assms(1)] u16_to_be_bytes_def)
qed

theorem retransmit_request_covers_gap_witness:
  "control_sender_body word_seq shutdown_new
     (MissingSeqs (snd (add_packet word_seq (frame_buffer_new 65534) 1 ''p''))) =
   Continue shutdown_new [ToPeer [0x80, 0xD5, 0, 1, 0xFF, 0xFF, 0, 2]]"
proof -
  have d: "3 = seq_dist word_seq (write_marker (frame_buffer_new 65534)) 1" by (simp add: seq_dist_def)
  show ?thesis
    using retransmit_request_covers_gap [OF word_seq.seq_api_axioms d, of shutdown_new "''p''"]
    by (simp add: u16_to_be_bytes_def)
qed

text \<open>Every network task stops at the first shutdown notice: whatever it did before and whatever
  would come after, it has returned.\<close>

theorem network_tasks_stop:
  "(\<exists>r. snd (task_loop (server_receiver_body rtp_new) st (es @ StopReceiver # fs)) = Finished r) \<and>
   (\<exists>r. snd (task_loop (control_receiver_body Q rtp_new) st (es @ StopReceiver # fs)) = Finished r) \<and>
   (\<exists>r. snd (task_loop (timing_receiver_body rtp_new) st (es @ StopReceiver # fs)) = Finished r) \<and>
   (\<exists>r. snd (task_loop (control_sender_body Q) sd (cs @ StopSender # ds)) = Finished r) \<and>
   (\<exists>r. snd (task_loop timing_sender_body sd (ts @ StopTimer # us)) = Finished r)"
proof (intro conjI)
  show "\<exists>r. snd (task_loop (server_receiver_body rtp_new) st (es @ StopReceiver # fs)) = Finished r"
    by (rule stops_on_event) (simp add: body_defs recv_select_def)
  show "\<exists>r. snd (task_loop (control_receiver_body Q rtp_new) st (es @ StopReceiver # fs)) = Finished r"
    by (rule stops_on_event) (simp add: body_defs recv_select_def)
  show "\<exists>r. snd (task_loop (timing_receiver_body rtp_new) st (es @ StopReceiver # fs)) = Finished r"
    by (rule stops_on_event) (simp add: body_defs recv_select_def)
  show "\<exists>r. snd (task_loop (control_sender_body Q) sd (cs @ StopSender # ds)) = Finished r"
    by (rule stops_on_event) (simp add: body_defs)
  show "\<exists>r. snd (task_loop timing_sender_body sd (ts @ StopTimer # us)) = Finished r"
    by (rule stops_on_event) (simp add: body_defs)
qed

end
