(* ===== verification/Rtp_Info.thy ===== *)
theory Rtp_Info
  imports Rust_Strings
begin

text \<open>
  The parser of the \<open>RTP-Info\<close> header: src/src/rtp_info.rs. The parser combinators come from
  the crate \<open>nom\<close> and are a parameter (\<open>nom_ops\<close>, one field per combinator at the type the
  code uses it); the locale \<open>nom\<close> states their documented behaviour. A parser takes the input
  and returns the output with the rest of the input, or fails.
\<close>

section \<open>The combinators of nom\<close>

type_synonym 'a parser = "string \<Rightarrow> ('a \<times> string) option"

record nom_ops =
  nom_tag_no_case :: "string \<Rightarrow> string parser"
  nom_char :: "char \<Rightarrow> char parser"
  nom_digit1 :: "string parser"
  nom_space0 :: "string parser"
  nom_opt :: "char parser \<Rightarrow> char option parser"
  nom_map_res :: "string parser \<Rightarrow> (string \<Rightarrow> nat option) \<Rightarrow> nat parser"
  nom_delimited_str :: "string parser \<Rightarrow> string parser \<Rightarrow> string parser \<Rightarrow> string parser"
  nom_delimited_num :: "string parser \<Rightarrow> nat parser \<Rightarrow> string parser \<Rightarrow> nat parser"
  nom_tuple :: "string parser \<Rightarrow> char parser \<Rightarrow> (string \<times> char) parser"
  nom_preceded :: "(string \<times> char) parser \<Rightarrow> nat parser \<Rightarrow> nat parser"
  nom_terminated :: "nat parser \<Rightarrow> char option parser \<Rightarrow> nat parser"
  nom_permutation :: "nat parser \<Rightarrow> nat parser \<Rightarrow> (nat \<times> nat) parser"

definition ascii_lower :: "char \<Rightarrow> char" where
  "ascii_lower c = (let k = of_char c in if 65 \<le> k \<and> k \<le> (90 :: nat) then char_of (k + 32) else c)"

definition is_space :: "char \<Rightarrow> bool" where
  "is_space c = (c = CHR '' '' \<or> c = CHR 0x09)"

definition is_digit :: "char \<Rightarrow> bool" where
  "is_digit c = (digit_val c \<noteq> None)"

text \<open>Sequencing, the common core of the combinators' laws.\<close>

definition then_parse :: "'a parser \<Rightarrow> 'b parser \<Rightarrow> ('a \<times> 'b) parser" where
  "then_parse p q s = (case p s of None \<Rightarrow> None
     | Some (a, r) \<Rightarrow> (case q r of None \<Rightarrow> None | Some (b, r') \<Rightarrow> Some ((a, b), r')))"

definition map_parse :: "('a \<Rightarrow> 'b) \<Rightarrow> 'a parser \<Rightarrow> 'b parser" where
  "map_parse f p s = map_option (\<lambda>(a, r). (f a, r)) (p s)"

locale nom =
  fixes N :: nom_ops
  assumes tag_no_case: "nom_tag_no_case N t s =
      (if map ascii_lower (take (length t) s) = map ascii_lower t
       then Some (take (length t) s, drop (length t) s) else None)"
    and char_law: "nom_char N c s = (if s \<noteq> [] \<and> hd s = c then Some (c, tl s) else None)"
    and digit1: "nom_digit1 N s =
      (if takeWhile is_digit s = [] then None else Some (takeWhile is_digit s, dropWhile is_digit s))"
    and space0: "nom_space0 N s = Some (takeWhile is_space s, dropWhile is_space s)"
    and opt: "nom_opt N p s = (case p s of None \<Rightarrow> Some (None, s) | Some (c, r) \<Rightarrow> Some (Some c, r))"
    and map_res: "nom_map_res N q f s = (case q s of None \<Rightarrow> None
      | Some (x, r) \<Rightarrow> map_option (\<lambda>n. (n, r)) (f x))"
    and delimited_str: "nom_delimited_str N d q e s = map_parse (\<lambda>((_, x), _). x) (then_parse (then_parse d q) e) s"
    and delimited_num: "nom_delimited_num N d n e s = map_parse (\<lambda>((_, x), _). x) (then_parse (then_parse d n) e) s"
    and tuple: "nom_tuple N q p s = then_parse q p s"
    and preceded: "nom_preceded N qp n s = map_parse snd (then_parse qp n) s"
    and terminated: "nom_terminated N n po s = map_parse fst (then_parse n po) s"
    and permutation: "nom_permutation N n m s =
      (case n s of
         Some _ \<Rightarrow> then_parse n m s
       | None \<Rightarrow> map_parse prod.swap (then_parse m n) s)"

section \<open>The parser\<close>

record rtp_info =
  rtp_seq :: u16
  rtptime :: u32

definition trim_str :: "nom_ops \<Rightarrow> string parser \<Rightarrow> string parser" where
  "trim_str N p = nom_delimited_str N (nom_space0 N) p (nom_space0 N)"

definition trim_num :: "nom_ops \<Rightarrow> nat parser \<Rightarrow> nat parser" where
  "trim_num N p = nom_delimited_num N (nom_space0 N) p (nom_space0 N)"

text \<open>\<open>w\<close> is the width of the integer type \<open>O2\<close> whose \<open>FromStr\<close> reads the digits.\<close>

definition parameter :: "nom_ops \<Rightarrow> nat \<Rightarrow> string parser \<Rightarrow> nat parser" where
  "parameter N w seq_parser =
     nom_terminated N
       (nom_preceded N
          (nom_tuple N (trim_str N seq_parser) (nom_char N (CHR ''='')))
          (trim_num N (nom_map_res N (nom_digit1 N) (parse_uint w))))
       (nom_opt N (nom_char N (CHR '';'')))"

definition rtp_info_parse :: "nom_ops \<Rightarrow> string \<Rightarrow> (rtp_info \<times> string) option" where
  "rtp_info_parse N input =
     (case nom_permutation N
             (parameter N 16 (nom_tag_no_case N ''seq''))
             (parameter N 32 (nom_tag_no_case N ''rtptime'')) input of
        None \<Rightarrow> None
      | Some ((s, t), rest) \<Rightarrow>
          Some (\<lparr>rtp_seq = word_of_nat s, rtptime = word_of_nat t\<rparr>, rest))"

section \<open>Behaviour\<close>

lemma is_digit_show_nat: "\<forall>c \<in> set (show_nat n). is_digit c"
  using show_nat_digits by (auto simp: is_digit_def)

lemma space_not_digit: "is_space c \<Longrightarrow> \<not> is_digit c"
  by (auto simp: is_space_def is_digit_def digit_val_def)

lemma span_blank:
  assumes "\<forall>c \<in> set b. P c" "s = [] \<or> \<not> P (hd s)"
  shows "takeWhile P (b @ s) = b" "dropWhile P (b @ s) = s"
  using assms by (cases s; simp add: takeWhile_append2 dropWhile_append2)+

text \<open>One parameter as a client may write it: a name in any case and a number, with blanks around
  them, ended by a semicolon or by the end of the header.\<close>

definition renders :: "string \<Rightarrow> string \<Rightarrow> string \<Rightarrow> string \<Rightarrow> bool" where
  "renders name ds rest s \<longleftrightarrow> (\<exists>b1 name' b2 b3 b4 e.
     s = b1 @ name' @ b2 @ CHR ''='' # b3 @ ds @ b4 @ e \<and>
     map ascii_lower name' = map ascii_lower name \<and> (\<forall>c \<in> set (b1 @ b2 @ b3 @ b4). is_space c) \<and>
     (e = CHR '';'' # rest \<or> e = [] \<and> rest = []))"

lemma is_space_code: "is_space c \<longleftrightarrow> of_char c = (32 :: nat) \<or> of_char c = (9 :: nat)"
proof -
  have "of_char c = (of_char d :: nat) \<longleftrightarrow> c = d" for d by (simp add: of_char_eq_iff)
  from this[of "CHR '' ''"] this[of "CHR 0x09"] show ?thesis by (simp add: is_space_def)
qed

lemma is_space_lower [simp]: "is_space (ascii_lower c) = is_space c"
  by (auto simp: is_space_code ascii_lower_def Let_def)

lemma lower_hd: "map ascii_lower xs = map ascii_lower ys \<Longrightarrow> ys \<noteq> [] \<Longrightarrow>
   xs \<noteq> [] \<and> ascii_lower (hd xs) = ascii_lower (hd ys)"
  by (cases xs; cases ys) auto

lemmas parse_defs = then_parse_def map_parse_def

context nom
begin

lemmas laws = tag_no_case char_law digit1 space0 opt map_res delimited_str delimited_num
  tuple preceded terminated permutation

lemma trim_str_tag:
  assumes "map ascii_lower name' = map ascii_lower name" "\<forall>c \<in> set b. is_space c"
    "\<forall>c \<in> set b'. is_space c" "name' \<noteq> []" "\<not> is_space (hd name')" "s = [] \<or> \<not> is_space (hd s)"
  shows "trim_str N (nom_tag_no_case N name) (b @ name' @ b' @ s) = Some (name', s)"
proof -
  have len: "length name' = length name" using assms(1) by (metis length_map)
  have "name' @ b' @ s = [] \<or> \<not> is_space (hd (name' @ b' @ s))" using assms(4,5) by simp
  note lead = span_blank[OF assms(2) this] and trail = span_blank[OF assms(3,6)]
  show ?thesis
    by (simp add: trim_str_def laws parse_defs lead trail assms(1) len[symmetric])
qed

lemma trim_num_digits:
  assumes "\<forall>c \<in> set b. is_space c" "\<forall>c \<in> set b'. is_space c" "ds \<noteq> []"
    "\<forall>c \<in> set ds. is_digit c" "s = [] \<or> (\<not> is_space (hd s) \<and> \<not> is_digit (hd s))"
  shows "trim_num N (nom_map_res N (nom_digit1 N) (parse_uint w)) (b @ ds @ b' @ s) =
     map_option (\<lambda>n. (n, s)) (parse_uint w ds)"
proof -
  have "\<not> is_space (hd ds)" using assms(3,4) space_not_digit hd_in_set by blast
  then have "ds @ b' @ s = [] \<or> \<not> is_space (hd (ds @ b' @ s))" using assms(3) by simp
  note lead = span_blank[OF assms(1) this]
  have "b' @ s = [] \<or> \<not> is_digit (hd (b' @ s))"
    using assms(2,5) space_not_digit by (cases b') auto
  note digits = span_blank[OF assms(4) this]
  have "s = [] \<or> \<not> is_space (hd s)" using assms(5) by auto
  note trail = span_blank[OF assms(2) this]
  show ?thesis
    by (cases "parse_uint w ds") (simp_all add: trim_num_def laws parse_defs lead digits trail assms(3))
qed

lemma parameter_renders:
  assumes "renders name ds rest s" "name \<noteq> []" "\<not> is_space (hd name)"
    and ds: "ds \<noteq> []" "\<forall>c \<in> set ds. is_digit c"
  shows "parameter N w (nom_tag_no_case N name) s = map_option (\<lambda>n. (n, rest)) (parse_uint w ds)"
proof -
  obtain b1 name' b2 b3 b4 e where
    s: "s = b1 @ name' @ b2 @ CHR ''='' # b3 @ ds @ b4 @ e"
    and name': "map ascii_lower name' = map ascii_lower name"
    and blanks: "\<forall>c \<in> set (b1 @ b2 @ b3 @ b4). is_space c"
    and e: "e = CHR '';'' # rest \<or> e = [] \<and> rest = []"
    using assms(1) unfolding renders_def by blast
  from blanks have b: "\<forall>c \<in> set b1. is_space c" "\<forall>c \<in> set b2. is_space c"
    "\<forall>c \<in> set b3. is_space c" "\<forall>c \<in> set b4. is_space c" by auto
  have hd: "name' \<noteq> []" "\<not> is_space (hd name')"
    using lower_hd[OF name' assms(2)] assms(3) is_space_lower by metis+
  have "trim_str N (nom_tag_no_case N name) s = Some (name', CHR ''='' # b3 @ ds @ b4 @ e)"
    unfolding s by (rule trim_str_tag[OF name' b(1,2) hd]) (simp add: is_space_def)
  moreover have "trim_num N (nom_map_res N (nom_digit1 N) (parse_uint w)) (b3 @ ds @ b4 @ e) =
      map_option (\<lambda>n. (n, e)) (parse_uint w ds)"
    by (rule trim_num_digits[OF b(3,4) ds]) (use e in \<open>auto simp: is_space_def is_digit_def digit_val_def\<close>)
  ultimately show ?thesis
    using e by (cases "parse_uint w ds") (auto simp: parameter_def laws parse_defs)
qed

lemma parameter_rejects:
  assumes "renders name2 ds rest s" "name2 \<noteq> []" "\<not> is_space (hd name2)" "name \<noteq> []"
    and "ascii_lower (hd name) \<noteq> ascii_lower (hd name2)"
  shows "parameter N w (nom_tag_no_case N name) s = None"
proof -
  obtain b1 name' r where s: "s = b1 @ name' @ r"
    and name': "map ascii_lower name' = map ascii_lower name2" and b: "\<forall>c \<in> set b1. is_space c"
    using assms(1) unfolding renders_def by auto
  have hd: "name' \<noteq> []" "ascii_lower (hd name') = ascii_lower (hd name2)"
    using lower_hd[OF name' assms(2)] by auto
  then have "\<not> is_space (hd name')" using assms(3) is_space_lower by metis
  then have "name' @ r = [] \<or> \<not> is_space (hd (name' @ r))" using hd by simp
  note lead = span_blank[OF b this]
  obtain c cs d ds where c: "name' = c # cs" "name = d # ds" using hd(1) assms(4) by (metis list.exhaust)
  have "map ascii_lower (take (length name) (name' @ r)) \<noteq> map ascii_lower name"
    using assms(5) hd(2) by (simp add: c)
  then show ?thesis
    by (simp add: parameter_def trim_str_def laws parse_defs s lead)
qed

end

text \<open>C22. The header is parsed alike in both parameter orders, in any letter case and with blanks
  around names and numbers: the result is the pair of numbers when both fit their width (16 bits
  for \<open>seq\<close>, 32 for \<open>rtptime\<close>), and a parse error otherwise.\<close>

theorem rtp_info_parse_correct:
  assumes "nom N" and "ds1 \<noteq> []" "ds2 \<noteq> []" and "\<forall>c \<in> set (ds1 @ ds2). is_digit c"
    and "renders ''seq'' ds1 mid s \<and> renders ''rtptime'' ds2 rest mid \<or>
         renders ''rtptime'' ds2 mid s \<and> renders ''seq'' ds1 rest mid"
  shows "rtp_info_parse N s =
     (case (parse_uint 16 ds1, parse_uint 32 ds2) of
        (Some a, Some b) \<Rightarrow> Some (\<lparr>rtp_seq = word_of_nat a, rtptime = word_of_nat b\<rparr>, rest)
      | _ \<Rightarrow> None)"
proof -
  have d: "\<forall>c \<in> set ds1. is_digit c" "\<forall>c \<in> set ds2. is_digit c" using assms(4) by auto
  have names: "\<not> is_space (hd ''seq'')" "\<not> is_space (hd ''rtptime'')"
    "ascii_lower (hd ''seq'') \<noteq> ascii_lower (hd ''rtptime'')"
    by (simp_all add: is_space_def ascii_lower_def)
  note acc = nom.parameter_renders[OF assms(1)] and rej = nom.parameter_rejects[OF assms(1)]
  from assms(5) show ?thesis
  proof
    assume "renders ''seq'' ds1 mid s \<and> renders ''rtptime'' ds2 rest mid"
    then show ?thesis
      using acc[of "''seq''" ds1 mid s 16] acc[of "''rtptime''" ds2 rest mid 32]
        rej[of "''seq''" ds1 mid s "''rtptime''" 32] names d assms(2,3)
      by (simp add: rtp_info_parse_def nom.permutation[OF assms(1)] parse_defs split: option.splits)
  next
    assume "renders ''rtptime'' ds2 mid s \<and> renders ''seq'' ds1 rest mid"
    then show ?thesis
      using acc[of "''rtptime''" ds2 mid s 32] acc[of "''seq''" ds1 rest mid 16]
        rej[of "''rtptime''" ds2 mid s "''seq''" 16] names d assms(2,3)
      by (simp add: rtp_info_parse_def nom.permutation[OF assms(1)] parse_defs split: option.splits)
  qed
qed

section \<open>The combinators as functions\<close>

text \<open>An executable instance of the interface, used to evaluate the parser.\<close>

definition nom_fun :: nom_ops where
  "nom_fun = \<lparr>
     nom_tag_no_case = (\<lambda>t s. if map ascii_lower (take (length t) s) = map ascii_lower t
       then Some (take (length t) s, drop (length t) s) else None),
     nom_char = (\<lambda>c s. if s \<noteq> [] \<and> hd s = c then Some (c, tl s) else None),
     nom_digit1 = (\<lambda>s. if takeWhile is_digit s = [] then None
       else Some (takeWhile is_digit s, dropWhile is_digit s)),
     nom_space0 = (\<lambda>s. Some (takeWhile is_space s, dropWhile is_space s)),
     nom_opt = (\<lambda>p s. case p s of None \<Rightarrow> Some (None, s) | Some (c, r) \<Rightarrow> Some (Some c, r)),
     nom_map_res = (\<lambda>q f s. case q s of None \<Rightarrow> None | Some (x, r) \<Rightarrow> map_option (\<lambda>n. (n, r)) (f x)),
     nom_delimited_str = (\<lambda>d q e. map_parse (\<lambda>((_, x), _). x) (then_parse (then_parse d q) e)),
     nom_delimited_num = (\<lambda>d n e. map_parse (\<lambda>((_, x), _). x) (then_parse (then_parse d n) e)),
     nom_tuple = then_parse,
     nom_preceded = (\<lambda>qp n. map_parse snd (then_parse qp n)),
     nom_terminated = (\<lambda>n po. map_parse fst (then_parse n po)),
     nom_permutation = (\<lambda>n m s. case n s of Some _ \<Rightarrow> then_parse n m s
       | None \<Rightarrow> map_parse prod.swap (then_parse m n) s)\<rparr>"

interpretation nom_fun: nom nom_fun
  by unfold_locales (simp_all add: nom_fun_def)

lemma renders_plain: "renders name ds rest (name @ CHR ''='' # ds @ CHR '';'' # rest)"
  unfolding renders_def
  by (intro exI[of _ "[]"] exI[of _ name] exI[of _ "CHR '';'' # rest"]) simp

lemma renders_plain_last: "renders name ds [] (name @ CHR ''='' # ds)"
  unfolding renders_def by (intro exI[of _ "[]"] exI[of _ name]) simp

theorem rtp_info_parse_correct_witness:
  "rtp_info_parse nom_fun ''RTPTIME = 4294967295 ; seq=65535'' =
     Some (\<lparr>rtp_seq = 65535, rtptime = 4294967295\<rparr>, []) \<and>
   rtp_info_parse nom_fun ''seq=65536;rtptime=1'' = None"
proof
  have up: "map ascii_lower ''RTPTIME'' = map ascii_lower ''rtptime''" by code_simp
  have r1: "renders ''rtptime'' ''4294967295'' '' seq=65535'' ''RTPTIME = 4294967295 ; seq=65535''"
    unfolding renders_def
    by (rule exI[of _ "[]"], rule exI[of _ "''RTPTIME''"], rule exI[of _ "'' ''"], rule exI[of _ "'' ''"],
        rule exI[of _ "'' ''"], rule exI[of _ "''; seq=65535''"])
      (use up in \<open>simp add: is_space_def\<close>)
  have r2: "renders ''seq'' ''65535'' [] '' seq=65535''"
    unfolding renders_def
    by (rule exI[of _ "'' ''"], rule exI[of _ "''seq''"], (rule exI[of _ "[]"])+) (simp add: is_space_def)
  have p: "parse_uint 16 ''65535'' = Some 65535" "parse_uint 32 ''4294967295'' = Some 4294967295"
    "parse_uint 16 ''65536'' = None"
    by (simp_all add: parse_uint_def digit_val_def Let_def)
  have d: "\<forall>c \<in> set (''65535'' @ ''4294967295''). is_digit c"
    "\<forall>c \<in> set (''65536'' @ ''1''). is_digit c"
    by (simp_all add: is_digit_def digit_val_def Let_def)
  note rtp_info_parse_correct[OF nom_fun.nom_axioms _ _ d(1) disjI2[OF conjI[OF r1 r2]]]
  then show "rtp_info_parse nom_fun ''RTPTIME = 4294967295 ; seq=65535'' =
     Some (\<lparr>rtp_seq = 65535, rtptime = 4294967295\<rparr>, [])"
    unfolding p by simp
  note rtp_info_parse_correct[OF nom_fun.nom_axioms _ _ d(2) disjI1[OF conjI[OF
      renders_plain[of "''seq''"] renders_plain_last[of "''rtptime''"]]]]
  then show "rtp_info_parse nom_fun ''seq=65536;rtptime=1'' = None"
    unfolding p by simp
qed

end
