(* ===== verification/Player.thy ===== *)
theory Player
  imports Net_Tasks Rtp_Info
begin

text \<open>
  The player task: src/src/player/mod.rs. Its commands, the local variables of \<open>run\<close> as a
  record, one function per command and the loop around them. The reference-counted frame
  buffers live in a store (\<open>buffers\<close>), shared by the player (\<open>frame_buf\<close>) and the sources queued
  in the audio sink (\<open>sink\<close>). The broadcast channel that stops the tasks of a session and the
  channel to its control sender are named by the number of the session. AES-CBC, the ALAC decoder
  and the sockets are parameters.
\<close>

section \<open>Commands\<close>

datatype ip_addr = V4 bytes | V6 bytes

record encryption =
  aesiv :: bytes
  aeskey :: bytes

record announce =
  fmtp :: string
  minimum_latency :: u32
  maximum_latency :: u32
  announced_encryption :: "encryption option"

record setup_payload =
  setup_ip :: ip_addr
  setup_control_port :: u16
  setup_timing_port :: u16

record setup_response =
  resp_control_port :: u16
  resp_timing_port :: u16
  resp_server_port :: u16

datatype ('q, 'f) command =
    Announce announce
  | Setup setup_payload
  | Record rtp_info
  | Teardown
  | SetParameter 'f
  | GetParameter
  | Flush rtp_info
  | PutPacket 'q bytes

text \<open>What comes back on the \<open>oneshot\<close> channel of a command.\<close>

datatype 'f reply = Done "unit outcome" | SetupDone "setup_response outcome" | Volume 'f

datatype ('q, 'f) player_effect =
    Reply "'f reply"
  | DropNotify nat
  | DropControl nat
  | SpawnTasks nat setup_payload
  | ControlSend nat "'q \<times> 'q"

section \<open>Parameters\<close>

record ('k, 'd) codec_ops =
  aes_new :: "bytes \<Rightarrow> 'k"
  cbc_decrypt :: "'k \<Rightarrow> bytes \<Rightarrow> bytes \<Rightarrow> bytes option"
  alac_new :: "string \<Rightarrow> 'd option"
  alac_max_samples :: "'d \<Rightarrow> u32"
  alac_decode :: "'d \<Rightarrow> bytes \<Rightarrow> nat \<Rightarrow> 'd \<times> i32 list option"

text \<open>The answers of the operating system to the socket calls of SETUP.\<close>

record setup_net =
  bind_c :: bool
  bind_t :: bool
  bind_s :: bool
  connect_c :: bool
  connect_t :: bool
  local_c :: "u16 option"
  local_t :: "u16 option"
  local_s :: "u16 option"

section \<open>The state of the loop\<close>

record ('q, 'k, 'd, 'f) player =
  player_shutdown :: shutdown_state
  airplay_volume :: 'f
  notify_shutdown :: "nat option"
  encryption :: "encryption option"
  cipher :: "'k option"
  alac :: "'d option"
  frame_buf :: "nat option"
  control_tx :: "nat option"
  buffers :: "('q, i16) frame_buffer list"
  sink :: "(i16 source \<times> nat) list"
  sessions :: nat

definition player_new :: "'f \<Rightarrow> ('q, 'k, 'd, 'f) player" where
  "player_new zero =
     \<lparr>player_shutdown = shutdown_new, airplay_volume = zero, notify_shutdown = None,
      encryption = None, cipher = None, alac = None, frame_buf = None, control_tx = None,
      buffers = [], sink = [], sessions = 0\<rparr>"

type_synonym ('q, 'k, 'd, 'f) player_result =
  "(('q, 'k, 'd, 'f) player \<times> ('q, 'f) player_effect list) outcome"

section \<open>The commands of a session\<close>

text \<open>\<open>GenericArray::from_slice\<close> panics on a slice of another length.\<close>

definition from_slice :: "nat \<Rightarrow> bytes \<Rightarrow> bytes outcome" where
  "from_slice n bs = (if length bs = n then Ok bs else Panic)"

definition player_announce ::
  "('k, 'd) codec_ops \<Rightarrow> announce \<Rightarrow> ('q, 'k, 'd, 'f) player \<Rightarrow> ('q, 'k, 'd, 'f) player_result" where
  "player_announce C a p =
     (let p1 = p\<lparr>encryption := announced_encryption a\<rparr> in
      and_then
        (case encryption p1 of
           Some enc \<Rightarrow> and_then (from_slice 16 (aeskey enc)) (\<lambda>key. Ok (p1\<lparr>cipher := Some (aes_new C key)\<rparr>))
         | None \<Rightarrow> Ok p1)
        (\<lambda>p2. Ok (p2\<lparr>alac := alac_new C (fmtp a)\<rparr>, [Reply (Done (Ok ()))])))"

definition player_setup ::
  "setup_net \<Rightarrow> setup_payload \<Rightarrow> ('q, 'k, 'd, 'f) player \<Rightarrow> ('q, 'k, 'd, 'f) player_result" where
  "player_setup net s p =
     and_then (require IoError (bind_c net)) (\<lambda>_.
     and_then (require IoError (bind_t net)) (\<lambda>_.
     and_then (require IoError (bind_s net)) (\<lambda>_.
     and_then (require IoError (connect_c net)) (\<lambda>_.
     and_then (require IoError (connect_t net)) (\<lambda>_.
     and_then (ok_or IoError (local_c net)) (\<lambda>c_port.
     and_then (ok_or IoError (local_t net)) (\<lambda>t_port.
     and_then (ok_or IoError (local_s net)) (\<lambda>s_port.
       let n = sessions p;
           dropped = (case notify_shutdown p of Some m \<Rightarrow> [DropNotify m] | None \<Rightarrow> []) @
                     (case control_tx p of Some m \<Rightarrow> [DropControl m] | None \<Rightarrow> [])
       in Ok (p\<lparr>notify_shutdown := Some n, control_tx := Some n, sessions := Suc n\<rparr>,
              dropped @
              [SpawnTasks n s,
               Reply (SetupDone (Ok \<lparr>resp_control_port = c_port, resp_timing_port = t_port,
                                     resp_server_port = s_port\<rparr>))])))))))))"

definition player_record ::
  "'q seq_ops \<Rightarrow> rtp_info \<Rightarrow> ('q, 'k, 'd, 'f) player \<Rightarrow> ('q, 'k, 'd, 'f) player_result" where
  "player_record Q info p =
     (let r = length (buffers p);
          inner_frame_buffer = frame_buffer_new (seq_of_u16 Q (rtp_seq info))
      in and_then (source_new 2 44100) (\<lambda>src.
           Ok (p\<lparr>buffers := buffers p @ [inner_frame_buffer],
                 sink := sink p @ [(src, r)],
                 frame_buf := Some r\<rparr>,
               [Reply (Done (Ok ()))])))"

definition player_teardown ::
  "('q, 'k, 'd, 'f) player \<Rightarrow> ('q, 'k, 'd, 'f) player_result" where
  "player_teardown p =
     Ok (p\<lparr>notify_shutdown := None, encryption := None, cipher := None, alac := None\<rparr>,
         (case notify_shutdown p of Some m \<Rightarrow> [DropNotify m] | None \<Rightarrow> []) @ [Reply (Done (Ok ()))])"

definition player_set_parameter ::
  "'f \<Rightarrow> ('q, 'k, 'd, 'f) player \<Rightarrow> ('q, 'k, 'd, 'f) player_result" where
  "player_set_parameter vol p = Ok (p\<lparr>airplay_volume := vol\<rparr>, [Reply (Done (Ok ()))])"

definition player_get_parameter ::
  "('q, 'k, 'd, 'f) player \<Rightarrow> ('q, 'k, 'd, 'f) player_result" where
  "player_get_parameter p = Ok (p, [Reply (Volume (airplay_volume p))])"

definition player_flush ::
  "'q seq_ops \<Rightarrow> rtp_info \<Rightarrow> ('q, 'k, 'd, 'f) player \<Rightarrow> ('q, 'k, 'd, 'f) player_result" where
  "player_flush Q info p =
     (case frame_buf p of
        Some r \<Rightarrow>
          (case flush_fb Q (buffers p ! r) (seq_of_u16 Q (rtp_seq info)) of
             Some fb \<Rightarrow> Ok (p\<lparr>buffers := (buffers p)[r := fb]\<rparr>, [Reply (Done (Ok ()))])
           | None \<Rightarrow> Hang)
      | None \<Rightarrow> Ok (p, [Reply (Done (Ok ()))]))"

section \<open>Audio packets\<close>

text \<open>\<open>len & !0xf\<close> on a 64-bit \<open>usize\<close>.\<close>

definition block_floor :: "nat \<Rightarrow> nat" where
  "block_floor len = unat ((word_of_nat len :: u64) AND NOT 0xF)"

definition decrypt_packet ::
  "('k, 'd) codec_ops \<Rightarrow> 'k \<Rightarrow> bytes \<Rightarrow> bytes \<Rightarrow> bytes outcome" where
  "decrypt_packet C ci iv packet =
     (let buffer = packet @ replicate 16 0;
          len = length packet;
          aeslen = block_floor len;
          be = 16 * (len div 16) + 16
      in and_then (slice buffer 0 be) (\<lambda>ciphertext.
         and_then (unwrap (cbc_decrypt C ci iv ciphertext)) (\<lambda>result.
         and_then (slice result aeslen len) (\<lambda>_.
         and_then (slice packet aeslen len) (\<lambda>tail.
           Ok (take aeslen result @ tail @ drop len result))))))"

text \<open>\<open>(i >> 16) as i16\<close> on an \<open>i32\<close>.\<close>

definition sample_to_i16 :: "i32 \<Rightarrow> i16" where
  "sample_to_i16 i = ucast (signed_drop_bit 16 i)"

definition store_packet ::
  "'q seq_ops \<Rightarrow> bool \<Rightarrow> 'q \<Rightarrow> i16 list \<Rightarrow> ('q, 'k, 'd, 'f) player \<Rightarrow> ('q, 'k, 'd, 'f) player_result" where
  "store_packet Q control_ok s data p =
     (case frame_buf p of
        Some r \<Rightarrow>
          (let (fb, missing_seqs) = add_packet Q (buffers p ! r) s data;
               p1 = p\<lparr>buffers := (buffers p)[r := fb]\<rparr>
           in if \<not> range_is_empty Q missing_seqs
              then (case control_tx p1 of
                      Some n \<Rightarrow> and_then (require SendError control_ok) (\<lambda>_.
                                  Ok (p1, [ControlSend n missing_seqs]))
                    | None \<Rightarrow> Ok (p1, []))
              else Ok (p1, []))
      | None \<Rightarrow> Ok (p, []))"

definition player_put_packet ::
  "'q seq_ops \<Rightarrow> ('k, 'd) codec_ops \<Rightarrow> bool \<Rightarrow> 'q \<Rightarrow> bytes \<Rightarrow> ('q, 'k, 'd, 'f) player \<Rightarrow>
   ('q, 'k, 'd, 'f) player_result" where
  "player_put_packet Q C control_ok s packet p =
     (case (encryption p, cipher p) of
        (Some enc, Some ci) \<Rightarrow>
          (let p0 = p\<lparr>encryption := None, cipher := None\<rparr> in
           and_then (from_slice 16 (aesiv enc)) (\<lambda>iv.
           and_then (decrypt_packet C ci iv packet) (\<lambda>result.
             case alac p0 of
               Some decoder \<Rightarrow>
                 (let (decoder', decoded) = alac_decode C decoder result (unat (alac_max_samples C decoder))
                  in and_then (unwrap decoded) (\<lambda>samples.
                     and_then (store_packet Q control_ok s (map sample_to_i16 samples)
                                 (p0\<lparr>alac := Some decoder'\<rparr>)) (\<lambda>(p1, effects).
                       Ok (p1\<lparr>encryption := Some enc, cipher := Some ci\<rparr>, effects))))
             | None \<Rightarrow> Panic)))
      | _ \<Rightarrow> Panic)"

section \<open>The loop\<close>

fun player_step ::
  "'q seq_ops \<Rightarrow> ('k, 'd) codec_ops \<Rightarrow> setup_net \<Rightarrow> bool \<Rightarrow> ('q, 'f) command \<Rightarrow>
   ('q, 'k, 'd, 'f) player \<Rightarrow> ('q, 'k, 'd, 'f) player_result" where
  "player_step Q C net control_ok (Announce a) p = player_announce C a p"
| "player_step Q C net control_ok (Setup s) p = player_setup net s p"
| "player_step Q C net control_ok (Record info) p = player_record Q info p"
| "player_step Q C net control_ok Teardown p = player_teardown p"
| "player_step Q C net control_ok (SetParameter vol) p = player_set_parameter vol p"
| "player_step Q C net control_ok GetParameter p = player_get_parameter p"
| "player_step Q C net control_ok (Flush info) p = player_flush Q info p"
| "player_step Q C net control_ok (PutPacket s packet) p = player_put_packet Q C control_ok s packet p"

text \<open>A command comes with what the environment answers while it is executed.\<close>

datatype ('q, 'f) player_event =
    Request "('q, 'f) command" setup_net bool
  | QueueClosed
  | StopPlayer

definition player_body ::
  "'q seq_ops \<Rightarrow> ('k, 'd) codec_ops \<Rightarrow> ('q, 'k, 'd, 'f) player \<Rightarrow> ('q, 'f) player_event \<Rightarrow>
   (('q, 'k, 'd, 'f) player, ('q, 'f) player_effect) step" where
  "player_body Q C p ev =
     (if is_shutdown (player_shutdown p) then Return (Ok ()) []
      else case ev of
        StopPlayer \<Rightarrow> Return (Ok ()) []
      | QueueClosed \<Rightarrow> Return (Ok ()) []
      | Request cmd net control_ok \<Rightarrow>
          (case player_step Q C net control_ok cmd p of
             Ok (p', effects) \<Rightarrow> Continue p' effects
           | Err e \<Rightarrow> Return (Err e) []
           | Panic \<Rightarrow> Return Panic []
           | Hang \<Rightarrow> Return Hang []))"

definition player_run ::
  "bool \<Rightarrow> bool \<Rightarrow> 'q seq_ops \<Rightarrow> ('k, 'd) codec_ops \<Rightarrow> 'f \<Rightarrow> ('q, 'f) player_event list \<Rightarrow>
   ('q, 'f) player_effect list \<times> ('q, 'k, 'd, 'f) player status" where
  "player_run stream_ok sink_ok Q C zero evs =
     (if \<not> stream_ok then ([], Finished Panic)
      else if \<not> sink_ok then ([], Finished Panic)
      else task_loop (player_body Q C) (player_new zero) evs)"

lemmas player_defs = player_announce_def player_setup_def player_record_def player_teardown_def
  player_set_parameter_def player_get_parameter_def player_flush_def player_put_packet_def
  store_packet_def

section \<open>Words: block boundaries and samples\<close>

lemma and_not_mask_eq: "(x :: u64) AND NOT 0xF = push_bit 4 (drop_bit 4 x)"
proof -
  have "(0xF :: u64) = mask 4" by (simp add: mask_eq_exp_minus_1)
  then show ?thesis unfolding \<open>0xF = mask 4\<close> by (auto intro!: bit_word_eqI simp: bit_simps)
qed

lemma block_floor_eq: "len < 2 ^ 64 \<Longrightarrow> block_floor len = 16 * (len div 16)"
proof -
  assume len: "len < 2 ^ 64"
  then have x: "unat (word_of_nat len :: u64) = len" by (simp add: unat_of_nat take_bit_nat_eq_self)
  have bound: "16 * (len div 16) < 2 ^ 64" by (rule le_less_trans[OF times_div_less_eq_dividend len])
  have "block_floor len = take_bit LENGTH(64) (push_bit 4 (drop_bit 4 (take_bit LENGTH(64) len)))"
    unfolding block_floor_def and_not_mask_eq by (simp only: unsigned_push_bit_eq unsigned_drop_bit_eq x)
  also have "\<dots> = 16 * (len div 16)"
    using len bound by (simp add: take_bit_nat_eq_self push_bit_eq_mult drop_bit_eq_div)
  finally show ?thesis .
qed

lemma sint_sample_to_i16: "sint (sample_to_i16 i) = sint i div 65536"
proof -
  have "- (2 ^ 31) \<le> sint i" "sint i < 2 ^ 31"
    using sint_greater_eq[of i] sint_less[of i] by simp_all
  then have "- (2 ^ 15) \<le> sint i div 65536" "sint i div 65536 < 2 ^ 15" by auto
  then have "signed_take_bit 15 (sint i div 65536) = sint i div 65536"
    by (intro signed_take_bit_int_eq_self) auto
  moreover have "sint (sample_to_i16 i) = signed_take_bit 15 (sint (signed_drop_bit 16 i))"
    by (simp add: sample_to_i16_def signed_ucast_eq sint_uint[of "signed_drop_bit 16 i"]
        signed_take_bit_signed_take_bit)
  ultimately show ?thesis by (simp add: sint_signed_drop_bit_eq drop_bit_eq_div)
qed

section \<open>The invariant of the player\<close>

text \<open>Every recording has one buffer and one source in the sink, in the order of the recordings, and
  the player writes to the newest; channel names are sessions that were opened; an encryption key
  is only kept together with its cipher and has the length AES-128 needs.\<close>

definition player_inv :: "('q, 'k, 'd, 'f) player \<Rightarrow> bool" where
  "player_inv p \<longleftrightarrow>
     \<not> is_shutdown (player_shutdown p) \<and>
     frame_buf p = (if buffers p = [] then None else Some (length (buffers p) - 1)) \<and>
     map snd (sink p) = [0..<length (buffers p)] \<and>
     list_all (\<lambda>x. fst x = \<lparr>channels = 2, sample_rate = 44100, current = None\<rparr>) (sink p) \<and>
     (\<forall>n. control_tx p = Some n \<longrightarrow> n < sessions p) \<and>
     (\<forall>n. notify_shutdown p = Some n \<longrightarrow> control_tx p = Some n) \<and>
     (\<forall>enc. encryption p = Some enc \<longrightarrow> length (aeskey enc) = 16 \<and> cipher p \<noteq> None)"

lemma player_inv_new: "player_inv (player_new z)"
  by (simp add: player_inv_def player_new_def)

text \<open>A reply that reports success.\<close>

fun reply_ok :: "'f reply \<Rightarrow> bool" where
  "reply_ok (Done r) = (r = Ok ())"
| "reply_ok (SetupDone r) = (case r of Ok _ \<Rightarrow> True | _ \<Rightarrow> False)"
| "reply_ok (Volume v) = True"

definition replies :: "('q, 'f) player_effect list \<Rightarrow> 'f reply list" where
  "replies os = concat (map (\<lambda>e. case e of Reply r \<Rightarrow> [r] | _ \<Rightarrow> []) os)"

definition is_packet :: "('q, 'f) command \<Rightarrow> bool" where
  "is_packet cmd = (case cmd of PutPacket _ _ \<Rightarrow> True | _ \<Rightarrow> False)"

lemma replies_simps [simp]:
  "replies [] = []" "replies (Reply r # os) = r # replies os"
  "replies (DropNotify n # os) = replies os" "replies (DropControl n # os) = replies os"
  "replies (SpawnTasks n s # os) = replies os" "replies (ControlSend n m # os) = replies os"
  "replies (os @ os') = replies os @ replies os'"
  by (simp_all add: replies_def)

lemma source_new_player [simp]:
  "source_new 2 44100 = Ok \<lparr>channels = 2, sample_rate = 44100, current = None\<rparr>"
  by (simp add: source_new_def)

lemma announce_ok:
  "player_announce C a p = Ok (p', os) \<longleftrightarrow>
     os = [Reply (Done (Ok ()))] \<and>
     (case announced_encryption a of
        None \<Rightarrow> p' = p\<lparr>encryption := None, alac := alac_new C (fmtp a)\<rparr>
      | Some enc \<Rightarrow> length (aeskey enc) = 16 \<and>
          p' = p\<lparr>encryption := Some enc, cipher := Some (aes_new C (aeskey enc)), alac := alac_new C (fmtp a)\<rparr>)"
  by (cases "announced_encryption a") (auto simp: player_announce_def from_slice_def)

lemma announce_inv: "player_announce C a p = Ok (p', os) \<Longrightarrow> player_inv p \<Longrightarrow> player_inv p'"
  by (cases "announced_encryption a") (simp_all add: announce_ok player_inv_def)

lemma setup_ok:
  "player_setup net s p = Ok (p', os) \<Longrightarrow>
   p' = p\<lparr>notify_shutdown := Some (sessions p), control_tx := Some (sessions p), sessions := Suc (sessions p)\<rparr> \<and>
   (\<exists>c t sv. local_c net = Some c \<and> local_t net = Some t \<and> local_s net = Some sv \<and>
     replies os = [SetupDone (Ok \<lparr>resp_control_port = c, resp_timing_port = t, resp_server_port = sv\<rparr>)])"
  unfolding player_setup_def outcome_iffs Let_def
  by (auto split: option.splits)

lemma setup_inv: "player_setup net s p = Ok (p', os) \<Longrightarrow> player_inv p \<Longrightarrow> player_inv p'"
  by (drule setup_ok) (auto simp: player_inv_def)

lemma record_inv: "player_record Q info p = Ok (p', os) \<Longrightarrow> player_inv p \<Longrightarrow> player_inv p'"
  unfolding player_record_def player_inv_def Let_def by clarsimp

lemma teardown_inv: "player_teardown p = Ok (p', os) \<Longrightarrow> player_inv p \<Longrightarrow> player_inv p'"
  unfolding player_teardown_def player_inv_def by clarsimp

lemma flush_frame:
  "player_flush Q info p = Ok (p', os) \<Longrightarrow>
   \<exists>bs. p' = p\<lparr>buffers := bs\<rparr> \<and> length bs = length (buffers p) \<and> os = [Reply (Done (Ok ()))]"
  by (cases p) (auto simp: player_flush_def split: option.splits)

lemma buffers_inv:
  "player_inv p \<Longrightarrow> length bs = length (buffers p) \<Longrightarrow> player_inv (p\<lparr>buffers := bs\<rparr>)"
  unfolding player_inv_def by (cases "buffers p = []") auto

lemma flush_inv: "player_flush Q info p = Ok (p', os) \<Longrightarrow> player_inv p \<Longrightarrow> player_inv p'"
  by (drule flush_frame) (auto intro: buffers_inv)

lemma store_packet_frame:
  "store_packet Q c s data p = Ok (p', os) \<Longrightarrow>
   \<exists>bs. p' = p\<lparr>buffers := bs\<rparr> \<and> length bs = length (buffers p) \<and> replies os = []"
  by (cases p) (auto simp: store_packet_def outcome_iffs Let_def split: option.splits if_splits prod.splits)

lemma alac_inv: "player_inv (p\<lparr>alac := d\<rparr>) = player_inv p"
  by (simp add: player_inv_def)

lemma put_packet_ok:
  assumes "player_put_packet Q C c s packet p = Ok (p', os)"
  obtains enc ci d d' result samples q where
    "encryption p = Some enc" "cipher p = Some ci" "alac p = Some d" "length (aesiv enc) = 16"
    "decrypt_packet C ci (aesiv enc) packet = Ok result"
    "alac_decode C d result (unat (alac_max_samples C d)) = (d', Some samples)"
    "store_packet Q c s (map sample_to_i16 samples)
       (p\<lparr>encryption := None, cipher := None, alac := Some d'\<rparr>) = Ok (q, os)"
    "p' = q\<lparr>encryption := Some enc, cipher := Some ci\<rparr>"
proof -
  obtain enc ci where key: "encryption p = Some enc" "cipher p = Some ci"
    using assms by (auto simp: player_put_packet_def split: option.splits)
  from assms have iv: "length (aesiv enc) = 16"
    by (simp add: player_put_packet_def key from_slice_def split: if_splits)
  with assms obtain result d where dec: "decrypt_packet C ci (aesiv enc) packet = Ok result" "alac p = Some d"
    by (auto simp: player_put_packet_def key from_slice_def and_then_eq_Ok split: option.splits)
  obtain d' out where alac: "alac_decode C d result (unat (alac_max_samples C d)) = (d', out)"
    by fastforce
  from assms obtain samples q where "out = Some samples"
    "store_packet Q c s (map sample_to_i16 samples)
       (p\<lparr>encryption := None, cipher := None, alac := Some d'\<rparr>) = Ok (q, os)"
    "p' = q\<lparr>encryption := Some enc, cipher := Some ci\<rparr>"
    by (auto simp: player_put_packet_def key iv dec alac from_slice_def outcome_iffs Let_def)
  with key dec iv alac show ?thesis by (intro that) auto
qed

lemma put_packet_frame:
  assumes "player_put_packet Q C c s packet p = Ok (p', os)"
  shows "\<exists>bs d. p' = p\<lparr>buffers := bs, alac := d\<rparr> \<and> length bs = length (buffers p) \<and> replies os = []"
  using assms by (rule put_packet_ok) (cases p, auto dest!: store_packet_frame)

lemma put_packet_inv:
  "player_put_packet Q C c s packet p = Ok (p', os) \<Longrightarrow> player_inv p \<Longrightarrow> player_inv p'"
  by (drule put_packet_frame) (auto simp: alac_inv intro: buffers_inv)

lemma set_parameter_inv: "player_set_parameter v p = Ok (p', os) \<Longrightarrow> player_inv p \<Longrightarrow> player_inv p'"
  unfolding player_set_parameter_def player_inv_def by clarsimp

lemma get_parameter_inv: "player_get_parameter p = Ok (p', os) \<Longrightarrow> player_inv p \<Longrightarrow> player_inv p'"
  by (simp add: player_get_parameter_def)

lemma player_step_inv: "player_step Q C net c cmd p = Ok (p', os) \<Longrightarrow> player_inv p \<Longrightarrow> player_inv p'"
  by (cases cmd) (auto intro: announce_inv setup_inv record_inv teardown_inv set_parameter_inv
      get_parameter_inv flush_inv put_packet_inv)

lemma player_step_replies:
  assumes "player_step Q C net c cmd p = Ok (p', os)"
  shows "list_all reply_ok (replies os) \<and> length (replies os) = (if is_packet cmd then 0 else 1)"
proof (cases cmd)
  case (PutPacket s packet)
  then show ?thesis using assms by (auto simp: is_packet_def dest!: put_packet_frame)
next
  case (Announce a)
  then show ?thesis using assms by (simp add: is_packet_def announce_ok)
next
  case (Setup s)
  then show ?thesis using assms by (auto simp: is_packet_def dest!: setup_ok)
next
  case (Flush info)
  then show ?thesis using assms by (auto simp: is_packet_def dest!: flush_frame)
qed (use assms in \<open>auto simp: is_packet_def player_record_def player_teardown_def
  player_set_parameter_def player_get_parameter_def Let_def split: option.splits\<close>)

lemma player_body_continue:
  assumes "player_body Q C p ev = Continue p' os"
  obtains cmd net c where "ev = Request cmd net c" "player_step Q C net c cmd p = Ok (p', os)"
  using assms by (auto simp: player_body_def split: if_splits player_event.splits outcome.splits prod.splits)

lemma player_body_return: "player_body Q C p ev = Return r os \<Longrightarrow> os = []"
  by (auto simp: player_body_def split: if_splits player_event.splits outcome.splits prod.splits)

lemma list_all_replies: "list_all reply_ok (replies os) \<longleftrightarrow> (\<forall>e \<in> set os. \<forall>r. e = Reply r \<longrightarrow> reply_ok r)"
  by (induction os) (auto simp: replies_def list_all_iff split: player_effect.splits)

lemma player_loop_inv:
  assumes "player_inv p" and "task_loop (player_body Q C) p evs = (os, st)"
  shows "list_all reply_ok (replies os) \<and> (case st of Waiting p' \<Rightarrow> player_inv p' | Finished r \<Rightarrow> True)"
proof -
  have "(\<forall>x \<in> set os. \<forall>r. x = Reply r \<longrightarrow> reply_ok r) \<and>
      (case st of Waiting p' \<Rightarrow> player_inv p' | Finished r \<Rightarrow> True)"
    by (rule task_loop_invariant[where I = player_inv and P = "\<lambda>x. \<forall>r. x = Reply r \<longrightarrow> reply_ok r"
          and Q = "\<lambda>_. True" and body = "player_body Q C", OF _ _ assms])
      (auto dest: player_body_return elim!: player_body_continue
        dest: player_step_inv player_step_replies[unfolded list_all_replies])
  then show ?thesis by (simp add: list_all_replies)
qed

section \<open>A recording\<close>

lemma store_packet_stores:
  assumes "frame_buf p = Some r"
  shows "\<exists>os. store_packet Q True s data p =
     Ok (p\<lparr>buffers := (buffers p)[r := fst (add_packet Q (buffers p ! r) s data)]\<rparr>, os)"
  by (cases "add_packet Q (buffers p ! r) s data")
    (simp add: store_packet_def assms Let_def split: option.splits)

text \<open>The decoder states \<open>D\<close> of a stream whose packets \<open>pk\<close> decode to \<open>pcm pk\<close>.\<close>

definition decodes ::
  "('k, 'd) codec_ops \<Rightarrow> 'k \<Rightarrow> bytes \<Rightarrow> ('d \<Rightarrow> bool) \<Rightarrow> (bytes \<Rightarrow> i32 list) \<Rightarrow> bytes \<Rightarrow> bool" where
  "decodes C ci iv D pcm pk \<longleftrightarrow>
     (\<forall>d. D d \<longrightarrow> (\<exists>clear d'. decrypt_packet C ci iv pk = Ok clear \<and> D d' \<and>
        alac_decode C d clear (unat (alac_max_samples C d)) = (d', Some (pcm pk))))"

definition pcm16 :: "(bytes \<Rightarrow> i32 list) \<Rightarrow> bytes \<Rightarrow> i16 list" where
  "pcm16 pcm pk = map sample_to_i16 (pcm pk)"

lemma put_packet_stores:
  assumes key: "encryption p = Some enc" "cipher p = Some ci" "length (aesiv enc) = 16"
    and dec: "alac p = Some d" "D d" "decodes C ci (aesiv enc) D pcm pk"
    and fb: "frame_buf p = Some r"
  shows "\<exists>os d'. D d' \<and> player_put_packet Q C True s pk p =
     Ok (p\<lparr>alac := Some d', buffers := (buffers p)[r := fst (add_packet Q (buffers p ! r) s (pcm16 pcm pk))]\<rparr>, os)"
proof -
  from dec obtain clear d' where d': "decrypt_packet C ci (aesiv enc) pk = Ok clear" "D d'"
      "alac_decode C d clear (unat (alac_max_samples C d)) = (d', Some (pcm pk))"
    unfolding decodes_def by blast
  let ?p = "p\<lparr>encryption := None, cipher := None, alac := Some d'\<rparr>"
  obtain os where "store_packet Q True s (map sample_to_i16 (pcm pk)) ?p =
      Ok (?p\<lparr>buffers := (buffers ?p)[r := fst (add_packet Q (buffers ?p ! r) s (map sample_to_i16 (pcm pk)))]\<rparr>, os)"
    using store_packet_stores[of ?p r Q s "map sample_to_i16 (pcm pk)"] fb by auto
  with key dec d' show ?thesis
    by (cases p) (auto simp: player_put_packet_def from_slice_def Let_def pcm16_def)
qed

definition packet_events :: "setup_net \<Rightarrow> ('q \<times> bytes) list \<Rightarrow> ('q, 'f) player_event list" where
  "packet_events net = map (\<lambda>(s, pk). Request (PutPacket s pk) net True)"

lemma packet_events_simps [simp]:
  "packet_events net [] = []"
  "packet_events net ((s, pk) # ps) = Request (PutPacket s pk) net True # packet_events net ps"
  by (simp_all add: packet_events_def)

lemma player_body_ok:
  "\<not> is_shutdown (player_shutdown p) \<Longrightarrow> player_step Q C net b cmd p = Ok (p', os) \<Longrightarrow>
   player_body Q C p (Request cmd net b) = Continue p' os"
  by (simp add: player_body_def)

lemma packets_stored:
  assumes key: "encryption p = Some enc" "cipher p = Some ci" "length (aesiv enc) = 16"
    and dec: "alac p = Some d" "D d" "\<forall>pk \<in> snd ` set arrivals. decodes C ci (aesiv enc) D pcm pk"
    and fb: "frame_buf p = Some r" "r < length (buffers p)"
    and sd: "\<not> is_shutdown (player_shutdown p)"
  shows "\<exists>os d'. task_loop (player_body Q C) p (packet_events net arrivals) =
     (os, Waiting (p\<lparr>alac := Some d', buffers := (buffers p)[r :=
        add_packets Q (buffers p ! r) (map (\<lambda>(s, pk). (s, pcm16 pcm pk)) arrivals)]\<rparr>))"
  using assms
proof (induction arrivals arbitrary: p d)
  case Nil
  then show ?case by (cases p) auto
next
  case (Cons x arrivals)
  obtain s pk where x: "x = (s, pk)" by fastforce
  let ?fb = "fst (add_packet Q (buffers p ! r) s (pcm16 pcm pk))"
  obtain os d1 where d1: "D d1" and
    "player_put_packet Q C True s pk p = Ok (p\<lparr>alac := Some d1, buffers := (buffers p)[r := ?fb]\<rparr>, os)"
    using put_packet_stores[where D = D and d = d and p = p and pk = pk] Cons.prems x by force
  moreover obtain os' d' where
    "task_loop (player_body Q C) (p\<lparr>alac := Some d1, buffers := (buffers p)[r := ?fb]\<rparr>) (packet_events net arrivals) =
     (os', Waiting (p\<lparr>alac := Some d', buffers := (buffers p)[r :=
        add_packets Q ?fb (map (\<lambda>(s, pk). (s, pcm16 pcm pk)) arrivals)]\<rparr>))"
    using Cons.IH[of "p\<lparr>alac := Some d1, buffers := (buffers p)[r := ?fb]\<rparr>" d1] Cons.prems d1 by auto
  ultimately show ?case
    using Cons.prems(9) by (auto simp: x player_body_ok)
qed

definition net_ok :: "setup_net \<Rightarrow> bool" where
  "net_ok net \<longleftrightarrow> bind_c net \<and> bind_t net \<and> bind_s net \<and> connect_c net \<and> connect_t net \<and>
     local_c net \<noteq> None \<and> local_t net \<noteq> None \<and> local_s net \<noteq> None"

lemma setup_succeeds:
  "net_ok net \<Longrightarrow> \<exists>os. player_setup net s p =
     Ok (p\<lparr>notify_shutdown := Some (sessions p), control_tx := Some (sessions p), sessions := Suc (sessions p)\<rparr>, os)"
  by (auto simp: net_ok_def player_setup_def Let_def)

text \<open>ANNOUNCE, SETUP and RECORD from the start of the player.\<close>

lemma recording_starts:
  fixes C :: "('k, 'd) codec_ops" and Q :: "'q seq_ops" and zero :: 'f
  assumes "announced_encryption a = Some enc" "length (aeskey enc) = 16"
    and "alac_new C (fmtp a) = Some d" and "net_ok net"
  shows "\<exists>os p. task_loop (player_body Q C) (player_new zero)
       [Request (Announce a) net b, Request (Setup s) net b, Request (Record info) net b] = (os, Waiting p) \<and>
     encryption p = Some enc \<and> cipher p = Some (aes_new C (aeskey enc)) \<and> alac p = Some d \<and>
     frame_buf p = Some 0 \<and> \<not> is_shutdown (player_shutdown p) \<and>
     buffers p = [frame_buffer_new (seq_of_u16 Q (rtp_seq info))] \<and>
     sink p = [(\<lparr>channels = 2, sample_rate = 44100, current = None\<rparr>, 0)]"
proof -
  define p1 where "p1 = (player_new zero :: ('q, 'k, 'd, 'f) player)\<lparr>encryption := Some enc,
    cipher := Some (aes_new C (aeskey enc)), alac := Some d\<rparr>"
  have 1: "player_announce C a (player_new zero) = Ok (p1, [Reply (Done (Ok ()))])"
    using assms by (simp add: announce_ok p1_def)
  obtain os where 2: "player_setup net s p1 = Ok (p1\<lparr>notify_shutdown := Some (sessions p1),
      control_tx := Some (sessions p1), sessions := Suc (sessions p1)\<rparr>, os)"
    using setup_succeeds[OF assms(4)] by blast
  show ?thesis
    using 1 2 by (simp add: player_body_def player_record_def Let_def p1_def player_new_def)
qed

text \<open>A volume that GET_PARAMETER reports.\<close>

fun volume_after :: "'f \<Rightarrow> ('q, 'f) player_event list \<Rightarrow> 'f" where
  "volume_after v [] = v"
| "volume_after v (Request (SetParameter w) net b # evs) = volume_after w evs"
| "volume_after v (e # evs) = volume_after v evs"

lemma volume_kept:
  assumes "player_step Q C net c cmd p = Ok (p', os)"
  shows "airplay_volume p' = (case cmd of SetParameter v \<Rightarrow> v | _ \<Rightarrow> airplay_volume p)"
proof (cases cmd)
  case (PutPacket s packet)
  then show ?thesis using assms by (auto dest!: put_packet_frame)
next
  case (Announce a)
  then show ?thesis using assms by (simp add: announce_ok split: option.splits)
next
  case (Setup s)
  then show ?thesis using assms by (auto dest!: setup_ok)
next
  case (Flush info)
  then show ?thesis using assms by (auto dest!: flush_frame)
qed (use assms in \<open>auto simp: player_record_def player_teardown_def
  player_set_parameter_def player_get_parameter_def Let_def\<close>)

lemma volume_run:
  "task_loop (player_body Q C) p evs = (os, Waiting p') \<Longrightarrow>
   airplay_volume p' = volume_after (airplay_volume p) evs \<and>
   (is_shutdown (player_shutdown p) \<longrightarrow> evs = [])"
proof (induction evs arbitrary: p os)
  case Nil
  then show ?case by simp
next
  case (Cons e evs)
  from Cons.prems obtain q os1 os2 where q: "player_body Q C p e = Continue q os1"
    and rest: "task_loop (player_body Q C) q evs = (os2, Waiting p')"
    by (auto split: step.splits prod.splits)
  from q obtain cmd net c where e: "e = Request cmd net c" "player_step Q C net c cmd p = Ok (q, os1)"
    by (rule player_body_continue)
  have "\<not> is_shutdown (player_shutdown p)" using q by (auto simp: player_body_def)
  then show ?case
    using Cons.IH[OF rest] volume_kept[OF e(2)] e(1) by (cases cmd) simp_all
qed

lemma teardown_clears:
  "player_inv p \<Longrightarrow> player_body Q C p (Request Teardown net c) =
     Continue (p\<lparr>notify_shutdown := None, encryption := None, cipher := None, alac := None\<rparr>)
       ((case notify_shutdown p of Some m \<Rightarrow> [DropNotify m] | None \<Rightarrow> []) @ [Reply (Done (Ok ()))])"
  by (simp add: player_body_def player_teardown_def player_inv_def)

definition command_count :: "('q, 'f) player_event list \<Rightarrow> nat" where
  "command_count evs =
     length (filter (\<lambda>e. case e of Request cmd _ _ \<Rightarrow> \<not> is_packet cmd | _ \<Rightarrow> False) evs)"

lemma replies_counted:
  "task_loop (player_body Q C) p evs = (os, Waiting p') \<Longrightarrow> length (replies os) = command_count evs"
proof (induction evs arbitrary: p os)
  case Nil
  then show ?case by (simp add: command_count_def)
next
  case (Cons e evs)
  from Cons.prems obtain q os1 os2 where q: "player_body Q C p e = Continue q os1"
    and rest: "task_loop (player_body Q C) q evs = (os2, Waiting p')" and os: "os = os1 @ os2"
    by (auto split: step.splits prod.splits)
  from q obtain cmd net c where e: "e = Request cmd net c" "player_step Q C net c cmd p = Ok (q, os1)"
    by (rule player_body_continue)
  then show ?case
    using Cons.IH[OF rest] player_step_replies[OF e(2)] by (simp add: os command_count_def)
qed

lemma decrypt_packet_cases:
  assumes "length packet < 2 ^ 64"
    and "cbc_decrypt C ci iv (take (16 * (length packet div 16) + 16) (packet @ replicate 16 0)) = Some result"
  shows "decrypt_packet C ci iv packet =
     (if length result < length packet then Panic
      else Ok (take (16 * (length packet div 16)) result @ drop (16 * (length packet div 16)) packet @
               drop (length packet) result))"
  using assms by (simp add: decrypt_packet_def block_floor_eq slice_def Let_def times_div_less_eq_dividend)

text \<open>The packets of a window, decoded as they arrive, are played in order.\<close>

lemma decoded_window_plays:
  assumes "seq_api Q" and arr: "set arrivals = set (zip (map (seq_plus Q s) [0..<length packets]) packets)"
    and len: "length packets \<le> 32768" and "current src = None"
  shows "source_play (pop_front Q) z n src
      (add_packets Q (frame_buffer_new s) (map (\<lambda>(s, pk). (s, pcm16 pcm pk)) arrivals)) =
    map Some (take n (concat (map (voiced z \<circ> pcm16 pcm) packets) @ replicate n z))"
proof -
  let ?packets = "map (pcm16 pcm) packets"
  have "set (map (\<lambda>(s, pk). (s, pcm16 pcm pk)) arrivals) =
      set (zip (map (seq_plus Q s) [0..<length ?packets]) ?packets)"
    by (simp add: arr zip_map2)
  then have "pending Q (add_packets Q (frame_buffer_new s)
      (map (\<lambda>(s, pk). (s, pcm16 pcm pk)) arrivals)) = ?packets"
    using len by (intro seq_api.pending_arrivals[OF assms(1)]) simp_all
  then show ?thesis by (simp add: play_frames stream_of_def assms(4))
qed

lemma setup_fails: "\<not> net_ok net \<Longrightarrow> player_setup net s p = Err IoError"
  by (cases "local_c net"; cases "local_t net"; cases "local_s net")
    (auto simp: net_ok_def player_setup_def require_def)

lemma setup_answers:
  assumes "net_ok net"
  shows "\<exists>os. player_setup net s p =
     Ok (p\<lparr>notify_shutdown := Some (sessions p), control_tx := Some (sessions p), sessions := Suc (sessions p)\<rparr>,
         os @ [Reply (SetupDone (Ok \<lparr>resp_control_port = the (local_c net),
                resp_timing_port = the (local_t net), resp_server_port = the (local_s net)\<rparr>))])"
  using assms by (force simp: net_ok_def player_setup_def Let_def)

section \<open>A concrete codec and network\<close>

text \<open>Used to evaluate the model: a cipher that adds the first byte of the key, with the
  removal of trailing zeros of \<open>ZeroPadding\<close> in the last block, and a format of one sample per byte.\<close>

definition byte_codec :: "(bytes, unit) codec_ops" where
  "byte_codec = \<lparr>aes_new = (\<lambda>key. key),
     cbc_decrypt = (\<lambda>key iv ct.
       let plain = map (\<lambda>b. b - hd key) ct; n = length plain - 16
       in Some (take n plain @ rev (dropWhile (\<lambda>b. b = 0) (rev (drop n plain))))),
     alac_new = (\<lambda>fmtp. if fmtp = [] then None else Some ()),
     alac_max_samples = (\<lambda>_. 352),
     alac_decode = (\<lambda>_ bs n. ((), if n < length bs then None else Some (map (\<lambda>b. push_bit 16 (ucast b)) bs)))\<rparr>"

definition up :: setup_net where
  "up = \<lparr>bind_c = True, bind_t = True, bind_s = True, connect_c = True, connect_t = True,
     local_c = Some 6001, local_t = Some 6002, local_s = Some 6003\<rparr>"

definition demo_announce :: announce where
  "demo_announce = \<lparr>fmtp = ''96'', minimum_latency = 0, maximum_latency = 0,
     announced_encryption = Some \<lparr>aesiv = replicate 16 1, aeskey = replicate 16 2\<rparr>\<rparr>"

definition demo_player :: "(u16, bytes, unit, nat) player" where
  "demo_player = (player_new 0)\<lparr>encryption := Some \<lparr>aesiv = replicate 16 1, aeskey = replicate 16 2\<rparr>,
     cipher := Some (replicate 16 2), alac := Some (), control_tx := Some 0, sessions := 1,
     frame_buf := Some 0, buffers := [frame_buffer_new 7]\<rparr>"

definition demo_pcm :: "bytes \<Rightarrow> i32 list" where
  "demo_pcm pk = map (\<lambda>b. push_bit 16 (ucast b)) (pk @ replicate (16 - length pk) 254)"

lemma demo_decodes:
  assumes "decrypt_packet byte_codec (replicate 16 2) (replicate 16 1) pk = Ok (pk @ replicate (16 - length pk) 254)"
    and "length pk \<le> 16"
  shows "decodes byte_codec (replicate 16 2) (replicate 16 1) (\<lambda>_. True) demo_pcm pk"
  using assms by (simp add: decodes_def byte_codec_def demo_pcm_def)

lemma demo_decoded:
  "decodes byte_codec (replicate 16 2) (replicate 16 1) (\<lambda>_. True) demo_pcm [5]"
  "decodes byte_codec (replicate 16 2) (replicate 16 1) (\<lambda>_. True) demo_pcm [6]"
  "decodes byte_codec (replicate 16 2) (replicate 16 1) (\<lambda>_. True) demo_pcm [7, 8]"
proof -
  have "decrypt_packet byte_codec (replicate 16 2) (replicate 16 1) [5] = Ok ([5] @ replicate 15 254)"
    "decrypt_packet byte_codec (replicate 16 2) (replicate 16 1) [6] = Ok ([6] @ replicate 15 254)"
    "decrypt_packet byte_codec (replicate 16 2) (replicate 16 1) [7, 8] = Ok ([7, 8] @ replicate 14 254)"
    by code_simp+
  then show
    "decodes byte_codec (replicate 16 2) (replicate 16 1) (\<lambda>_. True) demo_pcm [5]"
    "decodes byte_codec (replicate 16 2) (replicate 16 1) (\<lambda>_. True) demo_pcm [6]"
    "decodes byte_codec (replicate 16 2) (replicate 16 1) (\<lambda>_. True) demo_pcm [7, 8]"
    by (simp_all add: demo_decodes)
qed

section \<open>Properties of the player\<close>

text \<open>C16. In every run from the start, whatever the commands, the answers of the network and the
  audio codecs do: each reply that is sent reports success, and between two commands the player's
  state is consistent (one frame buffer and one source in the sink per recording, packets go to the
  newest one, channels belong to sessions that were opened, a key is only kept with its
  cipher and has 16 bytes). So the branches in which the request handler receives an error from
  the player (453 for ANNOUNCE, 451 for SETUP) are never taken.\<close>

theorem player_replies_success:
  "list_all reply_ok (replies (fst (player_run stream_ok sink_ok Q C zero evs))) \<and>
   (case snd (player_run stream_ok sink_ok Q C zero evs) of Waiting p \<Rightarrow> player_inv p | Finished r \<Rightarrow> True)"
proof (cases "player_run stream_ok sink_ok Q C zero evs")
  case (Pair os st)
  show ?thesis
  proof (cases "stream_ok \<and> sink_ok")
    case True
    then have "task_loop (player_body Q C) (player_new zero) evs = (os, st)"
      using Pair by (simp add: player_run_def)
    from player_loop_inv[OF player_inv_new this] show ?thesis by (simp add: Pair)
  next
    case False
    then show ?thesis by (auto simp: player_run_def)
  qed
qed

text \<open>As long as the player runs, every command of a request handler is answered exactly once,
  and audio packets are never answered: no handler waits forever on its reply channel.\<close>

theorem player_replies_once:
  assumes "player_run True True Q C zero evs = (os, Waiting p)"
  shows "length (replies os) = command_count evs"
  using assms by (simp add: player_run_def replies_counted)

theorem player_replies_once_witness:
  "length (replies (fst (player_run True True word_seq byte_codec (0 :: nat)
     [Request GetParameter up True, Request (Record \<lparr>rtp_seq = 7, rtptime = 0\<rparr>) up True,
      Request Teardown up True]))) = 3"
  using player_replies_once [of word_seq byte_codec "0 :: nat"
     "[Request GetParameter up True, Request (Record \<lparr>rtp_seq = 7, rtptime = 0\<rparr>) up True,
      Request Teardown up True]"]
  by (simp add: player_run_def player_body_def player_defs Let_def command_count_def is_packet_def player_new_def)

text \<open>GET_PARAMETER answers the volume of the last SET_PARAMETER before it, or the initial
  volume, whatever other commands and packets came in between.\<close>

theorem volume_is_last_set:
  assumes "player_run True True Q C zero evs = (os, Waiting p)"
  shows "player_run True True Q C zero (evs @ [Request GetParameter net c]) =
     (os @ [Reply (Volume (volume_after zero evs))], Waiting p)"
proof -
  have run: "task_loop (player_body Q C) (player_new zero) evs = (os, Waiting p)"
    using assms by (simp add: player_run_def)
  have "\<not> is_shutdown (player_shutdown p)"
    using player_loop_inv[OF player_inv_new run] by (simp add: player_inv_def)
  then have "player_body Q C p (Request GetParameter net c) =
      Continue p [Reply (Volume (airplay_volume p))]"
    by (simp add: player_body_ok player_get_parameter_def)
  moreover have "airplay_volume p = volume_after zero evs"
    using volume_run[OF run] by (simp add: player_new_def)
  ultimately show ?thesis by (simp add: player_run_def task_loop_append[OF run])
qed

theorem volume_is_last_set_witness:
  "fst (player_run True True word_seq byte_codec (0 :: nat)
     ([Request (SetParameter 3) up True, Request (SetParameter 5) up True, Request Teardown up True] @
      [Request GetParameter up True])) =
   [Reply (Done (Ok ())), Reply (Done (Ok ())), Reply (Done (Ok ())), Reply (Volume 5)]"
  by (subst volume_is_last_set [where os = "[Reply (Done (Ok ())), Reply (Done (Ok ())), Reply (Done (Ok ()))]"
        and p = "player_new 0\<lparr>airplay_volume := 5\<rparr>"])
     (simp_all add: player_run_def player_body_def player_defs player_new_def)

text \<open>C32. A packet that is still in the queue when TEARDOWN has been executed crashes the player:
  there is no key any more, and the branch for that is \<open>todo!()\<close>. The same holds for every packet of an
  unencrypted session.\<close>

theorem packet_after_teardown_panics:
  assumes "player_run True True Q C zero evs = (os, Waiting p)"
  shows "snd (player_run True True Q C zero
     (evs @ Request Teardown net c # Request (PutPacket s packet) net' c' # evs')) = Finished Panic"
proof -
  have run: "task_loop (player_body Q C) (player_new zero) evs = (os, Waiting p)"
    using assms by (simp add: player_run_def)
  have inv: "player_inv p" using player_loop_inv[OF player_inv_new run] by simp
  then have "player_body Q C (p\<lparr>notify_shutdown := None, encryption := None, cipher := None, alac := None\<rparr>)
      (Request (PutPacket s packet) net' c') = Return Panic []"
    by (simp add: player_body_def player_put_packet_def player_inv_def)
  then show ?thesis
    by (simp add: player_run_def task_loop_append[OF run] teardown_clears[OF inv])
qed

theorem packet_after_teardown_panics_witness:
  "snd (player_run True True word_seq byte_codec (0 :: nat)
     ([Request (Announce \<lparr>fmtp = ''96'', minimum_latency = 0, maximum_latency = 0, announced_encryption =
         Some \<lparr>aesiv = replicate 16 1, aeskey = replicate 16 2\<rparr>\<rparr>) up True] @
      Request Teardown up True # Request (PutPacket 7 [1, 2, 3]) up True # [])) = Finished Panic"
  by (rule packet_after_teardown_panics [where os = "[Reply (Done (Ok ()))]" and
        p = "player_new 0\<lparr>encryption := Some \<lparr>aesiv = replicate 16 1, aeskey = replicate 16 2\<rparr>,
               cipher := Some (replicate 16 2), alac := Some ()\<rparr>"])
     (simp add: player_run_def player_body_def player_announce_def from_slice_def player_new_def byte_codec_def)

text \<open>C29. Decryption of an audio packet shorter than \<open>2 ^ 64\<close> bytes whose ciphertext (the packet
  zero-padded into its next 16-byte block) decrypts to \<open>result\<close>: the whole blocks are the plaintext,
  the rest of at most 15 bytes is taken in the clear, and bytes of \<open>result\<close> beyond the packet stay
  behind it. The removal of trailing zeros may leave \<open>result\<close> shorter than the packet; then
  the player panics on the slice.\<close>

theorem decrypt_packet_spec:
  assumes "length packet < 2 ^ 64"
    and "cbc_decrypt C ci iv (take (16 * (length packet div 16) + 16) (packet @ replicate 16 0)) = Some result"
  shows "decrypt_packet C ci iv packet =
     (if length result < length packet then Panic
      else Ok (take (16 * (length packet div 16)) result @ drop (16 * (length packet div 16)) packet @
               drop (length packet) result))"
  by (rule decrypt_packet_cases [OF assms])

theorem decrypt_packet_spec_witness:
  "decrypt_packet byte_codec (replicate 16 1) (replicate 16 0) (replicate 16 3 @ [4, 5]) =
     Ok (replicate 16 2 @ [4, 5] @ replicate 14 255)"
proof -
  let ?packet = "replicate 16 3 @ [4, 5] :: bytes"
  let ?result = "replicate 16 2 @ [3, 4] @ replicate 14 255 :: bytes"
  have 1: "length ?packet < 2 ^ 64" by simp
  have 2: "cbc_decrypt byte_codec (replicate 16 1) (replicate 16 0)
      (take (16 * (length ?packet div 16) + 16) (?packet @ replicate 16 0)) = Some ?result" by code_simp
  show ?thesis
    by (subst decrypt_packet_spec [OF 1 2]) simp
qed


text \<open>A decoded 32-bit sample is played as its upper 16 bits: the floor of the sample
  divided by 65536 as signed numbers, which always fits.\<close>

theorem sample_conversion_is_floor:
  "sint (sample_to_i16 i) = sint i div 65536"
  by (rule sint_sample_to_i16)

text \<open>A session plays what was sent: after ANNOUNCE with a 16-byte key and vector, SETUP
  and RECORD, when the packets of the window that starts at RECORD's sequence number arrive in any order,
  each decrypting and decoding to \<open>pcm\<close>, the player keeps running and the source in the sink yields
  their samples (upper 16 bits) in sequence order, and silence afterwards.\<close>

theorem session_plays_stream:
  assumes "seq_api Q"
    and "announced_encryption a = Some enc" "length (aeskey enc) = 16" "length (aesiv enc) = 16"
    and "alac_new C (fmtp a) = Some d" "D d" and "net_ok net"
    and "mset arrivals =
      mset (zip (map (seq_plus Q (seq_of_u16 Q (rtp_seq info))) [0..<length packets]) packets)"
    and "length packets \<le> 32768"
    and "list_all (decodes C (aes_new C (aeskey enc)) (aesiv enc) D pcm) packets"
  shows "\<exists>os p src. player_run True True Q C zero
       ([Request (Announce a) net b, Request (Setup s) net b, Request (Record info) net b] @
        packet_events net arrivals) = (os, Waiting p) \<and>
     sink p = [(src, 0)] \<and>
     source_play (pop_front Q) 0 n src (buffers p ! 0) =
       map Some (take n (concat (map (voiced 0 \<circ> pcm16 pcm) packets) @ replicate n 0))"
proof -
  let ?start = "seq_of_u16 Q (rtp_seq info)"
  let ?arrived = "map (\<lambda>(s, pk). (s, pcm16 pcm pk)) arrivals"
  let ?src = "\<lparr>channels = 2, sample_rate = 44100, current = None\<rparr>"
  obtain os0 p0 where p0: "task_loop (player_body Q C) (player_new zero)
       [Request (Announce a) net b, Request (Setup s) net b, Request (Record info) net b] = (os0, Waiting p0)"
      "encryption p0 = Some enc" "cipher p0 = Some (aes_new C (aeskey enc))" "alac p0 = Some d"
      "frame_buf p0 = Some 0" "\<not> is_shutdown (player_shutdown p0)"
      "buffers p0 = [frame_buffer_new ?start]" "sink p0 = [(?src, 0)]"
    using recording_starts[OF assms(2,3,5,7), of Q zero b s info] by blast
  have "snd ` set arrivals = snd ` set (zip (map (seq_plus Q ?start) [0..<length packets]) packets)"
    using mset_eq_setD[OF assms(8)] by simp
  then have "snd ` set arrivals \<subseteq> set packets" by (auto dest: set_zip_rightD)
  then have dec: "\<forall>pk \<in> snd ` set arrivals. decodes C (aes_new C (aeskey enc)) (aesiv enc) D pcm pk"
    using assms(10) by (auto simp: list_all_iff)
  have "0 < length (buffers p0)" by (simp add: p0)
  then obtain os d' where run: "task_loop (player_body Q C) p0 (packet_events net arrivals) =
      (os, Waiting (p0\<lparr>alac := Some d', buffers := (buffers p0)[0 := add_packets Q (buffers p0 ! 0) ?arrived]\<rparr>))"
    using packets_stored[OF p0(2,3) assms(4) p0(4), of D arrivals C pcm 0 Q net] assms(6) dec p0(5,6) by blast
  show ?thesis
    unfolding player_run_def simp_thms if_False task_loop_append[OF p0(1)] run
    using decoded_window_plays[OF assms(1) mset_eq_setD[OF assms(8)] assms(9), where src = ?src and z = 0 and n = n and pcm = pcm]
    by (simp add: p0(7,8))
qed


theorem session_plays_stream_witness:
  "\<exists>os p src. player_run True True word_seq byte_codec (0 :: nat)
     ([Request (Announce demo_announce) up True,
       Request (Setup \<lparr>setup_ip = V4 [10, 0, 0, 1], setup_control_port = 5001, setup_timing_port = 5002\<rparr>) up True,
       Request (Record \<lparr>rtp_seq = 65535, rtptime = 0\<rparr>) up True] @
      packet_events up [(1, [7, 8]), (65535, [5]), (0, [6])]) = (os, Waiting p) \<and>
     sink p = [(src, 0)] \<and>
     source_play (pop_front word_seq) 0 3 src (buffers p ! 0) = map Some [5, 254, 254]"
proof -
  let ?packets = "[[5], [6], [7, 8]] :: bytes list"
  let ?s = "\<lparr>setup_ip = V4 [10, 0, 0, 1], setup_control_port = 5001, setup_timing_port = 5002\<rparr>"
  have "decrypt_packet byte_codec (replicate 16 2) (replicate 16 1) [5] = Ok ([5] @ replicate 15 254)"
    "decrypt_packet byte_codec (replicate 16 2) (replicate 16 1) [6] = Ok ([6] @ replicate 15 254)"
    "decrypt_packet byte_codec (replicate 16 2) (replicate 16 1) [7, 8] = Ok ([7, 8] @ replicate 14 254)"
    by code_simp+
  then have dec: "list_all (decodes byte_codec (aes_new byte_codec (replicate 16 2)) (replicate 16 1)
      (\<lambda>_. True) demo_pcm) ?packets"
    by (simp add: demo_decodes byte_codec_def [THEN arg_cong, of aes_new])
  have samples: "take 3 (concat (map (voiced 0 \<circ> pcm16 demo_pcm) ?packets) @ replicate 3 0) = [5, 254, 254]"
    by code_simp
  have arr: "mset [(1, [7, 8]), (65535, [5]), (0, [6])] = mset (zip (map (seq_plus word_seq
      (seq_of_u16 word_seq (rtp_seq \<lparr>rtp_seq = 65535, rtptime = 0\<rparr>))) [0..<length ?packets]) ?packets)"
    by (simp add: codec_simps upt_rec)
  show ?thesis
    unfolding samples [symmetric]
    by (rule session_plays_stream [where Q = word_seq and C = byte_codec and d = "()" and D = "\<lambda>_. True" and
          pcm = demo_pcm and enc = "\<lparr>aesiv = replicate 16 1, aeskey = replicate 16 2\<rparr>", OF word_seq.seq_api_axioms
          _ _ _ _ _ _ arr])
       (use dec in \<open>simp_all add: demo_announce_def net_ok_def up_def byte_codec_def\<close>)
qed


text \<open>C24. A gap before an arriving packet is reported to the control sender of the newest session:
  when the packet is 2 to 2^15 numbers ahead of the last one, it is stored under its number and the
  half-open range of the missing numbers is sent; when that channel is closed, the player ends
  with an error instead.\<close>

theorem gap_requested_from_sender:
  assumes "seq_api Q" and "\<not> is_shutdown (player_shutdown p)"
    and "encryption p = Some enc" "cipher p = Some ci" "length (aesiv enc) = 16"
    and "alac p = Some d" "D d" "decodes C ci (aesiv enc) D pcm pk"
    and "frame_buf p = Some r" "r < length (buffers p)" "control_tx p = Some n"
    and "w = write_marker (buffers p ! r)" "1 < seq_dist Q w s" "seq_dist Q w s \<le> 2 ^ 15"
  shows "(\<exists>p'. player_body Q C p (Request (PutPacket s pk) net True) =
       Continue p' [ControlSend n (seq_next Q w, s)] \<and>
     (s, pcm16 pcm pk) \<in> set (contents (buffers p' ! r))) \<and>
   player_body Q C p (Request (PutPacket s pk) net False) = Return (Err SendError) []"
proof -
  from assms(6-8) obtain clear d' where d': "decrypt_packet C ci (aesiv enc) pk = Ok clear"
      "alac_decode C d clear (unat (alac_max_samples C d)) = (d', Some (pcm pk))"
    unfolding decodes_def by blast
  have "seq_dist Q (seq_next Q w) s = seq_dist Q w s - 1"
    using assms(13) by (intro seq_api.missing_range[OF assms(1)]) simp
  then have gap: "seq_lt Q (seq_next Q w) s" "\<not> range_is_empty Q (seq_next Q w, s)"
    using assms(13,14) by (auto intro: seq_api.lt_near[OF assms(1)] simp: range_is_empty_def)
  have add: "add_packet Q (buffers p ! r) s xs = (fst (add_packet Q (buffers p ! r) s xs), (seq_next Q w, s))" for xs
    by (simp add: prod_eq_iff assms(12))
  show ?thesis
    by (simp add: player_body_def player_put_packet_def store_packet_def from_slice_def Let_def
        assms(2-6,9-11) d' gap pcm16_def case_prod_unfold add_packet_mem flip: assms(12))
qed

theorem gap_requested_from_sender_witness:
  "player_body word_seq byte_codec demo_player (Request (PutPacket 10 [1]) up False) = Return (Err SendError) []"
proof -
  have "decrypt_packet byte_codec (replicate 16 2) (replicate 16 1) [1] = Ok ([1] @ replicate 15 254)"
    by code_simp
  then have dec: "decodes byte_codec (replicate 16 2) (replicate 16 1) (\<lambda>_. True) demo_pcm [1]"
    by (simp add: demo_decodes)
  show ?thesis
    by (rule gap_requested_from_sender [OF word_seq.seq_api_axioms, where p = demo_player and d = "()" and
          w = 7 and r = 0 and D = "\<lambda>_. True" and pcm = demo_pcm and enc = "\<lparr>aesiv = replicate 16 1, aeskey = replicate 16 2\<rparr>", THEN conjunct2])
       (use dec in \<open>simp_all add: demo_player_def player_new_def seq_dist_def\<close>)
qed


text \<open>C33. SETUP opens a session exactly when all eight socket calls succeed: it replaces the shutdown and
  control channels by new ones (which ends the tasks of the previous session) and answers the three local
  ports. Any failing call ends the whole player with an I/O error, and the request is not answered.\<close>

theorem setup_failure_ends_player:
  assumes "\<not> is_shutdown (player_shutdown p)"
  shows "\<exists>os. player_body Q C p (Request (Setup s) net b) =
     (if net_ok net
      then Continue (p\<lparr>notify_shutdown := Some (sessions p), control_tx := Some (sessions p),
                       sessions := Suc (sessions p)\<rparr>)
             (os @ [Reply (SetupDone (Ok \<lparr>resp_control_port = the (local_c net),
                resp_timing_port = the (local_t net), resp_server_port = the (local_s net)\<rparr>))])
      else Return (Err IoError) [])"
  using assms setup_answers[of net s p] setup_fails[of net s p]
  by (cases "net_ok net") (auto simp: player_body_def)

theorem setup_failure_ends_player_witness:
  "player_body word_seq byte_codec (player_new (0 :: nat))
     (Request (Setup \<lparr>setup_ip = V4 [10, 0, 0, 1], setup_control_port = 5001, setup_timing_port = 5002\<rparr>)
        (up\<lparr>connect_t := False\<rparr>) True) = Return (Err IoError) []"
  using setup_failure_ends_player [of "player_new 0" word_seq byte_codec
     "\<lparr>setup_ip = V4 [10, 0, 0, 1], setup_control_port = 5001, setup_timing_port = 5002\<rparr>"
     "up\<lparr>connect_t := False\<rparr>" True]
  by (simp add: player_new_def net_ok_def)

text \<open>ANNOUNCE with a key that is not 16 bytes long panics in the middle of the player task;
  every other ANNOUNCE is answered and installs the key, the cipher and the decoder (no decoder for
  a format that does not parse, but an old cipher stays when there is no key).\<close>

lemma announce_panics_iff_bad_key:
  assumes "\<not> is_shutdown (player_shutdown p)"
  shows "player_body Q C p (Request (Announce a) net b) = Return Panic [] \<longleftrightarrow>
     (\<exists>enc. announced_encryption a = Some enc \<and> length (aeskey enc) \<noteq> 16)"
  using assms by (cases "announced_encryption a") (simp_all add: player_body_def player_announce_def from_slice_def)

text \<open>C34. Only the first recording is ever heard: in every reachable state of the player the sources in
  the sink belong to the recordings in order, packets go to the newest recording, and no source
  ever ends, however many samples are taken from it, so the sink never gets past its head.\<close>

theorem recordings_never_end:
  assumes "seq_api Q" and "player_run True True Q C zero evs = (os, Waiting p)"
  shows "map snd (sink p) = [0..<length (buffers p)] \<and>
     (buffers p \<noteq> [] \<longrightarrow> frame_buf p = Some (length (buffers p) - 1)) \<and>
     (\<forall>x \<in> set (sink p). None \<notin> set (source_play (pop_front Q) 0 n (fst x) fb))"
proof -
  have "task_loop (player_body Q C) (player_new zero) evs = (os, Waiting p)"
    using assms(2) by (simp add: player_run_def)
  then have "player_inv p" using player_loop_inv[OF player_inv_new] by fastforce
  then show ?thesis by (auto simp: player_inv_def play_frames)
qed

theorem recordings_never_end_witness:
  "\<exists>p. snd (player_run True True word_seq byte_codec (0 :: nat)
     [Request (Record \<lparr>rtp_seq = 7, rtptime = 0\<rparr>) up True,
      Request (Record \<lparr>rtp_seq = 9, rtptime = 0\<rparr>) up True]) = Waiting p \<and>
   length (sink p) = 2 \<and> frame_buf p = Some 1 \<and>
   None \<notin> set (source_play (pop_front word_seq) 0 100 (fst (hd (sink p))) (buffers p ! 0))"
proof -
  let ?src = "\<lparr>channels = 2, sample_rate = 44100, current = None\<rparr>"
  have "player_run True True word_seq byte_codec (0 :: nat)
     [Request (Record \<lparr>rtp_seq = 7, rtptime = 0\<rparr>) up True, Request (Record \<lparr>rtp_seq = 9, rtptime = 0\<rparr>) up True] =
    ([Reply (Done (Ok ())), Reply (Done (Ok ()))], Waiting ((player_new 0)\<lparr>
       buffers := [frame_buffer_new 7, frame_buffer_new 9], sink := [(?src, 0), (?src, 1)], frame_buf := Some 1\<rparr>))"
    by (simp add: player_run_def player_body_def player_record_def player_new_def)
  from this recordings_never_end [OF word_seq.seq_api_axioms this, of 100 "frame_buffer_new 7"]
  show ?thesis by simp
qed


end
