(* ===== verification/Connection.thy ===== *)
theory Connection
  imports Rust_Strings Player
begin

text \<open>
  The RTSP connection: src/src/rtsp/connection.rs. A connection buffers what it has read until the
  parser finds a whole message in it. The parser and the serialisation of messages are those of the crate
  \<open>rtsp-types\<close> and are parameters; what is relied on is the locale \<open>message_parser\<close>: a parser that
  decides on a prefix of the stream and does not change its mind when more bytes arrive. The
  framing of RTSP (head up to an empty line, \<open>Content-Length\<close> bytes of body) is given as an
  executable instance.
\<close>

section \<open>Parsing the buffer\<close>

datatype 'm parsed = Parsed 'm nat | Incomplete | Invalid

locale message_parser =
  fixes parse :: "bytes \<Rightarrow> 'm parsed"
  assumes consumes: "parse b = Parsed m n \<Longrightarrow> 0 < n \<and> n \<le> length b"
    and parsed_stable: "parse b = Parsed m n \<Longrightarrow> parse (b @ x) = Parsed m n"
    and invalid_stable: "parse b = Invalid \<Longrightarrow> parse (b @ x) = Invalid"
    and empty_incomplete: "parse [] = Incomplete"

record connection =
  buffer :: bytes
  stream_out :: bytes
  local_addr :: ip_addr
  peer_addr :: ip_addr

text \<open>\<open>Connection::new\<close>; both addresses are asked of the socket.\<close>

definition connection_new :: "ip_addr option \<Rightarrow> ip_addr option \<Rightarrow> connection outcome" where
  "connection_new local peer =
     and_then (ok_or IoError local) (\<lambda>l.
     and_then (ok_or IoError peer) (\<lambda>p.
       Ok \<lparr>buffer = [], stream_out = [], local_addr = l, peer_addr = p\<rparr>))"

definition parse_message ::
  "(bytes \<Rightarrow> 'm parsed) \<Rightarrow> connection \<Rightarrow> 'm option outcome \<times> connection" where
  "parse_message parse c =
     (case parse (buffer c) of
        Parsed message consumed \<Rightarrow> (Ok (Some message), c\<lparr>buffer := drop consumed (buffer c)\<rparr>)
      | Incomplete \<Rightarrow> (Ok None, c)
      | Invalid \<Rightarrow> (Err MessageError, c))"

section \<open>Reading and writing\<close>

text \<open>What the socket delivers: \<open>Chunk []\<close> is the end of the stream.\<close>

datatype read_event = Chunk bytes | ReadError

text \<open>\<open>read_message\<close> with the reads it may make; the first component is \<open>None\<close> while it waits, the
  last one what it has not read.\<close>

fun read_message ::
  "(bytes \<Rightarrow> 'm parsed) \<Rightarrow> connection \<Rightarrow> read_event list \<Rightarrow>
   'm option outcome option \<times> connection \<times> read_event list" where
  "read_message parse c [] =
     (case parse_message parse c of
        (Ok (Some message), c') \<Rightarrow> (Some (Ok (Some message)), c', [])
      | (Ok None, c') \<Rightarrow> (None, c', [])
      | (r, c') \<Rightarrow> (Some r, c', []))"
| "read_message parse c (ev # evs) =
     (case parse_message parse c of
        (Ok (Some message), c') \<Rightarrow> (Some (Ok (Some message)), c', ev # evs)
      | (Ok None, c') \<Rightarrow>
          (case ev of
             ReadError \<Rightarrow> (Some (Err IoError), c', evs)
           | Chunk d \<Rightarrow>
               if length d = 0
               then (if buffer c' = [] then (Some (Ok None), c', evs)
                     else (Some (Err ConnectionReset), c', evs))
               else read_message parse (c'\<lparr>buffer := buffer c' @ d\<rparr>) evs)
      | (r, c') \<Rightarrow> (Some r, c', ev # evs))"

text \<open>\<open>write_response\<close>: serialise, write, flush.\<close>

definition conn_write ::
  "('r \<Rightarrow> bytes option) \<Rightarrow> bool \<Rightarrow> 'r \<Rightarrow> connection \<Rightarrow> unit outcome \<times> connection" where
  "conn_write encode stream_ok response c =
     (case encode response of
        None \<Rightarrow> (Err WriteError, c)
      | Some bs \<Rightarrow> if stream_ok then (Ok (), c\<lparr>stream_out := stream_out c @ bs\<rparr>) else (Err IoError, c))"

text \<open>Up to \<open>k\<close> calls of \<open>read_message\<close>, until one does not return a message.\<close>

fun read_messages ::
  "nat \<Rightarrow> (bytes \<Rightarrow> 'm parsed) \<Rightarrow> connection \<Rightarrow> read_event list \<Rightarrow> 'm list \<times> 'm option outcome option" where
  "read_messages 0 parse c evs = ([], None)"
| "read_messages (Suc k) parse c evs =
     (case read_message parse c evs of
        (Some (Ok (Some m)), c', evs') \<Rightarrow>
          (let (ms, r) = read_messages k parse c' evs' in (m # ms, r))
      | (r, _, _) \<Rightarrow> ([], r))"

section \<open>Framing\<close>

text \<open>What the reader should see of a finished stream of bytes.\<close>

fun stream_messages ::
  "nat \<Rightarrow> (bytes \<Rightarrow> 'm parsed) \<Rightarrow> bytes \<Rightarrow> 'm list \<times> 'm option outcome option" where
  "stream_messages 0 parse b = ([], None)"
| "stream_messages (Suc k) parse b =
     (case parse b of
        Parsed m n \<Rightarrow> (let (ms, r) = stream_messages k parse (drop n b) in (m # ms, r))
      | Invalid \<Rightarrow> ([], Some (Err MessageError))
      | Incomplete \<Rightarrow> ([], Some (if b = [] then Ok None else Err ConnectionReset)))"

definition closing :: "bytes list \<Rightarrow> read_event list" where
  "closing ds = map Chunk ds @ [Chunk []]"

lemma closing_simps [simp]: "closing [] = [Chunk []]" "closing (d # ds) = Chunk d # closing ds"
  by (simp_all add: closing_def)

lemma parse_message_simps:
  "parse (buffer c) = Parsed m n \<Longrightarrow> parse_message parse c = (Ok (Some m), c\<lparr>buffer := drop n (buffer c)\<rparr>)"
  "parse (buffer c) = Incomplete \<Longrightarrow> parse_message parse c = (Ok None, c)"
  "parse (buffer c) = Invalid \<Longrightarrow> parse_message parse c = (Err MessageError, c)"
  by (simp_all add: parse_message_def)

context message_parser
begin

lemma read_parsed:
  assumes "parse (buffer c @ concat ds) = Parsed m n" "[] \<notin> set ds"
  shows "\<exists>c' ds'. read_message parse c (closing ds) = (Some (Ok (Some m)), c', closing ds') \<and>
     buffer c' @ concat ds' = drop n (buffer c @ concat ds) \<and> [] \<notin> set ds'"
  using assms
proof (induction ds arbitrary: c)
  case Nil
  then show ?case by (force simp: parse_message_simps intro: exI[of _ "[]"])
next
  case (Cons d ds)
  show ?case
  proof (cases "parse (buffer c)")
    case (Parsed m' n')
    then have "m' = m" "n' = n"
      using parsed_stable[OF Parsed, of "concat (d # ds)"] Cons.prems(1) by auto
    moreover have "n' \<le> length (buffer c)" using consumes[OF Parsed] by simp
    ultimately show ?thesis
      using Parsed Cons.prems(2) by (force simp: parse_message_simps intro: exI[of _ "d # ds"])
  next
    case Incomplete
    then show ?thesis using Cons.IH[of "c\<lparr>buffer := buffer c @ d\<rparr>"] Cons.prems
      by (auto simp: parse_message_simps)
  next
    case Invalid
    then show ?thesis using invalid_stable[OF Invalid, of "concat (d # ds)"] Cons.prems(1) by auto
  qed
qed

lemma read_invalid:
  assumes "parse (buffer c @ concat ds) = Invalid" "[] \<notin> set ds"
  shows "\<exists>c' evs. read_message parse c (closing ds) = (Some (Err MessageError), c', evs)"
  using assms
proof (induction ds arbitrary: c)
  case Nil
  then show ?case by (simp add: parse_message_simps)
next
  case (Cons d ds)
  show ?case
  proof (cases "parse (buffer c)")
    case (Parsed m' n')
    then show ?thesis using parsed_stable[OF Parsed, of "concat (d # ds)"] Cons.prems(1) by auto
  next
    case Incomplete
    then show ?thesis using Cons.IH[of "c\<lparr>buffer := buffer c @ d\<rparr>"] Cons.prems
      by (auto simp: parse_message_simps)
  next
    case Invalid
    then show ?thesis by (simp add: parse_message_simps)
  qed
qed

lemma read_incomplete:
  assumes "parse (buffer c @ concat ds) = Incomplete" "[] \<notin> set ds"
  shows "\<exists>c' evs. read_message parse c (closing ds) =
     (Some (if buffer c @ concat ds = [] then Ok None else Err ConnectionReset), c', evs)"
  using assms
proof (induction ds arbitrary: c)
  case Nil
  then show ?case by (simp add: parse_message_simps)
next
  case (Cons d ds)
  show ?case
  proof (cases "parse (buffer c)")
    case (Parsed m' n')
    then show ?thesis using parsed_stable[OF Parsed, of "concat (d # ds)"] Cons.prems(1) by auto
  next
    case Incomplete
    then show ?thesis using Cons.IH[of "c\<lparr>buffer := buffer c @ d\<rparr>"] Cons.prems
      by (auto simp: parse_message_simps)
  next
    case Invalid
    then show ?thesis using invalid_stable[OF Invalid, of "concat (d # ds)"] Cons.prems(1) by auto
  qed
qed

lemma read_all:
  "[] \<notin> set ds \<Longrightarrow> read_messages k parse c (closing ds) = stream_messages k parse (buffer c @ concat ds)"
proof (induction k arbitrary: c ds)
  case 0
  then show ?case by simp
next
  case (Suc k)
  show ?case
  proof (cases "parse (buffer c @ concat ds)")
    case (Parsed m n)
    then show ?thesis using read_parsed[OF Parsed Suc.prems] Suc.IH by fastforce
  next
    case Incomplete
    then show ?thesis using read_incomplete[OF Incomplete Suc.prems] by (auto split: if_splits)
  next
    case Invalid
    then show ?thesis using read_invalid[OF Invalid Suc.prems] by auto
  qed
qed

text \<open>Messages written one after another come out as written.\<close>

lemma stream_of_messages:
  assumes "\<And>m b. m \<in> set ms \<Longrightarrow> parse (enc m @ b) = Parsed m (length (enc m))"
  shows "stream_messages (Suc (length ms)) parse (concat (map enc ms)) = (ms, Some (Ok None))"
  using assms by (induction ms) (simp_all add: empty_incomplete del: stream_messages.simps(2) add: stream_messages.simps(2)[of "Suc _"] stream_messages.simps(2)[of 0])

end

section \<open>The framing of RTSP messages\<close>

text \<open>An executable instance: the head ends with the first empty line; a \<open>Content-Length\<close> header gives
  the length of the body. A message is its head and its body.\<close>

fun head_end :: "bytes \<Rightarrow> nat option" where
  "head_end [] = None"
| "head_end (x # xs) =
     (if take 4 (x # xs) = [13, 10, 13, 10] then Some 4 else map_option Suc (head_end xs))"

definition lower_ascii :: "string \<Rightarrow> string" where
  "lower_ascii s = map (\<lambda>c. let n = of_char c :: nat in if 65 \<le> n \<and> n \<le> 90 then char_of (n + 32) else c) s"

definition is_content_length :: "string \<Rightarrow> string option" where
  "is_content_length line =
     (case split_once (CHR '':'') line of
        Some (name, v) \<Rightarrow> if lower_ascii (str_trim name) = ''content-length'' then Some (str_trim v) else None
      | None \<Rightarrow> None)"

definition content_length :: "string \<Rightarrow> nat option" where
  "content_length head =
     (case List.map_filter is_content_length (str_lines head) of
        [] \<Rightarrow> Some 0
      | v # _ \<Rightarrow> parse_uint 64 v)"

definition rtsp_frame :: "bytes \<Rightarrow> (string \<times> bytes) parsed" where
  "rtsp_frame b =
     (case head_end b of
        None \<Rightarrow> Incomplete
      | Some h \<Rightarrow>
          (case content_length (str_of_bytes (take h b)) of
             None \<Rightarrow> Invalid
           | Some n \<Rightarrow>
               if length b < h + n then Incomplete
               else Parsed (str_of_bytes (take h b), take n (drop h b)) (h + n)))"

lemma head_end_bounds: "head_end b = Some h \<Longrightarrow> 0 < h \<and> h \<le> length b"
proof (induction b arbitrary: h)
  case Nil
  then show ?case by simp
next
  case (Cons x b)
  show ?case
  proof (cases "take 4 (x # b) = [13, 10, 13, 10]")
    case True
    then have "length (take 4 (x # b)) = 4" by simp
    then show ?thesis using Cons.prems True by simp
  next
    case False
    then show ?thesis using Cons by auto
  qed
qed

lemma head_end_append: "head_end b = Some h \<Longrightarrow> head_end (b @ x) = Some h"
proof (induction b arbitrary: h)
  case Nil
  then show ?case by simp
next
  case (Cons y b)
  show ?case
  proof (cases "take 4 (y # b) = [13, 10, 13, 10]")
    case True
    then have "length (take 4 (y # b)) = 4" by simp
    then have "take 4 ((y # b) @ x) = take 4 (y # b)" by simp
    then show ?thesis using Cons.prems True by simp
  next
    case False
    then obtain h' where h': "head_end b = Some h'" "h = Suc h'" using Cons.prems by auto
    have "3 < length (y # b)"
    proof (rule ccontr)
      assume "\<not> 3 < length (y # b)"
      moreover have "4 \<le> h' + 1" if "head_end b = Some h'" for b :: bytes and h'
        using that by (induction b arbitrary: h') (auto split: if_splits)
      ultimately show False using head_end_bounds[OF h'(1)] h'(1) by fastforce
    qed
    then have "take 4 ((y # b) @ x) = take 4 (y # b)" by simp
    then show ?thesis
      unfolding append_Cons head_end.simps(2) by (simp only: False if_False Cons.IH[OF h'(1)] h'(2) option.map)
  qed
qed

interpretation rtsp_frame: message_parser rtsp_frame
proof unfold_locales
  fix b m n x
  assume "rtsp_frame b = Parsed m n"
  then obtain h where h: "head_end b = Some h" "content_length (str_of_bytes (take h b)) = Some (n - h)"
      "h \<le> n" "n \<le> length b" "m = (str_of_bytes (take h b), take (n - h) (drop h b))"
    by (auto simp: rtsp_frame_def split: option.splits if_splits)
  then show "0 < n \<and> n \<le> length b" using head_end_bounds[OF h(1)] by simp
  show "rtsp_frame (b @ x) = Parsed m n"
    using h head_end_append[OF h(1), of x] by (simp add: rtsp_frame_def)
next
  fix b :: bytes and x
  assume "rtsp_frame b = Invalid"
  then obtain h where h: "head_end b = Some h" "content_length (str_of_bytes (take h b)) = None"
    by (auto simp: rtsp_frame_def split: option.splits if_splits)
  then show "rtsp_frame (b @ x) = Invalid"
    using head_end_append[OF h(1), of x] head_end_bounds[OF h(1)] by (simp add: rtsp_frame_def)
qed (simp add: rtsp_frame_def)

section \<open>Properties of the connection\<close>

text \<open>C14. Framing does not depend on how TCP splits the stream: whatever non-empty chunks the bytes
  of a connection arrive in, the messages read, and how reading ends, are those of parsing the whole
  stream; at its end there is a clean close if no byte is left, a reset error in the middle of a
  message, and an error where the parser rejects.\<close>

theorem framing_independent_of_chunks:
  assumes "message_parser parse" and "connection_new l p = Ok c" and "[] \<notin> set ds"
  shows "read_messages k parse c (closing ds) = stream_messages k parse (concat ds)"
  using message_parser.read_all [OF assms(1,3)] assms(2) by (auto simp: connection_new_def outcome_iffs)

theorem framing_independent_of_chunks_witness:
  "read_messages 2 rtsp_frame \<lparr>buffer = [], stream_out = [], local_addr = V4 [], peer_addr = V4 []\<rparr>
     (closing [[65, 13], [10, 13, 10, 66, 13, 10], [13]]) =
   ([(''A'' @ [CHR 0x0D, CHR 0x0A, CHR 0x0D, CHR 0x0A], [])], Some (Err ConnectionReset))"
proof -
  have "read_messages 2 rtsp_frame \<lparr>buffer = [], stream_out = [], local_addr = V4 [], peer_addr = V4 []\<rparr>
     (closing [[65, 13], [10, 13, 10, 66, 13, 10], [13]]) =
    stream_messages 2 rtsp_frame (concat [[65, 13], [10, 13, 10, 66, 13, 10], [13]])"
    by (rule framing_independent_of_chunks [where l = "Some (V4 [])" and p = "Some (V4 [])"])
       (simp_all add: rtsp_frame.message_parser_axioms connection_new_def)
  also have "\<dots> = ([(''A'' @ [CHR 0x0D, CHR 0x0A, CHR 0x0D, CHR 0x0A], [])], Some (Err ConnectionReset))"
    by code_simp
  finally show ?thesis .
qed

text \<open>Pipelined messages are received completely, once, and in order: when the peer sends the
  encodings of \<open>ms\<close> back to back and closes, reading returns exactly \<open>ms\<close> and then the clean end
  of the stream, however the bytes are split.\<close>

theorem pipelined_messages_received:
  assumes "message_parser parse" and "connection_new l p = Ok c" and "[] \<notin> set ds"
    and "concat ds = concat (map enc ms)"
    and "\<And>m b. m \<in> set ms \<Longrightarrow> parse (enc m @ b) = Parsed m (length (enc m))"
  shows "read_messages (Suc (length ms)) parse c (closing ds) = (ms, Some (Ok None))"
proof -
  have "buffer c = []" using assms(2) by (auto simp: connection_new_def outcome_iffs)
  then show ?thesis
    unfolding message_parser.read_all [OF assms(1,3)] assms(4)
    by (simp only: append_Nil message_parser.stream_of_messages [OF assms(1,5)])
qed

theorem pipelined_messages_received_witness:
  "fst (read_messages 3 rtsp_frame \<lparr>buffer = [], stream_out = [], local_addr = V4 [], peer_addr = V4 []\<rparr>
     (closing [[65, 13, 10], [13, 10, 66, 13, 10, 13], [10]])) =
   [(''A'' @ [CHR 0x0D, CHR 0x0A, CHR 0x0D, CHR 0x0A], []), (''B'' @ [CHR 0x0D, CHR 0x0A, CHR 0x0D, CHR 0x0A], [])]"
proof -
  let ?enc = "\<lambda>m. bytes_of_str (fst m) @ (snd m :: bytes)"
  let ?ms = "[(''A'' @ [CHR 0x0D, CHR 0x0A, CHR 0x0D, CHR 0x0A], []),
    (''B'' @ [CHR 0x0D, CHR 0x0A, CHR 0x0D, CHR 0x0A], [])] :: (string \<times> bytes) list"
  have 1: "concat [[65, 13, 10], [13, 10, 66, 13, 10, 13], [10]] = concat (map ?enc ?ms)" by code_simp
  have "list_all (\<lambda>m. rtsp_frame (?enc m) = Parsed m (length (?enc m))) ?ms" by code_simp
  then have 2: "\<And>m b. m \<in> set ?ms \<Longrightarrow> rtsp_frame (?enc m @ b) = Parsed m (length (?enc m))"
    by (auto simp: list_all_iff intro!: rtsp_frame.parsed_stable)
  have "read_messages (Suc (length ?ms)) rtsp_frame \<lparr>buffer = [], stream_out = [], local_addr = V4 [], peer_addr = V4 []\<rparr>
     (closing [[65, 13, 10], [13, 10, 66, 13, 10, 13], [10]]) = (?ms, Some (Ok None))"
    by (rule pipelined_messages_received [where l = "Some (V4 [])" and p = "Some (V4 [])", OF _ _ _ 1 2])
       (simp_all add: rtsp_frame.message_parser_axioms connection_new_def)
  then show ?thesis by (simp add: numeral_eq_Suc)
qed

end
