(* ===== verification/Base64.thy ===== *)
theory Base64
  imports Rust_Strings
begin

text \<open>
  Base64 with and without padding: src/src/base64.rs. The unpadded codec comes from the crate
  \<open>base64ct\<close> and is a parameter; the locale \<open>base64\<close> says what the program relies on. The
  second half gives the RFC 4648 codec as an executable instance of that interface.
\<close>

record b64_ops =
  b64_decode :: "string \<Rightarrow> bytes option"
  b64_encode :: "bytes \<Rightarrow> string"

locale base64 =
  fixes B :: b64_ops
  assumes decode_encode: "b64_decode B (b64_encode B bs) = Some bs"
    and no_padding: "CHR ''='' \<notin> set (b64_encode B bs)"

section \<open>The wrappers\<close>

definition decode_base64 :: "b64_ops \<Rightarrow> string \<Rightarrow> bytes outcome" where
  "decode_base64 B input =
     (let actual_input = (case find_char (CHR ''='') input of
                            Some index \<Rightarrow> take index input
                          | None \<Rightarrow> input)
      in ok_or Base64Error (b64_decode B actual_input))"

definition encode_base64 :: "b64_ops \<Rightarrow> bytes \<Rightarrow> string" where
  "encode_base64 B input = b64_encode B input"

lemma decode_base64_unpadded:
  "CHR ''='' \<notin> set s \<Longrightarrow> decode_base64 B s = ok_or Base64Error (b64_decode B s)"
  by (simp add: decode_base64_def find_char_None[THEN iffD2])

lemma decode_base64_padded:
  "CHR ''='' \<notin> set s \<Longrightarrow> decode_base64 B (s @ CHR ''='' # junk) = decode_base64 B s"
  by (simp add: decode_base64_def find_char_append find_char_None[THEN iffD2])

lemma decode_base64_no_panic [simp]: "decode_base64 B s \<noteq> Panic"
  by (simp add: decode_base64_def Let_def)

section \<open>RFC 4648\<close>

definition b64_char :: "nat \<Rightarrow> char" where
  "b64_char n = char_of (if n < 26 then 65 + n else if n < 52 then 71 + n
     else if n < 62 then n - 4 else if n = 62 then 43 else 47)"

definition b64_val :: "char \<Rightarrow> nat option" where
  "b64_val c = (let k = of_char c in
     if 65 \<le> k \<and> k \<le> 90 then Some (k - 65) else if 97 \<le> k \<and> k \<le> 122 then Some (k - 71)
     else if 48 \<le> k \<and> k \<le> 57 then Some (k + 4) else if k = 43 then Some 62
     else if k = 47 then Some 63 else None)"

lemma b64_val_char [simp]: "n < 64 \<Longrightarrow> b64_val (b64_char n) = Some n"
  by (auto simp: b64_val_def b64_char_def Let_def)

lemma b64_char_not_pad: "n < 64 \<Longrightarrow> b64_char n \<noteq> CHR ''=''"
  using b64_val_char[of n] by (auto simp: b64_val_def)

fun b64_enc :: "bytes \<Rightarrow> string" where
  "b64_enc [] = []"
| "b64_enc [a] = (let n = unat a in [b64_char (n div 4), b64_char (16 * (n mod 4))])"
| "b64_enc [a, b] = (let n = 256 * unat a + unat b in
     [b64_char (n div 16 div 64), b64_char (n div 16 mod 64), b64_char (4 * (n mod 16))])"
| "b64_enc (a # b # c # bs) = (let n = 256 * (256 * unat a + unat b) + unat c in
     [b64_char (n div 64 div 64 div 64), b64_char (n div 64 div 64 mod 64),
      b64_char (n div 64 mod 64), b64_char (n mod 64)] @ b64_enc bs)"

fun b64_vals :: "string \<Rightarrow> nat list option" where
  "b64_vals [] = Some []"
| "b64_vals (c # cs) = (case (b64_val c, b64_vals cs) of
     (Some v, Some vs) \<Rightarrow> Some (v # vs) | _ \<Rightarrow> None)"

fun b64_pack :: "nat list \<Rightarrow> bytes option" where
  "b64_pack [] = Some []"
| "b64_pack [w] = None"
| "b64_pack [w, x] = (if x mod 16 = 0 then Some [word_of_nat ((64 * w + x) div 16)] else None)"
| "b64_pack [w, x, y] = (let n = (64 * (64 * w + x) + y) div 4 in
     if y mod 4 = 0 then Some [word_of_nat (n div 256), word_of_nat (n mod 256)] else None)"
| "b64_pack (w # x # y # z # vs) = (let n = 64 * (64 * (64 * w + x) + y) + z in
     map_option (\<lambda>bs. word_of_nat (n div 256 div 256) # word_of_nat (n div 256 mod 256) #
       word_of_nat (n mod 256) # bs) (b64_pack vs))"

definition rfc4648 :: b64_ops where
  "rfc4648 = \<lparr>b64_decode = (\<lambda>s. Option.bind (b64_vals s) b64_pack), b64_encode = b64_enc\<rparr>"

lemma unat_u8: "unat (b :: u8) < 256"
  using unsigned_less[of b] by simp

lemma byte_split: "(c :: nat) < 256 \<Longrightarrow> (256 * m + c) div 256 = m" "(c :: nat) < 256 \<Longrightarrow> (256 * m + c) mod 256 = c"
  by simp_all

lemma rfc4648_roundtrip: "Option.bind (b64_vals (b64_enc bs)) b64_pack = Some bs"
proof (induction bs rule: b64_enc.induct)
  case (2 a)
  show ?case using unat_u8[of a] by (simp add: Let_def less_mult_imp_div_less)
next
  case (3 a b)
  let ?n = "256 * unat a + unat b"
  have "?n < 65536" using unat_u8[of a] unat_u8[of b] by simp
  then have "?n div 16 div 64 < 64" by (simp add: less_mult_imp_div_less)
  moreover have "(64 * (64 * (?n div 16 div 64) + ?n div 16 mod 64) + 4 * (?n mod 16)) div 4 = ?n"
    by (simp add: mult_div_mod_eq)
  moreover have "?n div 256 = unat a" "?n mod 256 = unat b" using unat_u8[of b] by simp_all
  ultimately show ?case by (simp add: Let_def)
next
  case (4 a b c bs)
  let ?n = "256 * (256 * unat a + unat b) + unat c"
  have "?n < 16777216" using unat_u8[of a] unat_u8[of b] unat_u8[of c] by simp
  then have "?n div 64 div 64 div 64 < 64" by (simp add: less_mult_imp_div_less)
  moreover have "64 * (64 * (64 * (?n div 64 div 64 div 64) + ?n div 64 div 64 mod 64) + ?n div 64 mod 64) + ?n mod 64 = ?n"
    by (simp only: mult_div_mod_eq)
  moreover have "?n div 256 = 256 * unat a + unat b" "?n mod 256 = unat c"
    by (rule byte_split[OF unat_u8])+
  moreover have "(256 * unat a + unat b) div 256 = unat a" "(256 * unat a + unat b) mod 256 = unat b"
    using unat_u8[of b] by simp_all
  ultimately show ?case using 4 by (auto simp: Let_def bind_eq_Some_conv)
qed simp

lemma rfc4648_no_padding: "CHR ''='' \<notin> set (b64_enc bs)"
proof (induction bs rule: b64_enc.induct)
  case (2 a)
  show ?case
    using unat_u8[of a] b64_char_not_pad[of "unat a div 4"] b64_char_not_pad[of "16 * (unat a mod 4)"]
    by (simp add: Let_def less_mult_imp_div_less)
next
  case (3 a b)
  have "256 * unat a + unat b < 65536" using unat_u8[of a] unat_u8[of b] by simp
  then have "(256 * unat a + unat b) div 16 div 64 < 64" by (simp add: less_mult_imp_div_less)
  then show ?case
    using b64_char_not_pad[of "(256 * unat a + unat b) div 16 div 64"]
      b64_char_not_pad[of "(256 * unat a + unat b) div 16 mod 64"]
      b64_char_not_pad[of "4 * ((256 * unat a + unat b) mod 16)"] by (simp add: Let_def)
next
  case (4 a b c bs)
  let ?n = "256 * (256 * unat a + unat b) + unat c"
  have "?n < 16777216" using unat_u8[of a] unat_u8[of b] unat_u8[of c] by simp
  then have "?n div 64 div 64 div 64 < 64" by (simp add: less_mult_imp_div_less)
  then show ?case
    using 4 b64_char_not_pad[of "?n div 64 div 64 div 64"] b64_char_not_pad[of "?n div 64 div 64 mod 64"]
      b64_char_not_pad[of "?n div 64 mod 64"] b64_char_not_pad[of "?n mod 64"] by (simp add: Let_def)
qed simp

interpretation rfc4648: base64 rfc4648
  by unfold_locales (simp_all only: rfc4648_def b64_ops.simps rfc4648_roundtrip rfc4648_no_padding not_False_eq_True)

lemma decode_encoded:
  assumes "base64 B" and "pad = [] \<or> hd pad = CHR ''=''"
  shows "decode_base64 B (encode_base64 B bs @ pad) = Ok bs"
proof -
  have plain: "decode_base64 B (encode_base64 B bs) = Ok bs"
    using base64.no_padding [OF assms(1)] base64.decode_encode [OF assms(1)]
    by (simp add: encode_base64_def decode_base64_unpadded)
  show ?thesis
  proof (cases pad)
    case Nil
    then show ?thesis using plain by simp
  next
    case (Cons c junk)
    then show ?thesis
      using plain assms(2) base64.no_padding [OF assms(1)]
      by (simp add: encode_base64_def decode_base64_padded)
  qed
qed

text \<open>C40. Decoding accepts what encoding produces, whether or not the peer pads it: after the
  encoded text anything that starts with an equals sign is ignored.\<close>

theorem base64_roundtrip_any_padding:
  assumes "base64 B" and "pad = [] \<or> hd pad = CHR ''=''"
  shows "decode_base64 B (encode_base64 B bs @ pad) = Ok bs"
  using assms by (rule decode_encoded)

theorem base64_roundtrip_any_padding_witness:
  "decode_base64 rfc4648 (encode_base64 rfc4648 [0xFF, 0, 0x41, 7] @ ''=='') = Ok [0xFF, 0, 0x41, 7]"
  by (rule base64_roundtrip_any_padding [OF rfc4648.base64_axioms]) simp

end
