(* ===== verification/Mdns.thy ===== *)
theory Mdns
  imports Rust_Strings Shutdown
begin

text \<open>
  The configuration of the receiver and its mDNS advertisement: \<open>Configuration\<close> of
  src/src/main.rs and src/src/mdns.rs. The MD5 digest (crate \<open>md-5\<close>) and the responder
  (crate \<open>libmdns\<close>) are parameters: a function to a 16-byte digest, and whether the
  responder could be created.
\<close>

record configuration =
  cfg_port :: u16
  cfg_name :: string
  hw_addr :: bytes

text \<open>\<open>main\<close>: the hardware address is the first six bytes of the digest of the name.\<close>

definition main_config :: "(bytes \<Rightarrow> bytes) \<Rightarrow> u16 \<Rightarrow> string \<Rightarrow> configuration" where
  "main_config md5 p n =
     (let name_digest = md5 (bytes_of_str n)
      in \<lparr>cfg_port = p, cfg_name = n,
          hw_addr = [name_digest ! 0, name_digest ! 1, name_digest ! 2,
                     name_digest ! 3, name_digest ! 4, name_digest ! 5]\<rparr>)"

text \<open>The parsed command line (crate \<open>clap\<close>), and its defaults.\<close>

record cli_opts =
  opt_port :: u16
  opt_name :: string

definition default_opts :: cli_opts where
  "default_opts = \<lparr>opt_port = 0, opt_name = ''Airguitar''\<rparr>"

text \<open>\<open>main\<close> up to \<open>server::run\<close>: \<open>bind\<close> is what the operating system does with the address, \<open>Some l\<close> a listener.\<close>

definition main_listen ::
  "bool \<Rightarrow> (bytes \<Rightarrow> bytes) \<Rightarrow> cli_opts \<Rightarrow> (string \<Rightarrow> 'l option) \<Rightarrow> (configuration \<times> 'l) outcome" where
  "main_listen tracing_ok md5 opts bind =
     and_then (require InitError tracing_ok) (\<lambda>_.
       let config = main_config md5 (opt_port opts) (opt_name opts)
       in and_then (ok_or IoError (bind (''0.0.0.0:'' @ show_nat (unat (cfg_port config))))) (\<lambda>listener.
            Ok (config, listener)))"

definition mdns_hw_addr :: "configuration \<Rightarrow> string" where
  "mdns_hw_addr config = concat (map hex_byte (hw_addr config))"

definition mdns_service_name :: "configuration \<Rightarrow> string" where
  "mdns_service_name config = mdns_hw_addr config @ CHR ''@'' # cfg_name config"

definition mdns_txt :: "string list" where
  "mdns_txt = [''sf=0x4'', ''fv=76400.10'', ''am=Airguitar'', ''vs=105.1'', ''tp=TCP,UDP'',
     ''vn=65537'', ''ss=16'', ''sr=44100'', ''da=true'', ''sv=false'', ''et=0,1'', ''ek=1'',
     ''cn=0,1'', ''ch=2'', ''txtvers=1'', ''pw=false'']"

record mdns_service =
  service_type :: string
  service_name :: string
  service_port :: u16
  service_txt :: "string list"

definition mdns_register :: "configuration \<Rightarrow> u16 \<Rightarrow> mdns_service" where
  "mdns_register config port =
     \<lparr>service_type = ''_raop._tcp'', service_name = mdns_service_name config,
      service_port = port, service_txt = mdns_txt\<rparr>"

text \<open>The loop of \<open>run\<close> after the registration: its only event is the shutdown notice, on which
  the body returns.\<close>

definition mdns_body :: "shutdown_state \<Rightarrow> unit \<Rightarrow> (shutdown_state, mdns_service) step" where
  "mdns_body sd ev = Return (Ok ()) []"

text \<open>The task with what it was started with.\<close>

record mdns =
  mdns_config :: configuration
  mdns_port :: u16
  mdns_shutdown :: shutdown_state

definition mdns_run :: "bool \<Rightarrow> mdns \<Rightarrow> unit list \<Rightarrow> mdns_service list \<times> shutdown_state status" where
  "mdns_run responder_ok m evs =
     (if \<not> responder_ok then ([], Finished (Err IoError))
      else (let (os, st) = task_loop mdns_body (mdns_shutdown m) evs
            in (mdns_register (mdns_config m) (mdns_port m) # os, st)))"

lemma length_hex_byte [simp]: "length (hex_byte b) = 2"
  by (simp add: hex_byte_def)

lemma length_hex_bytes: "length (concat (map hex_byte bs)) = 2 * length bs"
  by (induction bs) simp_all

lemma hex_byte_inj: "hex_byte a = hex_byte b \<Longrightarrow> a = b"
  by (metis hex_byte_inverse)

lemma hex_bytes_inj:
  "concat (map hex_byte as) = concat (map hex_byte bs) \<Longrightarrow> as = bs"
proof (induction as arbitrary: bs)
  case Nil
  then show ?case by (cases bs) (auto simp: hex_byte_def)
next
  case (Cons a as)
  then obtain b bs' where bs: "bs = b # bs'" by (cases bs) (auto simp: hex_byte_def)
  with Cons.prems have "hex_byte a = hex_byte b \<and> concat (map hex_byte as) = concat (map hex_byte bs')"
    by (simp add: append_eq_append_conv)
  then show ?case using Cons.IH hex_byte_inj bs by blast
qed

text \<open>The advertised service name is twelve hexadecimal digits, an at sign and the configured
  name, and it determines both: two configurations made by \<open>main\<close> advertise the same service
  name only if their hardware address and name agree.\<close>

theorem service_name_identifies:
  assumes "c1 = main_config md5 p1 n1" and "c2 = main_config md5 p2 n2"
  shows "mdns_service_name c1 = take 12 (mdns_service_name c1) @ CHR ''@'' # n1 \<and>
         length (mdns_hw_addr c1) = 12 \<and>
         (mdns_service_name c1 = mdns_service_name c2 \<longleftrightarrow> hw_addr c1 = hw_addr c2 \<and> n1 = n2)"
proof -
  have len: "length (mdns_hw_addr c1) = 12" "length (mdns_hw_addr c2) = 12"
    by (simp_all add: assms mdns_hw_addr_def main_config_def Let_def)
  have n: "cfg_name c1 = n1" "cfg_name c2 = n2" by (simp_all add: assms main_config_def Let_def)
  have "mdns_service_name c1 = mdns_service_name c2 \<longleftrightarrow> mdns_hw_addr c1 = mdns_hw_addr c2 \<and> n1 = n2"
    by (simp add: mdns_service_name_def n append_eq_append_conv len)
  also have "mdns_hw_addr c1 = mdns_hw_addr c2 \<longleftrightarrow> hw_addr c1 = hw_addr c2"
    unfolding mdns_hw_addr_def by (auto dest: hex_bytes_inj)
  finally show ?thesis by (simp add: len mdns_service_name_def n)
qed

theorem service_name_identifies_witness:
  "mdns_service_name (main_config (\<lambda>_. [0xAB, 0, 1, 0x7F, 0xFF, 0x10, 9, 9, 9, 9, 9, 9, 9, 9, 9, 9]) 0 ''Airguitar'')
     \<noteq> mdns_service_name (main_config (\<lambda>_. [0xAB, 0, 1, 0x7F, 0xFF, 0x10, 9, 9, 9, 9, 9, 9, 9, 9, 9, 9]) 0 ''B'')"
  using service_name_identifies [OF refl refl,
    of "\<lambda>_. [0xAB, 0, 1, 0x7F, 0xFF, 0x10, 9, 9, 9, 9, 9, 9, 9, 9, 9, 9]" 0 "''Airguitar''" 0 "''B''"]
  by simp

end
