(* ===== verification/Handler.thy ===== *)
theory Handler
  imports Connection Base64 Mdns Rtp_Info
begin

text \<open>
  The RTSP request handler: src/src/rtsp/handler.rs. Every method is one function over the state \<open>'w\<close>
  of the world it talks to: the player behind the command channel and the connection the responses
  are written to, as the record of operations \<open>world_ops\<close>. What the handler relies on is the
  locale \<open>player_service\<close>; it is interpreted by the models of the player and of the
  connection in the theory \<open>Player_Service\<close>. Requests and responses keep what the code reads and builds; the
  parsers of SDP and of the transport header, RSA and floating-point numbers are parameters.
\<close>

section \<open>Requests and responses\<close>

datatype rtsp_method =
    OPTIONS | SETUP | GET_PARAMETER | SET_PARAMETER | ANNOUNCE | RECORD | TEARDOWN
  | EXTENSION string | DESCRIBE | PAUSE | PLAY | PLAY_NOTIFY | REDIRECT

datatype header_name =
    CSEQ | SERVER | PUBLIC | TRANSPORT | SESSION | CONTENT_TYPE | RTP_INFO | CONNECTION
  | APPLE_CHALLENGE | APPLE_RESPONSE | AUDIO_LATENCY | OTHER_HEADER string

record request =
  req_method :: rtsp_method
  req_header :: "header_name \<Rightarrow> string option"
  req_body :: bytes

text \<open>Transport header: the fields the handler sets or reads.\<close>

datatype profile = Avp | OtherProfile
datatype lower_transport = Udp | OtherLowerTransport
datatype transport_mode = RecordMode | OtherMode

record transport_params =
  unicast :: bool
  multicast :: bool
  server_port :: "(u16 \<times> u16 option) option"
  interleaved :: "(u8 \<times> u8 option) option"
  tp_mode :: "transport_mode list"
  others :: "string \<Rightarrow> string option option"

datatype transport =
    RtpTransport profile "lower_transport option" transport_params
  | OtherTransport

datatype status_code = StatusOk | MethodNotAllowed | ParameterNotUnderstood | NotEnoughBandwidth

datatype header_value = Text string | Transports "transport list"

text \<open>A response as the calls of its builder, in order.\<close>

record response =
  resp_status :: status_code
  resp_headers :: "(header_name \<times> header_value) list"
  resp_body :: "string option"

definition builder :: "status_code \<Rightarrow> response" where
  "builder s = \<lparr>resp_status = s, resp_headers = [], resp_body = None\<rparr>"

definition add_header :: "header_name \<Rightarrow> header_value \<Rightarrow> response \<Rightarrow> response" where
  "add_header n v r = r\<lparr>resp_headers := resp_headers r @ [(n, v)]\<rparr>"

lemma builder_simps [simp]:
  "resp_status (builder s) = s" "resp_headers (builder s) = []" "resp_body (builder s) = None"
  "resp_status (add_header n v r) = resp_status r"
  "resp_headers (add_header n v r) = resp_headers r @ [(n, v)]"
  "resp_body (add_header n v r) = resp_body r"
  by (simp_all add: builder_def add_header_def)

section \<open>Parameters\<close>

text \<open>The first media description of a parsed session gives its attributes: \<open>None\<close> when an attribute
  is missing, \<open>Some None\<close> when it has no value.\<close>

type_synonym media = "string \<Rightarrow> string option option"

record 'f handler_ops =
  b64 :: b64_ops
  nom_parsers :: nom_ops
  sdp_parse :: "bytes \<Rightarrow> media list option"
  rsa_decrypt :: "bytes \<Rightarrow> bytes option"
  rsa_sign :: "bytes \<Rightarrow> bytes option"
  parse_transports :: "string \<Rightarrow> transport list option"
  parse_f64 :: "string \<Rightarrow> 'f option"
  show_f64 :: "'f \<Rightarrow> string"

text \<open>Each operation answers as sending the command and awaiting its reply do: the outer outcome is
  that of the channels, the inner one is the reply.\<close>

record ('w, 'f) world_ops =
  announce_call :: "announce \<Rightarrow> 'w \<Rightarrow> unit outcome outcome \<times> 'w"
  setup_call :: "setup_payload \<Rightarrow> 'w \<Rightarrow> setup_response outcome outcome \<times> 'w"
  record_call :: "rtp_info \<Rightarrow> 'w \<Rightarrow> unit outcome outcome \<times> 'w"
  teardown_call :: "'w \<Rightarrow> unit outcome outcome \<times> 'w"
  set_parameter_call :: "'f \<Rightarrow> 'w \<Rightarrow> unit outcome outcome \<times> 'w"
  get_parameter_call :: "'w \<Rightarrow> 'f outcome \<times> 'w"
  flush_call :: "rtp_info \<Rightarrow> 'w \<Rightarrow> unit outcome outcome \<times> 'w"
  write_response :: "response \<Rightarrow> 'w \<Rightarrow> unit outcome \<times> 'w"

record handler =
  config :: configuration
  local_ip :: ip_addr
  peer_ip :: ip_addr

section \<open>Sequencing\<close>

text \<open>Fallible code that acts on the world; \<open>?\<close> and panics keep what was already done.\<close>

type_synonym ('w, 'a) io = "'w \<Rightarrow> 'a outcome \<times> 'w"

definition io_then :: "('w, 'a) io \<Rightarrow> ('a \<Rightarrow> ('w, 'b) io) \<Rightarrow> ('w, 'b) io" where
  "io_then m f = (\<lambda>w. case m w of
     (Ok a, w') \<Rightarrow> f a w'
   | (Err e, w') \<Rightarrow> (Err e, w')
   | (Panic, w') \<Rightarrow> (Panic, w')
   | (Hang, w') \<Rightarrow> (Hang, w'))"

definition pure :: "'a outcome \<Rightarrow> ('w, 'a) io" where
  "pure m = (\<lambda>w. (m, w))"

named_theorems io_simps "evaluation of code that acts on the world"

lemma io_then_apply [io_simps]:
  "m w = (Ok a, w') \<Longrightarrow> io_then m f w = f a w'"
  "m w = (Err e, w') \<Longrightarrow> io_then m f w = (Err e, w')"
  "m w = (Panic, w') \<Longrightarrow> io_then m f w = (Panic, w')"
  by (simp_all add: io_then_def)

lemma io_then_pure [simp]:
  "io_then (pure (Ok a)) f = f a" "io_then (pure (Err e)) f w = (Err e, w)"
  "io_then (pure Panic) f w = (Panic, w)"
  by (auto simp: io_then_def pure_def)

lemma pure_apply [simp]: "pure m w = (m, w)"
  by (simp add: pure_def)

lemma io_then_Ok:
  "io_then m f w = (Ok b, w'') \<longleftrightarrow> (\<exists>a w'. m w = (Ok a, w') \<and> f a w' = (Ok b, w''))"
  by (auto simp: io_then_def split: prod.splits outcome.splits)

lemma io_then_Panic:
  "io_then m f w = (Panic, w'') \<longleftrightarrow> m w = (Panic, w'') \<or> (\<exists>a w'. m w = (Ok a, w') \<and> f a w' = (Panic, w''))"
  by (auto simp: io_then_def split: prod.splits outcome.splits)

section \<open>Headers of every response\<close>

definition octets :: "ip_addr \<Rightarrow> bytes" where
  "octets ip = (case ip of V4 bs \<Rightarrow> bs | V6 bs \<Rightarrow> bs)"

definition calculate_challenge :: "'f handler_ops \<Rightarrow> handler \<Rightarrow> string \<Rightarrow> string outcome" where
  "calculate_challenge H h challenge =
     and_then (decode_base64 (b64 H) challenge) (\<lambda>chall.
       let addr = octets (local_ip h);
           buf = concat [chall, addr, hw_addr (config h)]
       in and_then (ok_or RsaError (rsa_sign H buf)) (\<lambda>challresp.
            Ok (encode_base64 (b64 H) challresp)))"

definition add_default_headers ::
  "'f handler_ops \<Rightarrow> handler \<Rightarrow> request \<Rightarrow> response \<Rightarrow> response outcome" where
  "add_default_headers H h req b =
     (let b1 = add_header SERVER (Text ''AirTunes/105.1'') b;
          b2 = (case req_header req CSEQ of
                  Some c_seq \<Rightarrow> add_header CSEQ (Text c_seq) b1
                | None \<Rightarrow> b1)
      in case req_header req APPLE_CHALLENGE of
           Some challenge \<Rightarrow>
             and_then (calculate_challenge H h challenge) (\<lambda>response.
               Ok (add_header APPLE_RESPONSE (Text response) b2))
         | None \<Rightarrow> Ok b2)"

section \<open>OPTIONS\<close>

definition public_methods :: string where
  "public_methods = ''ANNOUNCE, SETUP, RECORD, PAUSE, FLUSH, TEARDOWN, OPTIONS, GET_PARAMETER, SET_PARAMETER''"

definition handle_options ::
  "'f handler_ops \<Rightarrow> ('w, 'f) world_ops \<Rightarrow> handler \<Rightarrow> request \<Rightarrow> ('w, unit) io" where
  "handle_options H W h req =
     io_then (pure (add_default_headers H h req (builder StatusOk))) (\<lambda>b.
     io_then (write_response W (add_header PUBLIC (Text public_methods) b)) (\<lambda>_. pure (Ok ())))"

section \<open>SETUP\<close>

definition port_of :: "transport_params \<Rightarrow> string \<Rightarrow> u16 option" where
  "port_of params key =
     Option.bind (Option.bind (others params key) (\<lambda>x. x)) (\<lambda>x. map_option word_of_nat (parse_uint 16 x))"

definition setup_ports :: "'f handler_ops \<Rightarrow> request \<Rightarrow> (u16 \<times> u16) option" where
  "setup_ports H req =
     (let transports =
            Option.bind (map_option (str_replace ''mode=record'' ''mode=\"RECORD\"'') (req_header req TRANSPORT))
              (parse_transports H);
          transport = Option.bind transports (\<lambda>x. case x of [] \<Rightarrow> None | t # _ \<Rightarrow> Some t)
      in case transport of
           Some (RtpTransport _ _ params) \<Rightarrow>
             (case (port_of params ''control_port'', port_of params ''timing_port'') of
                (Some control_port, Some timing_port) \<Rightarrow> Some (control_port, timing_port)
              | _ \<Rightarrow> None)
         | _ \<Rightarrow> None)"

definition setup_transport :: "setup_response \<Rightarrow> transport" where
  "setup_transport res =
     RtpTransport Avp (Some Udp)
       \<lparr>unicast = True, multicast = False,
        server_port = Some (resp_server_port res, None),
        interleaved = Some (0, Some 1),
        tp_mode = [RecordMode],
        others = [''control_port'' \<mapsto> Some (show_nat (unat (resp_control_port res))),
                  ''timing_port'' \<mapsto> Some (show_nat (unat (resp_timing_port res)))]\<rparr>"

definition setup_builder :: "setup_response outcome \<Rightarrow> response" where
  "setup_builder success =
     (case success of
        Ok res \<Rightarrow> add_header TRANSPORT (Transports [setup_transport res])
                    (add_header SESSION (Text ''1'') (builder StatusOk))
      | _ \<Rightarrow> builder ParameterNotUnderstood)"

definition handle_setup ::
  "'f handler_ops \<Rightarrow> ('w, 'f) world_ops \<Rightarrow> handler \<Rightarrow> request \<Rightarrow> ('w, unit) io" where
  "handle_setup H W h req =
     (case setup_ports H req of
        Some (control_port, timing_port) \<Rightarrow>
          io_then (setup_call W \<lparr>setup_ip = peer_ip h, setup_control_port = control_port,
                                 setup_timing_port = timing_port\<rparr>) (\<lambda>success.
          io_then (pure (add_default_headers H h req (setup_builder success))) (\<lambda>response.
          io_then (write_response W response) (\<lambda>_. pure (Ok ()))))
      | None \<Rightarrow> pure (Ok ()))"

section \<open>GET_PARAMETER and SET_PARAMETER\<close>

definition parameter_lines :: "('f \<Rightarrow> string) \<Rightarrow> 'f \<Rightarrow> string \<Rightarrow> string" where
  "parameter_lines show_f vol body =
     str_join [CHR 0x0D, CHR 0x0A]
       (List.map_filter (\<lambda>line. if line = ''volume'' then Some (''volume: '' @ show_f vol) else None)
          (str_lines body))"

definition handle_get_parameter ::
  "'f handler_ops \<Rightarrow> ('w, 'f) world_ops \<Rightarrow> handler \<Rightarrow> request \<Rightarrow> ('w, unit) io" where
  "handle_get_parameter H W h req =
     io_then (pure (add_default_headers H h req (builder StatusOk))) (\<lambda>b.
     io_then (get_parameter_call W) (\<lambda>vol.
     io_then (pure (ok_or Utf8Error (from_utf8 (req_body req)))) (\<lambda>text.
       let body = parameter_lines (show_f64 H) vol text
       in io_then (write_response W (if body = [] then b else b\<lparr>resp_body := Some body\<rparr>)) (\<lambda>_. pure (Ok ())))))"

fun set_parameter_lines ::
  "'f handler_ops \<Rightarrow> ('w, 'f) world_ops \<Rightarrow> string list \<Rightarrow> ('w, unit) io" where
  "set_parameter_lines H W [] = pure (Ok ())"
| "set_parameter_lines H W (line # lines) =
     (case split_once (CHR '':'') line of
        Some (name, volume) \<Rightarrow>
          if name = ''volume'' then
            io_then (pure (ok_or ParseFloatError (parse_f64 H (str_trim volume)))) (\<lambda>vol.
            io_then (set_parameter_call W vol) (\<lambda>_. set_parameter_lines H W lines))
          else set_parameter_lines H W lines
      | None \<Rightarrow> set_parameter_lines H W lines)"

definition handle_set_parameter ::
  "'f handler_ops \<Rightarrow> ('w, 'f) world_ops \<Rightarrow> handler \<Rightarrow> request \<Rightarrow> ('w, unit) io" where
  "handle_set_parameter H W h req =
     io_then
       (if req_header req CONTENT_TYPE = Some ''text/parameters'' then
          io_then (pure (ok_or Utf8Error (from_utf8 (req_body req)))) (\<lambda>text.
          io_then (set_parameter_lines H W (str_lines text)) (\<lambda>_.
            pure (add_default_headers H h req (builder StatusOk))))
        else pure (Ok (builder ParameterNotUnderstood)))
       (\<lambda>response. io_then (write_response W response) (\<lambda>_. pure (Ok ())))"

section \<open>ANNOUNCE\<close>

text \<open>An attribute's value, a missing attribute counting as one without value.\<close>

definition attr :: "media \<Rightarrow> string \<Rightarrow> string option" where
  "attr m name = Option.bind (m name) (\<lambda>x. x)"

definition latency :: "media \<Rightarrow> string \<Rightarrow> u32" where
  "latency m name =
     word_of_nat (case Option.bind (attr m name) (parse_uint 32) of Some n \<Rightarrow> n | None \<Rightarrow> 0)"

definition ok_option :: "'a outcome \<Rightarrow> 'a option" where
  "ok_option x = (case x of Ok a \<Rightarrow> Some a | _ \<Rightarrow> None)"

definition parse_announce :: "'f handler_ops \<Rightarrow> bytes \<Rightarrow> announce outcome" where
  "parse_announce H body =
     and_then (ok_or SdpError (sdp_parse H body)) (\<lambda>medias.
     and_then (ok_or MissingMedia (case medias of [] \<Rightarrow> None | m # _ \<Rightarrow> Some m)) (\<lambda>m.
     and_then (ok_or AttributeError (m ''fmtp'')) (\<lambda>fmtp_value.
     and_then (ok_or MissingFmtp
         (map_option (\<lambda>x. case find_whitespace x of Some index \<Rightarrow> drop index x | None \<Rightarrow> x) fmtp_value)) (\<lambda>fmtp.
       let minimum = latency m ''min-latency'';
           maximum = latency m ''max-latency'';
           iv = Option.bind (attr m ''aesiv'') (\<lambda>x. ok_option (decode_base64 (b64 H) x));
           key = Option.bind (Option.bind (attr m ''rsaaeskey'') (\<lambda>x. ok_option (decode_base64 (b64 H) x)))
                   (rsa_decrypt H);
           enc = (case (iv, key) of
                    (Some i, Some k) \<Rightarrow> Some \<lparr>aesiv = i, aeskey = k\<rparr>
                  | _ \<Rightarrow> None)
       in Ok \<lparr>fmtp = fmtp, minimum_latency = minimum, maximum_latency = maximum,
              announced_encryption = enc\<rparr>))))"

definition handle_announce ::
  "'f handler_ops \<Rightarrow> ('w, 'f) world_ops \<Rightarrow> handler \<Rightarrow> request \<Rightarrow> ('w, unit) io" where
  "handle_announce H W h req =
     io_then (pure (parse_announce H (req_body req))) (\<lambda>announce.
     io_then (announce_call W announce) (\<lambda>success.
     io_then (pure (add_default_headers H h req
         (if success = Ok () then builder StatusOk else builder NotEnoughBandwidth))) (\<lambda>response.
     io_then (write_response W response) (\<lambda>_. pure (Ok ())))))"

section \<open>RECORD, FLUSH and TEARDOWN\<close>

text \<open>The part RECORD and FLUSH share: a command with the RTP-Info header, if there is one and it
  parses.\<close>

definition with_rtp_info ::
  "'f handler_ops \<Rightarrow> request \<Rightarrow> (rtp_info \<Rightarrow> ('w, unit outcome) io) \<Rightarrow> ('w, unit) io" where
  "with_rtp_info H req call =
     (case req_header req RTP_INFO of
        Some v \<Rightarrow>
          (case rtp_info_parse (nom_parsers H) v of
             Some (info, _) \<Rightarrow> io_then (call info) (\<lambda>_. pure (Ok ()))
           | None \<Rightarrow> pure (Ok ()))
      | None \<Rightarrow> pure (Ok ()))"

definition handle_record ::
  "'f handler_ops \<Rightarrow> ('w, 'f) world_ops \<Rightarrow> handler \<Rightarrow> request \<Rightarrow> ('w, unit) io" where
  "handle_record H W h req =
     io_then (pure (add_default_headers H h req (add_header AUDIO_LATENCY (Text ''11025'') (builder StatusOk)))) (\<lambda>response.
     io_then (with_rtp_info H req (record_call W)) (\<lambda>_.
     io_then (write_response W response) (\<lambda>_. pure (Ok ()))))"

definition handle_flush ::
  "'f handler_ops \<Rightarrow> ('w, 'f) world_ops \<Rightarrow> handler \<Rightarrow> request \<Rightarrow> ('w, unit) io" where
  "handle_flush H W h req =
     io_then (pure (add_default_headers H h req (builder StatusOk))) (\<lambda>response.
     io_then (with_rtp_info H req (flush_call W)) (\<lambda>_.
     io_then (write_response W response) (\<lambda>_. pure (Ok ()))))"

definition handle_teardown ::
  "'f handler_ops \<Rightarrow> ('w, 'f) world_ops \<Rightarrow> handler \<Rightarrow> request \<Rightarrow> ('w, unit) io" where
  "handle_teardown H W h req =
     io_then (pure (add_default_headers H h req (add_header CONNECTION (Text ''close'') (builder StatusOk)))) (\<lambda>response.
     io_then (teardown_call W) (\<lambda>_.
     io_then (write_response W response) (\<lambda>_. pure (Ok ()))))"

definition handle_not_allowed :: "('w, 'f) world_ops \<Rightarrow> ('w, unit) io" where
  "handle_not_allowed W =
     io_then (write_response W (builder MethodNotAllowed)) (\<lambda>_. pure (Ok ()))"

section \<open>The loop of a connection\<close>

definition execute ::
  "'f handler_ops \<Rightarrow> ('w, 'f) world_ops \<Rightarrow> handler \<Rightarrow> request \<Rightarrow> ('w, unit) io" where
  "execute H W h req =
     (case req_method req of
        OPTIONS \<Rightarrow> handle_options H W h req
      | SETUP \<Rightarrow> handle_setup H W h req
      | GET_PARAMETER \<Rightarrow> handle_get_parameter H W h req
      | SET_PARAMETER \<Rightarrow> handle_set_parameter H W h req
      | ANNOUNCE \<Rightarrow> handle_announce H W h req
      | RECORD \<Rightarrow> handle_record H W h req
      | TEARDOWN \<Rightarrow> handle_teardown H W h req
      | EXTENSION extension \<Rightarrow>
          if extension = ''FLUSH'' \<or> extension = ''flush'' then handle_flush H W h req else pure Panic
      | DESCRIBE \<Rightarrow> handle_not_allowed W
      | PAUSE \<Rightarrow> handle_not_allowed W
      | PLAY \<Rightarrow> handle_not_allowed W
      | PLAY_NOTIFY \<Rightarrow> handle_not_allowed W
      | REDIRECT \<Rightarrow> handle_not_allowed W)"

text \<open>What \<open>read_message\<close> may yield, and the shutdown notice.\<close>

datatype message = RequestMessage request | ResponseMessage | DataMessage

datatype handler_event = Read "message option outcome" | StopHandler

text \<open>\<open>None\<close>: the loop waits for the next message.\<close>

fun handler_run ::
  "'f handler_ops \<Rightarrow> ('w, 'f) world_ops \<Rightarrow> handler \<Rightarrow> shutdown_state \<Rightarrow> handler_event list \<Rightarrow> 'w \<Rightarrow>
   unit outcome option \<times> 'w" where
  "handler_run H W h sd [] w = (if is_shutdown sd then (Some (Ok ()), w) else (None, w))"
| "handler_run H W h sd (ev # evs) w =
     (if is_shutdown sd then (Some (Ok ()), w)
      else case ev of
        StopHandler \<Rightarrow> (Some (Ok ()), w)
      | Read (Ok (Some (RequestMessage req))) \<Rightarrow>
          (case execute H W h req w of
             (Ok _, w') \<Rightarrow> handler_run H W h sd evs w'
           | (r, w') \<Rightarrow> (Some r, w'))
      | Read (Ok (Some _)) \<Rightarrow> (Some Panic, w)
      | Read (Ok None) \<Rightarrow> (Some (Ok ()), w)
      | Read (Err e) \<Rightarrow> (Some (Err e), w)
      | Read Panic \<Rightarrow> (Some Panic, w)
      | Read Hang \<Rightarrow> (Some Hang, w))"

lemmas handler_defs = handle_options_def handle_setup_def handle_get_parameter_def
  handle_set_parameter_def handle_announce_def handle_record_def handle_flush_def
  handle_teardown_def handle_not_allowed_def

section \<open>What the handler relies on\<close>

text \<open>The laws of the player and the connection: what a successful call answers, what it does to the volume, and that
  only \<open>write_response\<close> writes. The volume is shared with other connections: \<open>level\<close> is the volume and what the
  others are going to do to it, \<open>tick\<close> what they have done by the time the player gets to a command.\<close>

locale player_service =
  fixes W :: "('w, 'f) world_ops"
    and written :: "'w \<Rightarrow> response list"
    and level :: "'w \<Rightarrow> 'l" and tick :: "'l \<Rightarrow> 'l" and assign :: "'f \<Rightarrow> 'l \<Rightarrow> 'l" and value_of :: "'l \<Rightarrow> 'f"
  assumes announce_law:
      "announce_call W a w = (Ok r, w') \<Longrightarrow> r = Ok () \<and> level w' = tick (level w) \<and> written w' = written w"
    and setup_law:
      "setup_call W s w = (Ok rs, w') \<Longrightarrow> (\<exists>x. rs = Ok x) \<and> level w' = tick (level w) \<and> written w' = written w"
    and record_law:
      "record_call W i w = (Ok r, w') \<Longrightarrow> r = Ok () \<and> level w' = tick (level w) \<and> written w' = written w"
    and teardown_law:
      "teardown_call W w = (Ok r, w') \<Longrightarrow> r = Ok () \<and> level w' = tick (level w) \<and> written w' = written w"
    and flush_law:
      "flush_call W i w = (Ok r, w') \<Longrightarrow> r = Ok () \<and> level w' = tick (level w) \<and> written w' = written w"
    and set_law:
      "set_parameter_call W v w = (Ok r, w') \<Longrightarrow>
         r = Ok () \<and> level w' = assign v (tick (level w)) \<and> written w' = written w"
    and get_law:
      "get_parameter_call W w = (Ok v, w') \<Longrightarrow>
         v = value_of (tick (level w)) \<and> level w' = tick (level w) \<and> written w' = written w"
    and write_law:
      "write_response W resp w = (Ok (), w') \<Longrightarrow> level w' = level w \<and> written w' = written w @ [resp]"

text \<open>The status a request is answered with, and the sequence number it is answered under.\<close>

definition expected_status :: "request \<Rightarrow> status_code" where
  "expected_status req =
     (if req_method req \<in> {DESCRIBE, PAUSE, PLAY, PLAY_NOTIFY, REDIRECT} then MethodNotAllowed
      else if req_method req = SET_PARAMETER \<and> req_header req CONTENT_TYPE \<noteq> Some ''text/parameters''
      then ParameterNotUnderstood else StatusOk)"

definition echoes_cseq :: "request \<Rightarrow> response \<Rightarrow> bool" where
  "echoes_cseq req r \<longleftrightarrow> (\<forall>c. (CSEQ, Text c) \<in> set (resp_headers r) \<longleftrightarrow> req_header req CSEQ = Some c)"

definition answers :: "request \<Rightarrow> response \<Rightarrow> bool" where
  "answers req r \<longleftrightarrow> resp_status r = expected_status req \<and>
     (if resp_status r = StatusOk then echoes_cseq req r else resp_headers r = [])"

lemma default_headers_ok:
  assumes "add_default_headers H h req b = Ok r"
  shows "resp_status r = resp_status b" "resp_body r = resp_body b"
    and "\<forall>c. (CSEQ, Text c) \<in> set (resp_headers r) \<longleftrightarrow>
           (CSEQ, Text c) \<in> set (resp_headers b) \<or> req_header req CSEQ = Some c"
  using assms by (auto simp: add_default_headers_def outcome_iffs Let_def split: option.splits)

lemma default_headers_answer:
  assumes "add_default_headers H h req b = Ok r" "expected_status req = StatusOk" "resp_status b = StatusOk"
    and "\<forall>c. (CSEQ, Text c) \<notin> set (resp_headers b)"
  shows "answers req r"
  using default_headers_ok[OF assms(1)] assms(2-4) by (simp add: answers_def echoes_cseq_def)

lemma add_header_answers: "answers req r \<Longrightarrow> n \<noteq> CSEQ \<Longrightarrow> expected_status req = StatusOk \<Longrightarrow>
   answers req (add_header n v r)"
  by (auto simp: answers_def echoes_cseq_def)

lemma body_answers: "answers req r \<Longrightarrow> answers req (r\<lparr>resp_body := b\<rparr>)"
  by (auto simp: answers_def echoes_cseq_def)

context player_service
begin

text \<open>What one execution leaves: the volume \<open>l\<close> and one more response.\<close>

definition answered :: "request \<Rightarrow> 'l \<Rightarrow> 'w \<Rightarrow> 'w \<Rightarrow> bool" where
  "answered req l w w' \<longleftrightarrow> level w' = l \<and> (\<exists>r. written w' = written w @ [r] \<and> answers req r)"

lemma respond:
  assumes "io_then (write_response W r) (\<lambda>_. pure (Ok ())) w1 = (Ok (), w')"
    and "answers req r" "level w1 = l" "written w1 = written w"
  shows "answered req l w w'"
  using assms write_law by (auto simp: io_then_Ok answered_def)

lemma options_answered:
  assumes "handle_options H W h req w = (Ok (), w')" "expected_status req = StatusOk"
  shows "answered req (level w) w w'"
proof -
  obtain b where b: "add_default_headers H h req (builder StatusOk) = Ok b"
    and w: "io_then (write_response W (add_header PUBLIC (Text public_methods) b)) (\<lambda>_. pure (Ok ())) w = (Ok (), w')"
    using assms(1) by (auto simp: handle_options_def io_then_Ok)
  have "answers req (add_header PUBLIC (Text public_methods) b)"
    using default_headers_answer[OF b] assms(2) by (simp add: add_header_answers)
  then show ?thesis by (rule respond[OF w]) simp_all
qed

lemma setup_answered:
  assumes "handle_setup H W h req w = (Ok (), w')" "expected_status req = StatusOk" "setup_ports H req \<noteq> None"
  shows "answered req (tick (level w)) w w'"
proof -
  obtain ports where ports: "setup_ports H req = Some ports" using assms(3) by auto
  obtain success w1 r where s: "setup_call W \<lparr>setup_ip = peer_ip h, setup_control_port = fst ports,
        setup_timing_port = snd ports\<rparr> w = (Ok success, w1)"
    and r: "add_default_headers H h req (setup_builder success) = Ok r"
    and w: "io_then (write_response W r) (\<lambda>_. pure (Ok ())) w1 = (Ok (), w')"
    using assms(1) ports by (cases ports) (auto simp: handle_setup_def io_then_Ok)
  from setup_law[OF s] obtain x where x: "success = Ok x" "level w1 = tick (level w)" "written w1 = written w"
    by blast
  have "answers req r"
    using default_headers_answer[OF r assms(2)] by (simp add: setup_builder_def x(1))
  then show ?thesis by (rule respond[OF w]) (simp_all add: x)
qed

lemma get_parameter_answered:
  assumes "handle_get_parameter H W h req w = (Ok (), w')" "expected_status req = StatusOk"
  shows "answered req (tick (level w)) w w' \<and> (\<exists>text. from_utf8 (req_body req) = Some text \<and>
     resp_body (last (written w')) =
       (let body = parameter_lines (show_f64 H) (value_of (tick (level w))) text in if body = [] then None else Some body))"
proof -
  obtain b v w1 str where b: "add_default_headers H h req (builder StatusOk) = Ok b"
    and v: "get_parameter_call W w = (Ok v, w1)" and str: "from_utf8 (req_body req) = Some str"
    and w: "io_then (write_response W (let body = parameter_lines (show_f64 H) v str in
        if body = [] then b else b\<lparr>resp_body := Some body\<rparr>)) (\<lambda>_. pure (Ok ())) w1 = (Ok (), w')"
    using assms(1) by (auto simp: handle_get_parameter_def io_then_Ok ok_or_eq_Ok Let_def)
  let ?r = "let body = parameter_lines (show_f64 H) v str in if body = [] then b else b\<lparr>resp_body := Some body\<rparr>"
  have "answers req ?r"
    using default_headers_answer[OF b] assms(2) by (simp add: Let_def body_answers)
  from respond[OF w this] have "answered req (tick (level w)) w w'" using get_law[OF v] by simp
  moreover have "written w' = written w1 @ [?r]" using w write_law by (auto simp: io_then_Ok)
  ultimately show ?thesis
    using get_law[OF v] default_headers_ok(2)[OF b] str by (simp add: Let_def)
qed

end

text \<open>The commands that a request makes of the player, the lines of SET_PARAMETER apart.\<close>

definition info_commands :: "'f handler_ops \<Rightarrow> request \<Rightarrow> nat" where
  "info_commands H req =
     (case req_header req RTP_INFO of
        Some v \<Rightarrow> if rtp_info_parse (nom_parsers H) v = None then 0 else 1
      | None \<Rightarrow> 0)"

definition commands :: "'f handler_ops \<Rightarrow> request \<Rightarrow> nat" where
  "commands H req =
     (case req_method req of
        SETUP \<Rightarrow> if setup_ports H req = None then 0 else 1
      | GET_PARAMETER \<Rightarrow> 1 | ANNOUNCE \<Rightarrow> 1 | TEARDOWN \<Rightarrow> 1
      | RECORD \<Rightarrow> info_commands H req
      | EXTENSION _ \<Rightarrow> info_commands H req
      | _ \<Rightarrow> 0)"

context player_service
begin

text \<open>The volume that the lines of SET_PARAMETER leave.\<close>

fun level_of_lines :: "'f handler_ops \<Rightarrow> string list \<Rightarrow> 'l \<Rightarrow> 'l" where
  "level_of_lines H [] l = l"
| "level_of_lines H (line # lines) l =
     (case split_once (CHR '':'') line of
        Some (name, volume) \<Rightarrow>
          if name = ''volume'' then level_of_lines H lines (assign (the (parse_f64 H (str_trim volume))) (tick l))
          else level_of_lines H lines l
      | None \<Rightarrow> level_of_lines H lines l)"

text \<open>The volume after a request.\<close>

definition level_after :: "'f handler_ops \<Rightarrow> request \<Rightarrow> 'l \<Rightarrow> 'l" where
  "level_after H req l =
     (if req_method req = SET_PARAMETER \<and> req_header req CONTENT_TYPE = Some ''text/parameters''
      then level_of_lines H (str_lines (the (from_utf8 (req_body req)))) l
      else (tick ^^ commands H req) l)"

lemma set_lines_ok:
  "set_parameter_lines H W lines w = (Ok (), w') \<Longrightarrow>
   level w' = level_of_lines H lines (level w) \<and> written w' = written w"
proof (induction lines arbitrary: w)
  case Nil
  then show ?case by simp
next
  case (Cons line lines)
  show ?case
  proof (cases "\<exists>v. split_once (CHR '':'') line = Some (''volume'', v)")
    case True
    then obtain v where v: "split_once (CHR '':'') line = Some (''volume'', v)" by blast
    then obtain vol r w1 where "parse_f64 H (str_trim v) = Some vol" "set_parameter_call W vol w = (Ok r, w1)"
        "set_parameter_lines H W lines w1 = (Ok (), w')"
      using Cons.prems by (auto simp: io_then_Ok ok_or_eq_Ok)
    then show ?thesis using Cons.IH set_law v by fastforce
  next
    case False
    then have "set_parameter_lines H W lines w = (Ok (), w')"
      "level_of_lines H (line # lines) (level w) = level_of_lines H lines (level w)"
      using Cons.prems by (auto split: option.splits prod.splits if_splits)
    then show ?thesis using Cons.IH by simp
  qed
qed

lemma set_parameter_answered:
  assumes "handle_set_parameter H W h req w = (Ok (), w')" "req_method req = SET_PARAMETER"
  shows "answered req (level_after H req (level w)) w w'"
proof (cases "req_header req CONTENT_TYPE = Some ''text/parameters''")
  case True
  obtain str w1 r where str: "from_utf8 (req_body req) = Some str"
    and lines: "set_parameter_lines H W (str_lines str) w = (Ok (), w1)"
    and r: "add_default_headers H h req (builder StatusOk) = Ok r"
    and w: "io_then (write_response W r) (\<lambda>_. pure (Ok ())) w1 = (Ok (), w')"
    using assms(1) True by (auto simp: handle_set_parameter_def io_then_Ok ok_or_eq_Ok)
  have "answers req r"
    using default_headers_answer[OF r] assms(2) True by (simp add: expected_status_def)
  from respond[OF w this] show ?thesis using set_lines_ok[OF lines] True str assms(2) by (simp add: level_after_def)
next
  case False
  then have "io_then (write_response W (builder ParameterNotUnderstood)) (\<lambda>_. pure (Ok ())) w = (Ok (), w')"
    using assms(1) by (simp add: handle_set_parameter_def)
  then show ?thesis
    using respond[of "builder ParameterNotUnderstood" w w' req] False assms(2)
    by (simp add: answers_def expected_status_def level_after_def commands_def)
qed

lemma announce_answered:
  assumes "handle_announce H W h req w = (Ok (), w')" "expected_status req = StatusOk"
  shows "answered req (tick (level w)) w w'"
proof -
  obtain a s w1 r where s: "announce_call W a w = (Ok s, w1)"
    and r: "add_default_headers H h req (if s = Ok () then builder StatusOk else builder NotEnoughBandwidth) = Ok r"
    and w: "io_then (write_response W r) (\<lambda>_. pure (Ok ())) w1 = (Ok (), w')"
    using assms(1) by (auto simp: handle_announce_def io_then_Ok)
  from announce_law[OF s] have x: "s = Ok ()" "level w1 = tick (level w)" "written w1 = written w" by auto
  have "answers req r" using default_headers_answer[OF r assms(2)] by (simp add: x(1))
  then show ?thesis by (rule respond[OF w]) (simp_all add: x)
qed

lemma with_rtp_info_keeps:
  assumes "with_rtp_info H req call w = (Ok (), w')"
    and "\<And>i r. call i w = (Ok r, w') \<Longrightarrow> level w' = tick (level w) \<and> written w' = written w"
  shows "level w' = (tick ^^ info_commands H req) (level w) \<and> written w' = written w"
  using assms by (auto simp: with_rtp_info_def info_commands_def io_then_Ok split: option.splits)

lemma record_answered:
  assumes "handle_record H W h req w = (Ok (), w')" "expected_status req = StatusOk"
  shows "answered req ((tick ^^ info_commands H req) (level w)) w w'"
proof -
  obtain w1 r where s: "with_rtp_info H req (record_call W) w = (Ok (), w1)"
    and r: "add_default_headers H h req (add_header AUDIO_LATENCY (Text ''11025'') (builder StatusOk)) = Ok r"
    and w: "io_then (write_response W r) (\<lambda>_. pure (Ok ())) w1 = (Ok (), w')"
    using assms(1) by (auto simp: handle_record_def io_then_Ok)
  have "answers req r" using default_headers_answer[OF r assms(2)] by simp
  then show ?thesis by (rule respond[OF w]) (use with_rtp_info_keeps[OF s] record_law in blast)+
qed

lemma flush_answered:
  assumes "handle_flush H W h req w = (Ok (), w')" "expected_status req = StatusOk"
  shows "answered req ((tick ^^ info_commands H req) (level w)) w w'"
proof -
  obtain w1 r where s: "with_rtp_info H req (flush_call W) w = (Ok (), w1)"
    and r: "add_default_headers H h req (builder StatusOk) = Ok r"
    and w: "io_then (write_response W r) (\<lambda>_. pure (Ok ())) w1 = (Ok (), w')"
    using assms(1) by (auto simp: handle_flush_def io_then_Ok)
  have "answers req r" using default_headers_answer[OF r assms(2)] by simp
  then show ?thesis by (rule respond[OF w]) (use with_rtp_info_keeps[OF s] flush_law in blast)+
qed

lemma teardown_answered:
  assumes "handle_teardown H W h req w = (Ok (), w')" "expected_status req = StatusOk"
  shows "answered req (tick (level w)) w w'"
proof -
  obtain w1 r s where s: "teardown_call W w = (Ok s, w1)"
    and r: "add_default_headers H h req (add_header CONNECTION (Text ''close'') (builder StatusOk)) = Ok r"
    and w: "io_then (write_response W r) (\<lambda>_. pure (Ok ())) w1 = (Ok (), w')"
    using assms(1) by (auto simp: handle_teardown_def io_then_Ok)
  have "answers req r" using default_headers_answer[OF r assms(2)] by simp
  then show ?thesis by (rule respond[OF w]) (use teardown_law[OF s] in simp_all)
qed

lemma not_allowed_answered:
  assumes "handle_not_allowed W w = (Ok (), w')" "expected_status req = MethodNotAllowed"
  shows "answered req (level w) w w'"
  using respond[of "builder MethodNotAllowed" w w' req] assms
  by (simp add: handle_not_allowed_def answers_def)

lemmas method_answered = options_answered setup_answered get_parameter_answered set_parameter_answered
  announce_answered record_answered flush_answered teardown_answered

lemma execute_answered:
  assumes "execute H W h req w = (Ok (), w')" "\<not> (req_method req = SETUP \<and> setup_ports H req = None)"
  shows "answered req (level_after H req (level w)) w w'"
proof (cases "req_method req = SET_PARAMETER")
  case True
  then show ?thesis using assms(1) set_parameter_answered[of H h req w w'] by (simp add: execute_def)
next
  case False
  then show ?thesis
    using assms method_answered[of H h req w w'] not_allowed_answered[of w w' req]
    by (cases "req_method req")
      (auto simp: execute_def expected_status_def level_after_def commands_def split: if_splits)
qed

lemma setup_without_ports:
  "req_method req = SETUP \<Longrightarrow> setup_ports H req = None \<Longrightarrow> execute H W h req w = (Ok (), w)"
  by (simp add: execute_def handle_setup_def)

end

end
