(* ===== verification/Player_Service.thy ===== *)
theory Player_Service
  imports Handler
begin

text \<open>
  The handler's world made of the models of the other components: the player task behind its command
  channel (src/src/player/mod.rs) and the connection (src/src/rtsp/connection.rs). The channel is shared: between
  two commands of the handler any number of commands of other tasks may reach the player, audio packets of the
  network tasks and requests of other connections. They are the batches of \<open>w_others\<close>, one before each
  command.
\<close>

section \<open>The world\<close>

record ('q, 'k, 'd, 'f) world =
  w_player :: "('q, 'k, 'd, 'f) player option"
  w_others :: "('q, 'f) command list list"
  w_net :: setup_net
  w_effects :: "('q, 'f) player_effect list"
  w_conn :: connection
  w_stream_ok :: bool
  w_written :: "response list"

definition command_events :: "setup_net \<Rightarrow> ('q, 'f) command list \<Rightarrow> ('q, 'f) player_event list" where
  "command_events net cmds = map (\<lambda>cmd. Request cmd net True) cmds"

text \<open>Send a command and await its reply: sending fails when the player is gone, awaiting when it
  ends before it replies.\<close>

definition ask ::
  "'q seq_ops \<Rightarrow> ('k, 'd) codec_ops \<Rightarrow> ('q, 'f) command \<Rightarrow> ('q, 'k, 'd, 'f) world \<Rightarrow>
   'f reply outcome \<times> ('q, 'k, 'd, 'f) world" where
  "ask Q C cmd w =
     (case w_player w of
        None \<Rightarrow> (Err SendError, w)
      | Some p \<Rightarrow>
          (let batch = (case w_others w of [] \<Rightarrow> [] | b # bs \<Rightarrow> b);
               (os, st) = task_loop (player_body Q C) p
                            (command_events (w_net w) batch @ [Request cmd (w_net w) True]);
               w1 = w\<lparr>w_others := tl (w_others w), w_effects := w_effects w @ os\<rparr>
           in case st of
                Waiting p' \<Rightarrow>
                  (case rev (replies os) of
                     r # _ \<Rightarrow> (Ok r, w1\<lparr>w_player := Some p'\<rparr>)
                   | [] \<Rightarrow> (Err RecvError, w1\<lparr>w_player := Some p'\<rparr>))
              | Finished r \<Rightarrow>
                  (case r of Panic \<Rightarrow> Panic | Hang \<Rightarrow> Hang | _ \<Rightarrow> Err RecvError, w1\<lparr>w_player := None\<rparr>)))"

definition done_of :: "'f reply outcome \<Rightarrow> unit outcome outcome" where
  "done_of r = and_then r (\<lambda>x. case x of Done d \<Rightarrow> Ok d | _ \<Rightarrow> Err RecvError)"

definition setup_of :: "'f reply outcome \<Rightarrow> setup_response outcome outcome" where
  "setup_of r = and_then r (\<lambda>x. case x of SetupDone d \<Rightarrow> Ok d | _ \<Rightarrow> Err RecvError)"

definition volume_of :: "'f reply outcome \<Rightarrow> 'f outcome" where
  "volume_of r = and_then r (\<lambda>x. case x of Volume v \<Rightarrow> Ok v | _ \<Rightarrow> Err RecvError)"

definition world_write ::
  "(response \<Rightarrow> bytes option) \<Rightarrow> response \<Rightarrow> ('q, 'k, 'd, 'f) world \<Rightarrow> unit outcome \<times> ('q, 'k, 'd, 'f) world" where
  "world_write encode r w =
     (case conn_write encode (w_stream_ok w) r (w_conn w) of
        (Ok _, c) \<Rightarrow> (Ok (), w\<lparr>w_conn := c, w_written := w_written w @ [r]\<rparr>)
      | (e, c) \<Rightarrow> (e, w\<lparr>w_conn := c\<rparr>))"

definition player_world ::
  "'q seq_ops \<Rightarrow> ('k, 'd) codec_ops \<Rightarrow> (response \<Rightarrow> bytes option) \<Rightarrow> (('q, 'k, 'd, 'f) world, 'f) world_ops" where
  "player_world Q C encode =
     \<lparr>announce_call = (\<lambda>a w. apfst done_of (ask Q C (Announce a) w)),
      setup_call = (\<lambda>s w. apfst setup_of (ask Q C (Setup s) w)),
      record_call = (\<lambda>i w. apfst done_of (ask Q C (Record i) w)),
      teardown_call = (\<lambda>w. apfst done_of (ask Q C Teardown w)),
      set_parameter_call = (\<lambda>v w. apfst done_of (ask Q C (SetParameter v) w)),
      get_parameter_call = (\<lambda>w. apfst volume_of (ask Q C GetParameter w)),
      flush_call = (\<lambda>i w. apfst done_of (ask Q C (Flush i) w)),
      write_response = world_write encode\<rparr>"

text \<open>The volume after a sequence of commands, and the volume of a world with what the others are going to do to
  it: before the handler's next command, their next batch.\<close>

definition set_by :: "('q, 'f) command \<Rightarrow> 'f \<Rightarrow> 'f" where
  "set_by cmd v = (case cmd of SetParameter v' \<Rightarrow> v' | _ \<Rightarrow> v)"

definition last_volume :: "'f \<Rightarrow> ('q, 'f) command list \<Rightarrow> 'f" where
  "last_volume v cmds = fold set_by cmds v"

definition world_level :: "('q, 'k, 'd, 'f) world \<Rightarrow> 'f \<times> ('q, 'f) command list list" where
  "world_level w = (airplay_volume (the (w_player w)), w_others w)"

definition others_act :: "'f \<times> ('q, 'f) command list list \<Rightarrow> 'f \<times> ('q, 'f) command list list" where
  "others_act l = (last_volume (fst l) (case snd l of [] \<Rightarrow> [] | b # bs \<Rightarrow> b), tl (snd l))"

lemma concat_take_Suc: "concat (take (Suc n) bs) = concat (take n bs) @ (case drop n bs of [] \<Rightarrow> [] | b # _ \<Rightarrow> b)"
  by (induction bs arbitrary: n) (auto simp: take_Cons drop_Cons split: nat.splits list.splits)

lemma others_act_more: "(others_act ^^ n) l = (last_volume (fst l) (concat (take n (snd l))), drop n (snd l))"
proof (induction n)
  case 0
  then show ?case by (cases l) (simp add: last_volume_def)
next
  case (Suc n)
  have "last_volume (fst l) (concat (take (Suc n) (snd l))) =
      last_volume (last_volume (fst l) (concat (take n (snd l)))) (case drop n (snd l) of [] \<Rightarrow> [] | b # _ \<Rightarrow> b)"
    by (simp only: last_volume_def concat_take_Suc fold_append comp_apply)
  then show ?case using Suc.IH by (simp add: others_act_def drop_Suc tl_drop)
qed

section \<open>The laws\<close>

lemma others_volume:
  "task_loop (player_body Q C) p (command_events net cmds) = (os, Waiting p') \<Longrightarrow>
   airplay_volume p' = last_volume (airplay_volume p) cmds"
proof (induction cmds arbitrary: p os)
  case Nil
  then show ?case by (simp add: command_events_def last_volume_def)
next
  case (Cons cmd cmds)
  from Cons.prems obtain q os1 os2 where
    q: "player_body Q C p (Request cmd net True) = Continue q os1"
    and rest: "task_loop (player_body Q C) q (command_events net cmds) = (os2, Waiting p')"
    by (auto simp: command_events_def split: step.splits prod.splits)
  from q have step: "player_step Q C net True cmd p = Ok (q, os1)"
    by (elim player_body_continue) auto
  have "airplay_volume q = set_by cmd (airplay_volume p)"
    using volume_kept[OF step] by (simp add: set_by_def split: command.splits)
  then show ?case using Cons.IH[OF rest] by (simp add: last_volume_def)
qed

text \<open>The reply of each command.\<close>

definition reply_to :: "('q, 'k, 'd, 'f) player \<Rightarrow> ('q, 'f) command \<Rightarrow> 'f reply \<Rightarrow> bool" where
  "reply_to p cmd r =
     (case cmd of
        Setup s \<Rightarrow> (\<exists>x. r = SetupDone (Ok x))
      | GetParameter \<Rightarrow> r = Volume (airplay_volume p)
      | PutPacket s pk \<Rightarrow> False
      | _ \<Rightarrow> r = Done (Ok ()))"

lemma step_reply:
  assumes "player_step Q C net c cmd p = Ok (p', os)" "\<not> is_packet cmd"
  shows "\<exists>r. replies os = [r] \<and> reply_to p cmd r"
proof (cases cmd)
  case (Announce a)
  then show ?thesis using assms by (simp add: reply_to_def announce_ok)
next
  case (Setup s)
  then show ?thesis using assms by (auto simp: reply_to_def dest!: setup_ok)
next
  case (Flush info)
  then show ?thesis using assms by (auto simp: reply_to_def dest!: flush_frame)
qed (use assms in \<open>auto simp: reply_to_def is_packet_def player_record_def player_teardown_def
  player_set_parameter_def player_get_parameter_def Let_def split: option.splits\<close>)

lemma ask_ok:
  assumes "ask Q C cmd w = (Ok r, w')" "\<not> is_packet cmd"
  obtains p p1 p2 os where "w_player w = Some p" "airplay_volume p1 = fst (others_act (world_level w))"
    "player_step Q C (w_net w) True cmd p1 = Ok (p2, os)" "reply_to p1 cmd r"
    "w_player w' = Some p2" "w_others w' = tl (w_others w)" "w_written w' = w_written w"
proof -
  from assms(1) obtain p where p: "w_player w = Some p" by (auto simp: ask_def split: option.splits)
  let ?batch = "case w_others w of [] \<Rightarrow> [] | b # bs \<Rightarrow> b"
  let ?cs = "command_events (w_net w) ?batch" and ?req = "Request cmd (w_net w) True"
  obtain os p2 rs where run: "task_loop (player_body Q C) p (?cs @ [?req]) = (os, Waiting p2)"
    and w': "w_player w' = Some p2" "w_others w' = tl (w_others w)" "w_written w' = w_written w"
    and r: "rev (replies os) = r # rs"
    using assms(1) p
    by (auto simp: ask_def Let_def split: prod.splits status.splits outcome.splits list.splits)
  obtain os1 p1 where first: "task_loop (player_body Q C) p ?cs = (os1, Waiting p1)"
  proof (cases "task_loop (player_body Q C) p ?cs")
    case (Pair os1 st)
    then show ?thesis using that task_loop_finished[of _ p ?cs os1] run by (cases st) fastforce+
  qed
  from run obtain os2 where step: "player_body Q C p1 ?req = Continue p2 os2" and os: "os = os1 @ os2"
    by (auto simp: task_loop_append[OF first] split: step.splits)
  from step have step': "player_step Q C (w_net w) True cmd p1 = Ok (p2, os2)"
    by (elim player_body_continue) auto
  obtain r' where "replies os2 = [r']" "reply_to p1 cmd r'" using step_reply[OF step' assms(2)] by blast
  then have "reply_to p1 cmd r" using r os by simp
  moreover have "airplay_volume p1 = fst (others_act (world_level w))"
    using others_volume[OF first] p by (simp add: others_act_def world_level_def)
  ultimately show ?thesis using that p step' w' by blast
qed

definition set_level :: "'f \<Rightarrow> 'f \<times> 'b \<Rightarrow> 'f \<times> 'b" where
  "set_level v l = (v, snd l)"

lemma ask_volume:
  assumes "ask Q C cmd w = (Ok r, w')" "\<not> is_packet cmd"
  shows "world_level w' = (case cmd of SetParameter v \<Rightarrow> set_level v (others_act (world_level w)) | _ \<Rightarrow> others_act (world_level w)) \<and>
     w_written w' = w_written w \<and>
     (cmd = GetParameter \<longrightarrow> r = Volume (fst (others_act (world_level w)))) \<and>
     (\<forall>s. cmd = Setup s \<longrightarrow> (\<exists>x. r = SetupDone (Ok x))) \<and>
     (cmd \<noteq> GetParameter \<and> (\<forall>s. cmd \<noteq> Setup s) \<longrightarrow> r = Done (Ok ()))"
proof -
  obtain p p1 p2 os where ok: "w_player w = Some p" "airplay_volume p1 = fst (others_act (world_level w))"
    "player_step Q C (w_net w) True cmd p1 = Ok (p2, os)" "reply_to p1 cmd r"
    "w_player w' = Some p2" "w_others w' = tl (w_others w)" "w_written w' = w_written w"
    using ask_ok[OF assms] .
  have "world_level w' = (airplay_volume p2, snd (others_act (world_level w)))"
    using ok(5,6) by (simp add: world_level_def others_act_def)
  then show ?thesis
    using volume_kept[OF ok(3)] ok(2,4,7) assms(2)
    by (cases cmd) (simp_all add: reply_to_def is_packet_def set_level_def)
qed

lemma done_of_Ok: "done_of x = Ok d \<longleftrightarrow> x = Ok (Done d)"
  by (cases x) (auto simp: done_of_def split: reply.splits)

lemma setup_of_Ok: "setup_of x = Ok d \<longleftrightarrow> x = Ok (SetupDone d)"
  by (cases x) (auto simp: setup_of_def split: reply.splits)

lemma volume_of_Ok: "volume_of x = Ok d \<longleftrightarrow> x = Ok (Volume d)"
  by (cases x) (auto simp: volume_of_def split: reply.splits)

lemma apfst_eq: "apfst f x = (a, w) \<longleftrightarrow> (\<exists>b. x = (b, w) \<and> f b = a)"
  by (cases x) auto

lemma done_call:
  assumes "apfst done_of (ask Q C cmd w) = (Ok r, w')"
    and "\<not> is_packet cmd" "cmd \<noteq> GetParameter" "\<forall>s. cmd \<noteq> Setup s"
  shows "r = Ok () \<and> w_written w' = w_written w \<and>
     world_level w' = (case cmd of SetParameter v \<Rightarrow> set_level v (others_act (world_level w)) | _ \<Rightarrow> others_act (world_level w))"
proof -
  have "ask Q C cmd w = (Ok (Done r), w')" using assms(1) by (auto simp: apfst_eq done_of_Ok)
  from ask_volume[OF this assms(2)] show ?thesis using assms(3,4) by auto
qed

lemma setup_ask:
  assumes "apfst setup_of (ask Q C (Setup s) w) = (Ok r, w')"
  shows "(\<exists>x. r = Ok x) \<and> world_level w' = others_act (world_level w) \<and> w_written w' = w_written w"
proof -
  have "ask Q C (Setup s) w = (Ok (SetupDone r), w')" using assms(1) by (auto simp: apfst_eq setup_of_Ok)
  from ask_volume[OF this] show ?thesis by (simp add: is_packet_def)
qed

lemma get_ask:
  assumes "apfst volume_of (ask Q C GetParameter w) = (Ok v, w')"
  shows "v = fst (others_act (world_level w)) \<and> world_level w' = others_act (world_level w) \<and> w_written w' = w_written w"
proof -
  have "ask Q C GetParameter w = (Ok (Volume v), w')" using assms(1) by (auto simp: apfst_eq volume_of_Ok)
  from ask_volume[OF this] show ?thesis by (simp add: is_packet_def)
qed

lemma write_keeps:
  "world_write encode r w = (Ok (), w') \<Longrightarrow> world_level w' = world_level w \<and> w_written w' = w_written w @ [r]"
proof (cases "conn_write encode (w_stream_ok w) r (w_conn w)")
  case (Pair e c)
  then show "world_write encode r w = (Ok (), w') \<Longrightarrow>
      world_level w' = world_level w \<and> w_written w' = w_written w @ [r]"
    by (cases e) (auto simp: world_write_def world_level_def)
qed

lemma player_world_simps [simp]:
  "announce_call (player_world Q C encode) = (\<lambda>a w. apfst done_of (ask Q C (Announce a) w))"
  "setup_call (player_world Q C encode) = (\<lambda>s w. apfst setup_of (ask Q C (Setup s) w))"
  "record_call (player_world Q C encode) = (\<lambda>i w. apfst done_of (ask Q C (Record i) w))"
  "teardown_call (player_world Q C encode) = (\<lambda>w. apfst done_of (ask Q C Teardown w))"
  "set_parameter_call (player_world Q C encode) = (\<lambda>v w. apfst done_of (ask Q C (SetParameter v) w))"
  "get_parameter_call (player_world Q C encode) = (\<lambda>w. apfst volume_of (ask Q C GetParameter w))"
  "flush_call (player_world Q C encode) = (\<lambda>i w. apfst done_of (ask Q C (Flush i) w))"
  "write_response (player_world Q C encode) = world_write encode"
  by (simp_all add: player_world_def)

interpretation player_world: player_service "player_world Q C encode" w_written world_level others_act set_level fst
proof (unfold_locales, unfold player_world_simps, goal_cases)
  case (1 a w r w')
  from done_call[OF 1] show ?case by (simp add: is_packet_def)
next
  case (2 s w rs w')
  then show ?case by (rule setup_ask)
next
  case (3 i w r w')
  from done_call[OF 3] show ?case by (simp add: is_packet_def)
next
  case (4 w r w')
  from done_call[OF 4] show ?case by (simp add: is_packet_def)
next
  case (5 i w r w')
  from done_call[OF 5] show ?case by (simp add: is_packet_def)
next
  case (6 v w r w')
  from done_call[OF 6] show ?case by (simp add: is_packet_def)
next
  case (7 w v w')
  then show ?case by (rule get_ask)
next
  case (8 resp w w')
  then show ?case by (rule write_keeps)
qed

end
