(* ===== verification/Session.thy ===== *)
theory Session
  imports Player_Service
begin

text \<open>
  A whole session through the RTSP handler: ANNOUNCE, SETUP and RECORD as requests, executed by the handler
  over the models of the player and of the connection, and what state they leave for the audio packets.
\<close>

section \<open>Commands that succeed\<close>

text \<open>A world whose player runs in state \<open>p\<close>, with a working network and connection.\<close>

definition ready ::
  "setup_net \<Rightarrow> ('q, 'k, 'd, 'f) player \<Rightarrow> ('q, 'k, 'd, 'f) world \<Rightarrow> bool" where
  "ready net p w \<longleftrightarrow> w_player w = Some p \<and> w_others w = [] \<and> w_net w = net \<and> w_stream_ok w \<and>
     \<not> is_shutdown (player_shutdown p)"

lemma ask_ready:
  assumes "ready net p w" "player_step Q C net True cmd p = Ok (p', os)" "\<not> is_packet cmd"
    and "player_shutdown p' = player_shutdown p"
  shows "\<exists>r w'. ask Q C cmd w = (Ok r, w') \<and> reply_to p cmd r \<and> ready net p' w'"
proof -
  obtain r where r: "replies os = [r]" "reply_to p cmd r" using step_reply[OF assms(2,3)] by blast
  have "ask Q C cmd w = (Ok r, w\<lparr>w_others := [], w_effects := w_effects w @ os, w_player := Some p'\<rparr>)"
    using assms(1,2) r(1) by (simp add: ask_def ready_def Let_def player_body_ok command_events_def)
  then show ?thesis using r(2) assms(1,4) by (auto simp: ready_def)
qed

lemma write_ready:
  assumes "ready net p w" "encode r \<noteq> None"
  shows "\<exists>w'. world_write encode r w = (Ok (), w') \<and> ready net p w'"
  using assms by (auto simp: world_write_def conn_write_def ready_def)

lemma default_headers_succeed:
  "req_header req APPLE_CHALLENGE = None \<Longrightarrow> \<exists>r. add_default_headers H h req b = Ok r"
  by (simp add: add_default_headers_def Let_def)

lemma respond_ready:
  assumes "ready net p w" "\<forall>r. encode r \<noteq> None"
  shows "\<exists>w'. io_then (write_response (player_world Q C encode) r) (\<lambda>_. pure (Ok ())) w = (Ok (), w') \<and>
     ready net p w'"
proof -
  obtain w' where "world_write encode r w = (Ok (), w')" "ready net p w'"
    using write_ready[OF assms(1), of encode r] assms(2) by blast
  then show ?thesis by (auto simp: io_then_def)
qed

section \<open>The three requests\<close>

lemma announce_executes:
  assumes "ready net p w" "\<forall>r. encode r \<noteq> None" "req_method req = ANNOUNCE"
    and "req_header req APPLE_CHALLENGE = None" "parse_announce H (req_body req) = Ok a"
    and "player_announce C a p = Ok (p', os)" "player_shutdown p' = player_shutdown p"
  shows "\<exists>w'. execute H (player_world Q C encode) h req w = (Ok (), w') \<and> ready net p' w'"
proof -
  obtain r w1 where "ask Q C (Announce a) w = (Ok r, w1)" "reply_to p (Announce a) r" and w1: "ready net p' w1"
    using ask_ready[OF assms(1), of Q C "Announce a" p' os] assms(6,7) by (auto simp: is_packet_def)
  then have "announce_call (player_world Q C encode) a w = (Ok (Ok ()), w1)"
    by (simp add: reply_to_def done_of_def)
  moreover obtain resp where "add_default_headers H h req (builder StatusOk) = Ok resp"
    using default_headers_succeed[OF assms(4)] by blast
  ultimately show ?thesis
    using respond_ready[OF w1 assms(2), of Q C resp] assms(3,5)
    by (simp add: execute_def handle_announce_def io_then_apply)
qed

lemma setup_executes:
  assumes "ready net p w" "\<forall>r. encode r \<noteq> None" "req_method req = SETUP"
    and "req_header req APPLE_CHALLENGE = None" "setup_ports H req = Some ports" "net_ok net"
  shows "\<exists>w'. execute H (player_world Q C encode) h req w = (Ok (), w') \<and>
     ready net (p\<lparr>notify_shutdown := Some (sessions p), control_tx := Some (sessions p), sessions := Suc (sessions p)\<rparr>) w'"
proof -
  let ?s = "\<lparr>setup_ip = peer_ip h, setup_control_port = fst ports, setup_timing_port = snd ports\<rparr>"
  let ?p = "p\<lparr>notify_shutdown := Some (sessions p), control_tx := Some (sessions p), sessions := Suc (sessions p)\<rparr>"
  obtain os where step: "player_setup net ?s p = Ok (?p, os)" using setup_succeeds[OF assms(6)] by blast
  obtain r w1 where "ask Q C (Setup ?s) w = (Ok r, w1)" "reply_to p (Setup ?s) r" and w1: "ready net ?p w1"
    using ask_ready[OF assms(1), of Q C "Setup ?s" ?p os] step by (auto simp: is_packet_def)
  then obtain x where "setup_call (player_world Q C encode) ?s w = (Ok (Ok x), w1)"
    by (auto simp: reply_to_def setup_of_def)
  moreover obtain resp where "add_default_headers H h req (setup_builder (Ok x)) = Ok resp"
    using default_headers_succeed[OF assms(4)] by blast
  ultimately show ?thesis
    using respond_ready[OF w1 assms(2), of Q C resp] assms(3,5)
    by (cases ports) (simp add: execute_def handle_setup_def io_then_apply)
qed

lemma record_executes:
  assumes "ready net p w" "\<forall>r. encode r \<noteq> None" "req_method req = RECORD"
    and "req_header req APPLE_CHALLENGE = None" "req_header req RTP_INFO = Some v"
    and "rtp_info_parse (nom_parsers H) v = Some (info, rest)"
    and "player_record Q info p = Ok (p', os)" "player_shutdown p' = player_shutdown p"
  shows "\<exists>w'. execute H (player_world Q C encode) h req w = (Ok (), w') \<and> ready net p' w'"
proof -
  obtain r w1 where "ask Q C (Record info) w = (Ok r, w1)" "reply_to p (Record info) r" and w1: "ready net p' w1"
    using ask_ready[OF assms(1), of Q C "Record info" p' os] assms(7,8) by (auto simp: is_packet_def)
  then have "record_call (player_world Q C encode) info w = (Ok (Ok ()), w1)"
    by (simp add: reply_to_def done_of_def)
  then have "with_rtp_info H req (record_call (player_world Q C encode)) w = (Ok (), w1)"
    by (simp add: with_rtp_info_def assms(5,6) io_then_apply del: player_world_simps)
  moreover obtain resp where
    "add_default_headers H h req (add_header AUDIO_LATENCY (Text ''11025'') (builder StatusOk)) = Ok resp"
    using default_headers_succeed[OF assms(4)] by blast
  ultimately show ?thesis
    using respond_ready[OF w1 assms(2), of Q C resp] assms(3)
    by (simp add: execute_def handle_record_def io_then_apply)
qed

text \<open>A request that executes lets the connection's loop go on.\<close>

lemma run_request:
  assumes "execute H W h req w = (Ok (), w')"
  shows "handler_run H W h shutdown_new (Read (Ok (Some (RequestMessage req))) # evs) w =
     handler_run H W h shutdown_new evs w'"
  using assms by (simp add: shutdown_new_def is_shutdown_def)

definition requests :: "request list \<Rightarrow> handler_event list" where
  "requests = map (\<lambda>req. Read (Ok (Some (RequestMessage req))))"

lemma requests_simps [simp]:
  "requests [] = []" "requests (r # rs) = Read (Ok (Some (RequestMessage r))) # requests rs"
  by (simp_all add: requests_def)

lemma session_requests:
  fixes C :: "('k, 'd) codec_ops" and Q :: "'q seq_ops" and zero :: 'f
  assumes w: "ready net (player_new zero) w" "\<forall>r. encode r \<noteq> None" "net_ok net"
    and plain: "\<forall>req \<in> {ra, rs, rr}. req_header req APPLE_CHALLENGE = None"
    and ra: "req_method ra = ANNOUNCE" "parse_announce H (req_body ra) = Ok a"
      "announced_encryption a = Some enc" "length (aeskey enc) = 16" "alac_new C (fmtp a) = Some d"
    and rs: "req_method rs = SETUP" "setup_ports H rs = Some ports"
    and rr: "req_method rr = RECORD" "req_header rr RTP_INFO = Some v"
      "rtp_info_parse (nom_parsers H) v = Some (info, rest)"
  shows "\<exists>p w'. handler_run H (player_world Q C encode) h shutdown_new (requests [ra, rs, rr]) w = (None, w') \<and>
     ready net p w' \<and>
     encryption p = Some enc \<and> cipher p = Some (aes_new C (aeskey enc)) \<and> alac p = Some d \<and>
     frame_buf p = Some 0 \<and> buffers p = [frame_buffer_new (seq_of_u16 Q (rtp_seq info))] \<and>
     sink p = [(\<lparr>channels = 2, sample_rate = 44100, current = None\<rparr>, 0)] \<and> control_tx p \<noteq> None"
proof -
  let ?src = "\<lparr>channels = 2, sample_rate = 44100, current = None\<rparr> :: i16 source"
  define p1 where "p1 = (player_new zero :: ('q, 'k, 'd, 'f) player)\<lparr>encryption := Some enc,
    cipher := Some (aes_new C (aeskey enc)), alac := Some d\<rparr>"
  have 1: "player_announce C a (player_new zero) = Ok (p1, [Reply (Done (Ok ()))])"
    using ra by (simp add: announce_ok p1_def)
  define p2 where "p2 = p1\<lparr>notify_shutdown := Some (sessions p1), control_tx := Some (sessions p1),
    sessions := Suc (sessions p1)\<rparr>"
  define p3 where "p3 = p2\<lparr>buffers := [frame_buffer_new (seq_of_u16 Q (rtp_seq info))], sink := [(?src, 0)],
    frame_buf := Some 0\<rparr>"
  have 3: "player_record Q info p2 = Ok (p3, [Reply (Done (Ok ()))])"
    by (simp add: player_record_def p3_def p2_def p1_def player_new_def Let_def)
  obtain w1 where w1: "execute H (player_world Q C encode) h ra w = (Ok (), w1)" "ready net p1 w1"
    using announce_executes[OF w(1,2) ra(1) _ ra(2) 1, of Q h] plain by (auto simp: p1_def)
  obtain w2 where w2: "execute H (player_world Q C encode) h rs w1 = (Ok (), w2)" "ready net p2 w2"
    using setup_executes[OF w1(2) w(2) rs(1) _ rs(2) w(3), of Q C h] plain by (auto simp: p2_def)
  obtain w3 where w3: "execute H (player_world Q C encode) h rr w2 = (Ok (), w3)" "ready net p3 w3"
    using record_executes[OF w2(2) w(2) rr(1) _ rr(2,3) 3, of C h] plain by (auto simp: p3_def)
  have "handler_run H (player_world Q C encode) h shutdown_new (requests [ra, rs, rr]) w = (None, w3)"
    unfolding requests_simps run_request[OF w1(1)] run_request[OF w2(1)] run_request[OF w3(1)]
    by (simp add: shutdown_new_def is_shutdown_def)
  moreover have "encryption p3 = Some enc \<and> cipher p3 = Some (aes_new C (aeskey enc)) \<and> alac p3 = Some d \<and>
     frame_buf p3 = Some 0 \<and> buffers p3 = [frame_buffer_new (seq_of_u16 Q (rtp_seq info))] \<and>
     sink p3 = [(?src, 0)] \<and> control_tx p3 \<noteq> None"
    by (simp add: p3_def p2_def p1_def)
  ultimately show ?thesis using w3(2) by blast
qed

section \<open>Runs of requests\<close>

lemma run_requests_append:
  assumes "handler_run H W h shutdown_new (requests (rs1 @ rs2)) w = (None, w2)"
  shows "\<exists>w1. handler_run H W h shutdown_new (requests rs1) w = (None, w1) \<and>
     handler_run H W h shutdown_new (requests rs2) w1 = (None, w2)"
  using assms
proof (induction rs1 arbitrary: w)
  case Nil
  then show ?case by (simp add: shutdown_new_def is_shutdown_def)
next
  case (Cons r rs1)
  then obtain w1 where "execute H W h r w = (Ok (), w1)"
    by (cases "execute H W h r w"; cases "fst (execute H W h r w)") (auto simp: shutdown_new_def is_shutdown_def)
  then show ?case using Cons by (simp add: shutdown_new_def is_shutdown_def)
qed

lemma run_single:
  "handler_run H W h shutdown_new (requests [r]) w = (None, w') \<Longrightarrow> execute H W h r w = (Ok (), w')"
  by (cases "execute H W h r w"; cases "fst (execute H W h r w)") (auto simp: shutdown_new_def is_shutdown_def)

context player_service
begin

lemma execute_volume:
  assumes "execute H W h req w = (Ok (), w')"
  shows "level w' = level_after H req (level w)"
proof (cases "req_method req = SETUP \<and> setup_ports H req = None")
  case True
  then show ?thesis using setup_without_ports[of req H h w] assms by (simp add: level_after_def commands_def)
next
  case False
  then show ?thesis using execute_answered[OF assms] by (simp add: answered_def)
qed

lemma requests_keep_volume:
  assumes "handler_run H W h shutdown_new (requests rs) w = (None, w')"
    and "\<forall>r \<in> set rs. req_method r \<noteq> SET_PARAMETER"
  shows "level w' = (tick ^^ sum_list (map (commands H) rs)) (level w)"
  using assms
proof (induction rs arbitrary: w)
  case Nil
  then show ?case by (simp add: shutdown_new_def is_shutdown_def)
next
  case (Cons r rs)
  obtain w1 where w1: "handler_run H W h shutdown_new (requests [r]) w = (None, w1)"
    "handler_run H W h shutdown_new (requests rs) w1 = (None, w')"
    using run_requests_append[of H W h "[r]" rs w w'] Cons.prems(1) by auto
  have "level w1 = (tick ^^ commands H r) (level w)"
    using execute_volume[OF run_single[OF w1(1)]] Cons.prems(2) by (simp add: level_after_def)
  then show ?case
    using Cons.IH[OF w1(2)] Cons.prems(2) by (simp add: add.commute[of "commands H r"] funpow_add)
qed

lemma get_parameter_executed:
  assumes "execute H W h req w = (Ok (), w')" "req_method req = GET_PARAMETER"
  shows "\<exists>str. from_utf8 (req_body req) = Some str \<and> resp_body (last (written w')) =
     (let body = parameter_lines (show_f64 H) (value_of (tick (level w))) str in if body = [] then None else Some body)"
  using get_parameter_answered[of H h req w w'] assms by (simp add: execute_def expected_status_def)

text \<open>Setting and getting the volume, with other requests in between.\<close>

lemma volume_set_and_read:
  assumes "handler_run H W h shutdown_new (requests (set_req # between @ [get_req])) w = (None, w')"
    and "req_method set_req = SET_PARAMETER" "req_header set_req CONTENT_TYPE = Some ''text/parameters''"
    and "from_utf8 (req_body set_req) = Some (''volume:'' @ v @ [CHR 0x0D, CHR 0x0A])" "CHR 0x0A \<notin> set v"
    and "parse_f64 H (str_trim v) = Some x"
    and "\<forall>r \<in> set between. req_method r \<noteq> SET_PARAMETER"
    and "req_method get_req = GET_PARAMETER" "from_utf8 (req_body get_req) = Some (''volume'' @ [CHR 0x0D, CHR 0x0A])"
  shows "resp_body (last (written w')) = Some (''volume: '' @ show_f64 H
     (value_of ((tick ^^ Suc (sum_list (map (commands H) between))) (assign x (tick (level w))))))"
proof -
  obtain w1 where w1: "handler_run H W h shutdown_new (requests [set_req]) w = (None, w1)"
    "handler_run H W h shutdown_new (requests (between @ [get_req])) w1 = (None, w')"
    using run_requests_append[of H W h "[set_req]" "between @ [get_req]"] assms(1) by auto
  obtain w2 where w2: "handler_run H W h shutdown_new (requests between) w1 = (None, w2)"
    "handler_run H W h shutdown_new (requests [get_req]) w2 = (None, w')"
    using run_requests_append[OF w1(2)] by blast
  have "str_lines (''volume:'' @ v @ [CHR 0x0D, CHR 0x0A]) = [''volume:'' @ v]"
    using str_lines_crlf[of "''volume:'' @ v" "[]"] assms(5) by (simp add: str_lines_def)
  moreover have "split_once (CHR '':'') (''volume:'' @ v) = Some (''volume'', v)"
    using split_once_append[of "CHR '':''" "''volume''" v] by simp
  ultimately have "level w1 = assign x (tick (level w))"
    using execute_volume[OF run_single[OF w1(1)]] assms(2-4,6) by (simp add: level_after_def)
  then have "level w2 = (tick ^^ sum_list (map (commands H) between)) (assign x (tick (level w)))"
    using requests_keep_volume[OF w2(1) assms(7)] by simp
  moreover have "str_lines (''volume'' @ [CHR 0x0D, CHR 0x0A]) = [''volume'']"
    using str_lines_crlf[of "''volume''" "[]"] by (simp add: str_lines_def)
  ultimately show ?thesis
    using get_parameter_executed[OF run_single[OF w2(2)] assms(8)] assms(9)
    by (simp add: parameter_lines_def Let_def map_filter_simps)
qed

end

section \<open>Announcements and challenges\<close>

lemma latency_attr:
  "m name = Some (Some (show_nat n)) \<Longrightarrow> n < 2 ^ 32 \<Longrightarrow> latency m name = word_of_nat n"
  by (simp add: latency_def attr_def parse_show_nat)

lemma announce_parses:
  assumes "base64 (b64 H)" and "sdp_parse H body = Some (m # ms)"
    and "m ''fmtp'' = Some (Some (show_nat pt @ CHR '' '' # params))"
    and "m ''min-latency'' = Some (Some (show_nat lo))" "lo < 2 ^ 32"
    and "m ''max-latency'' = Some (Some (show_nat hi))" "hi < 2 ^ 32"
    and "m ''aesiv'' = Some (Some (encode_base64 (b64 H) iv @ pad_iv))" "pad_iv = [] \<or> hd pad_iv = CHR ''=''"
    and "m ''rsaaeskey'' = Some (Some (encode_base64 (b64 H) wrapped @ pad_key))" "pad_key = [] \<or> hd pad_key = CHR ''=''"
    and "rsa_decrypt H wrapped = Some key"
  shows "parse_announce H body =
     Ok \<lparr>fmtp = CHR '' '' # params, minimum_latency = word_of_nat lo, maximum_latency = word_of_nat hi,
         announced_encryption = Some \<lparr>aesiv = iv, aeskey = key\<rparr>\<rparr>"
proof -
  have "find_whitespace (show_nat pt @ CHR '' '' # params) = Some (length (show_nat pt))"
    using show_nat_digits[of pt] digit_not_ws by (intro find_whitespace_after) blast
  then show ?thesis
    using decode_encoded[OF assms(1,9), of iv] decode_encoded[OF assms(1,11), of wrapped] assms
    by (simp add: parse_announce_def attr_def ok_option_def latency_attr Let_def del: find_whitespace.simps)
qed

lemma challenge_signed:
  assumes "base64 (b64 H)" and "req_header req APPLE_CHALLENGE = Some (encode_base64 (b64 H) chall @ pad)"
    and "pad = [] \<or> hd pad = CHR ''=''"
    and "rsa_sign H (chall @ octets (local_ip h) @ hw_addr (config h)) = Some sig"
  shows "\<exists>r. add_default_headers H h req b = Ok r \<and>
     (APPLE_RESPONSE, Text (encode_base64 (b64 H) sig)) \<in> set (resp_headers r)"
  using decode_encoded[OF assms(1,3), of chall] assms(2,4)
  by (simp add: add_default_headers_def calculate_challenge_def Let_def)

lemma setup_answer_readable:
  assumes "parse_transports H (str_replace ''mode=record'' ''mode=\"RECORD\"'' t) = Some (setup_transport res # ts)"
    and "req_header req TRANSPORT = Some t"
  shows "setup_ports H req = Some (resp_control_port res, resp_timing_port res)"
proof -
  have "unat p < 2 ^ 16" for p :: u16 using unsigned_less[of p] by simp
  then show ?thesis
    using assms by (simp add: setup_ports_def setup_transport_def port_of_def parse_show_nat Let_def)
qed

end
