(* ===== verification/Protocol.thy ===== *)
theory Protocol
  imports Session
begin

text \<open>
  The request handler on its connection: \<open>Handler::run\<close> of src/src/rtsp/handler.rs with the reads of
  src/src/rtsp/connection.rs, from the bytes that arrive to the bytes that are written. The theory \<open>Handler\<close> takes
  messages as events; here they are what \<open>read_message\<close> makes of the stream, and the loop is shown to
  behave as if the whole stream had been parsed at once.
\<close>

section \<open>The loop over the byte stream\<close>

text \<open>Up to \<open>k\<close> iterations of the loop; the first component is \<open>None\<close> while it waits for the peer.\<close>

fun serve ::
  "nat \<Rightarrow> 'f handler_ops \<Rightarrow> (('q, 'k, 'd, 'f) world, 'f) world_ops \<Rightarrow> (bytes \<Rightarrow> message parsed) \<Rightarrow> handler \<Rightarrow>
   read_event list \<Rightarrow> ('q, 'k, 'd, 'f) world \<Rightarrow> unit outcome option \<times> ('q, 'k, 'd, 'f) world" where
  "serve 0 H W parse h evs w = (None, w)"
| "serve (Suc k) H W parse h evs w =
     (case read_message parse (w_conn w) evs of
        (None, c, _) \<Rightarrow> (None, w\<lparr>w_conn := c\<rparr>)
      | (Some (Ok (Some (RequestMessage req))), c, evs') \<Rightarrow>
          (case execute H W h req (w\<lparr>w_conn := c\<rparr>) of
             (Ok _, w') \<Rightarrow> serve k H W parse h evs' w'
           | (r, w') \<Rightarrow> (Some r, w'))
      | (Some (Ok (Some _)), c, _) \<Rightarrow> (Some Panic, w\<lparr>w_conn := c\<rparr>)
      | (Some (Ok None), c, _) \<Rightarrow> (Some (Ok ()), w\<lparr>w_conn := c\<rparr>)
      | (Some (Err e), c, _) \<Rightarrow> (Some (Err e), w\<lparr>w_conn := c\<rparr>)
      | (Some Panic, c, _) \<Rightarrow> (Some Panic, w\<lparr>w_conn := c\<rparr>)
      | (Some Hang, c, _) \<Rightarrow> (Some Hang, w\<lparr>w_conn := c\<rparr>))"

section \<open>What executing a request leaves alone\<close>

text \<open>An action that neither looks at nor touches what \<open>f\<close> changes.\<close>

definition commutes :: "('w \<Rightarrow> 'w) \<Rightarrow> ('w, 'a) io \<Rightarrow> bool" where
  "commutes f m \<longleftrightarrow> (\<forall>w. m (f w) = apsnd f (m w))"

text \<open>An action that only moves along \<open>R\<close>.\<close>

definition along :: "('w \<Rightarrow> 'w \<Rightarrow> bool) \<Rightarrow> ('w, 'a) io \<Rightarrow> bool" where
  "along R m \<longleftrightarrow> (\<forall>w. R w (snd (m w)))"

named_theorems commutes_intros "actions that commute with a change of the world"
named_theorems along_intros "actions that move along a relation"

lemma commutes_pure [commutes_intros]: "commutes f (pure x)" "commutes f (Pair x)"
  by (simp_all add: commutes_def)

lemma commutes_then [commutes_intros]:
  assumes "commutes f m" "\<And>a. commutes f (g a)"
  shows "commutes f (io_then m g)"
  unfolding commutes_def
proof
  fix w
  show "io_then m g (f w) = apsnd f (io_then m g w)"
    using assms by (cases "m w"; cases "fst (m w)") (simp_all add: commutes_def io_then_def)
qed

lemma commutes_cases [commutes_intros]:
  "commutes f m \<Longrightarrow> commutes f m' \<Longrightarrow> commutes f (if b then m else m')"
  "commutes f m \<Longrightarrow> (\<And>a. commutes f (g a)) \<Longrightarrow> commutes f (case x of None \<Rightarrow> m | Some a \<Rightarrow> g a)"
  "(\<And>a b. commutes f (g' a b)) \<Longrightarrow> commutes f (case p of (a, b) \<Rightarrow> g' a b)"
  by (simp_all split: option.splits prod.splits)

locale separate_world =
  fixes W :: "('w, 'f) world_ops" and f :: "'w \<Rightarrow> 'w"
  assumes calls [commutes_intros]:
    "commutes f (announce_call W a)" "commutes f (setup_call W s)" "commutes f (record_call W i)"
    "commutes f (teardown_call W)" "commutes f (set_parameter_call W v)" "commutes f (get_parameter_call W)"
    "commutes f (flush_call W i)" "commutes f (write_response W r)"
begin

lemma set_lines_commute [commutes_intros]: "commutes f (set_parameter_lines H W lines)"
  by (induction lines) (auto intro!: commutes_intros)

lemma with_rtp_info_commutes [commutes_intros]:
  "(\<And>i. commutes f (call i)) \<Longrightarrow> commutes f (with_rtp_info H req call)"
  by (auto simp: with_rtp_info_def intro!: commutes_intros split: option.splits)

lemma execute_commutes: "commutes f (execute H W h req)"
  by (cases "req_method req") (auto simp: execute_def handler_defs Let_def intro!: commutes_intros)

end

locale growing_world =
  fixes W :: "('w, 'f) world_ops" and R :: "'w \<Rightarrow> 'w \<Rightarrow> bool"
  assumes stays: "R w w" and goes_on: "R w w1 \<Longrightarrow> R w1 w2 \<Longrightarrow> R w w2"
    and calls [along_intros]:
    "along R (announce_call W a)" "along R (setup_call W s)" "along R (record_call W i)"
    "along R (teardown_call W)" "along R (set_parameter_call W v)" "along R (get_parameter_call W)"
    "along R (flush_call W i)" "along R (write_response W r)"
begin

lemma along_pure [along_intros]: "along R (pure x)" "along R (Pair x)"
  by (simp_all add: along_def stays)

lemma along_then [along_intros]:
  assumes "along R m" "\<And>a. along R (g a)"
  shows "along R (io_then m g)"
  unfolding along_def
proof
  fix w
  obtain r w1 where m: "m w = (r, w1)" by fastforce
  have first: "R w w1" using assms(1) m unfolding along_def by (metis snd_conv)
  have "R w1 (snd (g a w1))" for a using assms(2) by (simp add: along_def)
  then show "R w (snd (io_then m g w))"
    using first goes_on by (cases r) (auto simp: io_then_def m)
qed

lemma set_lines_along [along_intros]: "along R (set_parameter_lines H W lines)"
  by (induction lines) (auto intro!: along_intros split: option.splits)

lemma with_rtp_info_along [along_intros]:
  "(\<And>i. along R (call i)) \<Longrightarrow> along R (with_rtp_info H req call)"
  by (auto simp: with_rtp_info_def intro!: along_intros split: option.splits)

lemma execute_along: "along R (execute H W h req)"
  by (cases "req_method req")
    (auto simp: execute_def handler_defs Let_def intro!: along_intros split: option.splits)

end

section \<open>The world of the player and the connection\<close>

definition with_buffer :: "bytes \<Rightarrow> ('q, 'k, 'd, 'f) world \<Rightarrow> ('q, 'k, 'd, 'f) world" where
  "with_buffer b w = w\<lparr>w_conn := (w_conn w)\<lparr>buffer := b\<rparr>\<rparr>"

lemma with_buffer_simps [simp]:
  "w_player (with_buffer b w) = w_player w" "w_others (with_buffer b w) = w_others w"
  "w_net (with_buffer b w) = w_net w" "w_effects (with_buffer b w) = w_effects w"
  "w_stream_ok (with_buffer b w) = w_stream_ok w" "w_written (with_buffer b w) = w_written w"
  "w_conn (with_buffer b w) = (w_conn w)\<lparr>buffer := b\<rparr>" "with_buffer b (with_buffer b' w) = with_buffer b w"
  by (simp_all add: with_buffer_def)

lemma with_buffer_update:
  "with_buffer b (w\<lparr>w_player := p\<rparr>) = (with_buffer b w)\<lparr>w_player := p\<rparr>"
  "with_buffer b (w\<lparr>w_others := ps, w_effects := os\<rparr>) = (with_buffer b w)\<lparr>w_others := ps, w_effects := os\<rparr>"
  by (simp_all add: with_buffer_def)

lemma ask_buffer: "commutes (with_buffer b) (ask Q C cmd)"
  unfolding commutes_def
proof
  fix w
  show "ask Q C cmd (with_buffer b w) = apsnd (with_buffer b) (ask Q C cmd w)"
    by (auto simp: ask_def Let_def with_buffer_update split: option.splits prod.splits status.splits list.splits)
qed

lemma apfst_commutes: "commutes f m \<Longrightarrow> commutes f (\<lambda>w. apfst g (m w))"
  by (auto simp: commutes_def apfst_def apsnd_def map_prod_def split: prod.splits)

lemma write_buffer: "commutes (with_buffer b) (world_write encode r)"
  unfolding commutes_def
proof
  fix w
  show "world_write encode r (with_buffer b w) = apsnd (with_buffer b) (world_write encode r w)"
    by (cases "encode r") (simp_all add: world_write_def conn_write_def with_buffer_def)
qed

interpretation buffered: separate_world "player_world Q C encode" "with_buffer b"
  by unfold_locales (simp_all add: apfst_commutes ask_buffer write_buffer)

text \<open>What was written is the encoding of the responses, one after another.\<close>

definition writes :: "(response \<Rightarrow> bytes option) \<Rightarrow> ('q, 'k, 'd, 'f) world \<Rightarrow> ('q, 'k, 'd, 'f) world \<Rightarrow> bool" where
  "writes encode w w' \<longleftrightarrow>
     (\<exists>rs. w_written w' = w_written w @ rs \<and>
        stream_out (w_conn w') = stream_out (w_conn w) @ concat (map (the \<circ> encode) rs))"

lemma ask_conn:
  "w_conn (snd (ask Q C cmd w)) = w_conn w" "w_written (snd (ask Q C cmd w)) = w_written w"
  by (simp_all add: ask_def Let_def split: option.splits prod.splits status.splits list.splits)

lemma ask_along: "along (writes encode) (\<lambda>w. apfst g (ask Q C cmd w))"
  by (auto simp: along_def writes_def ask_conn intro: exI[of _ "[]"])

lemma write_along: "along (writes encode) (world_write encode r)"
  unfolding along_def
proof
  fix w
  show "writes encode w (snd (world_write encode r w))"
    by (cases "encode r") (auto simp: world_write_def conn_write_def writes_def intro: exI[of _ "[r]"])
qed

interpretation written: growing_world "player_world Q C encode" "writes encode"
proof unfold_locales
  show "writes encode w w" for w by (simp add: writes_def)
  show "writes encode w w2" if ww: "writes encode w w1" "writes encode w1 w2" for w w1 w2
  proof -
    obtain rs1 rs2 where "w_written w1 = w_written w @ rs1" "w_written w2 = w_written w1 @ rs2"
      "stream_out (w_conn w1) = stream_out (w_conn w) @ concat (map (the \<circ> encode) rs1)"
      "stream_out (w_conn w2) = stream_out (w_conn w1) @ concat (map (the \<circ> encode) rs2)"
      using ww unfolding writes_def by blast
    then show ?thesis unfolding writes_def by (intro exI[of _ "rs1 @ rs2"]) simp
  qed
qed (simp_all add: ask_along write_along)

section \<open>Bytes and messages\<close>

context separate_world
begin

lemma handler_run_commutes: "handler_run H W h sd evs (f w) = apsnd f (handler_run H W h sd evs w)"
proof (induction evs arbitrary: w)
  case Nil
  then show ?case by simp
next
  case (Cons ev evs)
  have exec: "execute H W h req (f w) = apsnd f (execute H W h req w)" for req
    using execute_commutes by (simp add: commutes_def)
  show ?case
  proof (cases "\<exists>req. ev = Read (Ok (Some (RequestMessage req)))")
    case True
    then obtain req where "ev = Read (Ok (Some (RequestMessage req)))" by blast
    then show ?thesis
      using Cons.IH exec by (cases "execute H W h req w"; cases "fst (execute H W h req w)") simp_all
  next
    case False
    then show ?thesis
      by (cases ev) (auto split: outcome.splits option.splits message.splits)
  qed
qed

end

lemma read_message_buffer:
  "read_message parse c evs = (r, c', evs') \<Longrightarrow> c' = c\<lparr>buffer := buffer c'\<rparr>"
proof (induction parse c evs rule: read_message.induct)
  case (1 parse c)
  then show ?case by (cases "parse (buffer c)") (auto simp: parse_message_simps)
next
  case (2 parse c ev evs)
  show ?case
  proof (cases "parse (buffer c)")
    case Incomplete
    show ?thesis
    proof (cases ev)
      case (Chunk d)
      show ?thesis
      proof (cases "d = []")
        case True
        then show ?thesis using 2 Incomplete Chunk by (auto simp: parse_message_simps split: if_splits)
      next
        case False
        have "c' = (c\<lparr>buffer := buffer c @ d\<rparr>)\<lparr>buffer := buffer c'\<rparr>"
          by (rule "2.IH"[OF _ refl]) (use 2 Incomplete Chunk False in \<open>simp_all add: parse_message_simps\<close>)
        then show ?thesis by simp
      qed
    next
      case ReadError
      then show ?thesis using 2 Incomplete by (auto simp: parse_message_simps)
    qed
  qed (use 2 in \<open>auto simp: parse_message_simps\<close>)
qed

text \<open>The events of a stream that was parsed at once.\<close>

definition message_events :: "message list \<times> message option outcome option \<Rightarrow> handler_event list" where
  "message_events x = map (\<lambda>m. Read (Ok (Some m))) (fst x) @ (case snd x of None \<Rightarrow> [] | Some r \<Rightarrow> [Read r])"

lemma message_events_simps [simp]:
  "message_events (m # ms, r) = Read (Ok (Some m)) # message_events (ms, r)"
  "message_events ([], None) = []" "message_events ([], Some x) = [Read x]"
  by (simp_all add: message_events_def)

lemma with_conn: "c = (w_conn w)\<lparr>buffer := buffer c\<rparr> \<Longrightarrow> w\<lparr>w_conn := c\<rparr> = with_buffer (buffer c) w"
  by (simp add: with_buffer_def)

lemma with_own_buffer: "with_buffer (buffer (w_conn w)) w = w"
  by (simp add: with_buffer_def)

context message_parser
begin

lemma read_is_prefix:
  assumes "parse (buffer c @ concat ds) = Parsed m n" "[] \<notin> set ds"
  obtains ds' b where "read_message parse c (closing ds) = (Some (Ok (Some m)), c\<lparr>buffer := b\<rparr>, closing ds')"
    "b @ concat ds' = drop n (buffer c @ concat ds)" "[] \<notin> set ds'"
proof -
  obtain c' ds' where "read_message parse c (closing ds) = (Some (Ok (Some m)), c', closing ds')"
    "buffer c' @ concat ds' = drop n (buffer c @ concat ds)" "[] \<notin> set ds'"
    using read_parsed[OF assms] by blast
  moreover from this(1) have "c' = c\<lparr>buffer := buffer c'\<rparr>" by (rule read_message_buffer)
  ultimately show ?thesis using that[of "buffer c'"] by metis
qed

end

definition agrees ::
  "unit outcome option \<times> ('q, 'k, 'd, 'f) world \<Rightarrow> unit outcome option \<times> ('q, 'k, 'd, 'f) world \<Rightarrow> bool" where
  "agrees x y \<longleftrightarrow> fst x = fst y \<and> (\<exists>b. snd x = with_buffer b (snd y))"

lemma agrees_buffer: "agrees x (apsnd (with_buffer b) y) \<Longrightarrow> agrees x y"
  by (cases y) (auto simp: agrees_def)

lemma serve_stream:
  fixes parse :: "bytes \<Rightarrow> message parsed"
  assumes parser: "message_parser parse"
  shows "[] \<notin> set ds \<Longrightarrow>
     agrees (serve k H (player_world Q C encode) parse h (closing ds) w)
       (handler_run H (player_world Q C encode) h shutdown_new
          (message_events (stream_messages k parse (buffer (w_conn w) @ concat ds))) w)"
proof (induction k arbitrary: ds w)
  case 0
  have "\<exists>b. w = with_buffer b w" by (rule exI[of _ "buffer (w_conn w)"]) (simp only: with_own_buffer)
  then show ?case by (simp add: agrees_def shutdown_new_def is_shutdown_def)
next
  case (Suc k)
  let ?W = "player_world Q C encode"
  let ?b = "buffer (w_conn w) @ concat ds"
  show ?case
  proof (cases "parse ?b")
    case (Parsed m n)
    obtain ds' b where read: "read_message parse (w_conn w) (closing ds) =
        (Some (Ok (Some m)), (w_conn w)\<lparr>buffer := b\<rparr>, closing ds')"
      and rest: "b @ concat ds' = drop n ?b" "[] \<notin> set ds'"
      using message_parser.read_is_prefix[OF parser Parsed Suc.prems] .
    have world: "w\<lparr>w_conn := (w_conn w)\<lparr>buffer := b\<rparr>\<rparr> = with_buffer b w" by (simp add: with_buffer_def)
    then have buffer: "\<exists>b'. w\<lparr>w_conn := (w_conn w)\<lparr>buffer := b\<rparr>\<rparr> = with_buffer b' w" by blast
    obtain ms r where ms: "stream_messages k parse (drop n ?b) = (ms, r)" by fastforce
    show ?thesis
    proof (cases m)
      case (RequestMessage req)
      have exec: "execute H ?W h req (w\<lparr>w_conn := (w_conn w)\<lparr>buffer := b\<rparr>\<rparr>) =
          apsnd (with_buffer b) (execute H ?W h req w)"
        unfolding world by (rule buffered.execute_commutes[unfolded commutes_def, rule_format])
      obtain x w2 where x: "execute H ?W h req w = (x, w2)" by fastforce
      show ?thesis
      proof (cases "x = Ok ()")
        case True
        have "agrees (serve k H ?W parse h (closing ds') (with_buffer b w2))
            (handler_run H ?W h shutdown_new (message_events (ms, r)) (with_buffer b w2))"
          using Suc.IH[OF rest(2), of "with_buffer b w2"] rest(1) ms by simp
        then have "agrees (serve k H ?W parse h (closing ds') (with_buffer b w2))
            (handler_run H ?W h shutdown_new (message_events (ms, r)) w2)"
          unfolding buffered.handler_run_commutes by (rule agrees_buffer)
        then show ?thesis using Parsed read RequestMessage exec x True ms
          by (simp add: shutdown_new_def is_shutdown_def)
      next
        case False
        then show ?thesis using Parsed read RequestMessage exec x ms
          by (cases x) (auto simp: agrees_def shutdown_new_def is_shutdown_def)
      qed
    qed (use Parsed read ms buffer in \<open>auto simp: agrees_def shutdown_new_def is_shutdown_def\<close>)
  next
    case Incomplete
    then obtain c' evs where read: "read_message parse (w_conn w) (closing ds) =
        (Some (if ?b = [] then Ok None else Err ConnectionReset), c', evs)"
      using message_parser.read_incomplete[OF parser _ Suc.prems, of "w_conn w"] by blast
    then show ?thesis using Incomplete with_conn[OF read_message_buffer[OF read]]
      by (auto simp: agrees_def shutdown_new_def is_shutdown_def)
  next
    case Invalid
    then obtain c' evs where read: "read_message parse (w_conn w) (closing ds) = (Some (Err MessageError), c', evs)"
      using message_parser.read_invalid[OF parser _ Suc.prems, of "w_conn w"] by blast
    then show ?thesis using Invalid with_conn[OF read_message_buffer[OF read]]
      by (auto simp: agrees_def shutdown_new_def is_shutdown_def)
  qed
qed

section \<open>Runs of requests\<close>

context player_service
begin

lemma requests_answered:
  "handler_run H W h shutdown_new (requests rs) w = (None, w') \<Longrightarrow>
   \<forall>r \<in> set rs. \<not> (req_method r = SETUP \<and> setup_ports H r = None) \<Longrightarrow>
   \<exists>resps. written w' = written w @ resps \<and> list_all2 answers rs resps"
proof (induction rs arbitrary: w)
  case Nil
  then show ?case by (simp add: shutdown_new_def is_shutdown_def)
next
  case (Cons r rs)
  obtain w1 where w1: "handler_run H W h shutdown_new (requests [r]) w = (None, w1)"
    "handler_run H W h shutdown_new (requests rs) w1 = (None, w')"
    using run_requests_append[of H W h "[r]" rs w w'] Cons.prems(1) by auto
  obtain resp where "written w1 = written w @ [resp]" "answers r resp"
    using execute_answered[OF run_single[OF w1(1)]] Cons.prems(2) unfolding answered_def by auto
  moreover obtain resps where "written w' = written w1 @ resps" "list_all2 answers rs resps"
    using Cons.IH[OF w1(2)] Cons.prems(2) by auto
  ultimately show ?case by (intro exI[of _ "resp # resps"]) simp
qed

end

lemma requests_written:
  "handler_run H (player_world Q C encode) h shutdown_new (requests rs) w = (None, w') \<Longrightarrow> writes encode w w'"
proof (induction rs arbitrary: w)
  case Nil
  then show ?case by (simp add: shutdown_new_def is_shutdown_def writes_def)
next
  case (Cons r rs)
  obtain w1 where w1: "handler_run H (player_world Q C encode) h shutdown_new (requests [r]) w = (None, w1)"
    "handler_run H (player_world Q C encode) h shutdown_new (requests rs) w1 = (None, w')"
    using run_requests_append[of H "player_world Q C encode" h "[r]" rs w w'] Cons.prems by auto
  have "writes encode w w1"
    using written.execute_along[of encode H Q C h r] run_single[OF w1(1)] unfolding along_def by (metis snd_conv)
  then show ?case using Cons.IH[OF w1(2)] written.goes_on by blast
qed

lemma run_to_the_end:
  "handler_run H W h shutdown_new (requests rs) w = (None, w') \<Longrightarrow>
   handler_run H W h shutdown_new (requests rs @ [Read (Ok None)]) w = (Some (Ok ()), w')"
proof (induction rs arbitrary: w)
  case Nil
  then show ?case by (simp add: shutdown_new_def is_shutdown_def)
next
  case (Cons r rs)
  obtain w1 where w1: "handler_run H W h shutdown_new (requests [r]) w = (None, w1)"
    "handler_run H W h shutdown_new (requests rs) w1 = (None, w')"
    using run_requests_append[of H W h "[r]" rs w w'] Cons.prems by auto
  then show ?case using Cons.IH[OF w1(2)] run_single[OF w1(1)] by (simp add: shutdown_new_def is_shutdown_def)
qed

end
