(* ===== verification/Listener.thy ===== *)
theory Listener
  imports Handler
begin

text \<open>
  The TCP listener: src/src/rtsp/listener.rs. Accepting with back-off over the results the operating
  system gives, and the loop that creates a handler for every accepted connection and starts it. A socket is what the
  code asks of it: its local and its peer address, each of which may fail.
\<close>

section \<open>Accepting\<close>

text \<open>\<open>accept\<close> from a given back-off: the sleeps in seconds, the result (\<open>None\<close> while it waits), and the
  results not used.\<close>

fun accept_from :: "nat \<Rightarrow> 's option list \<Rightarrow> nat list \<times> 's outcome option \<times> 's option list" where
  "accept_from backoff [] = ([], None, [])"
| "accept_from backoff (Some socket # rs) = ([], Some (Ok socket), rs)"
| "accept_from backoff (None # rs) =
     (if backoff > 16 then ([], Some (Err IoError), rs)
      else (let (sleeps, r, rs') = accept_from (backoff * 2) rs in (backoff # sleeps, r, rs')))"

definition accept :: "'s option list \<Rightarrow> nat list \<times> 's outcome option \<times> 's option list" where
  "accept rs = accept_from 1 rs"

lemma accept_shorter: "accept_from b rs = (sl, Some r, rs') \<Longrightarrow> length rs' < length rs"
  by (induction b rs arbitrary: sl rule: accept_from.induct) (fastforce split: if_splits prod.splits)+

section \<open>The loop\<close>

type_synonym socket = "ip_addr option \<times> ip_addr option"

text \<open>The listener has the configuration and the socket it listens on, here what that answers to \<open>local_addr\<close>; its ends of the
  shutdown channels are part of the record \<open>server\<close>.\<close>

record listener =
  listener_config :: configuration
  tcp :: "u16 option"

definition handler_new :: "listener \<Rightarrow> connection \<Rightarrow> handler" where
  "handler_new l c = \<lparr>config = listener_config l, local_ip = local_addr c, peer_ip = peer_addr c\<rparr>"

datatype listener_effect = Sleep nat | SpawnHandler handler connection

function listener_run :: "listener \<Rightarrow> socket option list \<Rightarrow> listener_effect list \<times> unit status" where
  "listener_run srv rs =
     (case accept rs of
        (sleeps, None, _) \<Rightarrow> (map Sleep sleeps, Waiting ())
      | (sleeps, Some (Ok socket), rs') \<Rightarrow>
          (case connection_new (fst socket) (snd socket) of
             Ok c \<Rightarrow> (let (os, st) = listener_run srv rs' in (map Sleep sleeps @ SpawnHandler (handler_new srv c) c # os, st))
           | Err e \<Rightarrow> (map Sleep sleeps, Finished (Err e))
           | Panic \<Rightarrow> (map Sleep sleeps, Finished Panic)
           | Hang \<Rightarrow> (map Sleep sleeps, Finished Hang))
      | (sleeps, Some (Err e), _) \<Rightarrow> (map Sleep sleeps, Finished (Err e))
      | (sleeps, Some Panic, _) \<Rightarrow> (map Sleep sleeps, Finished Panic)
      | (sleeps, Some Hang, _) \<Rightarrow> (map Sleep sleeps, Finished Hang))"
  by pat_completeness auto
termination
  by (relation "measure (length \<circ> snd)") (auto simp: accept_def dest: accept_shorter[OF sym])

declare listener_run.simps [simp del]

section \<open>Behaviour\<close>

definition backoffs :: "nat list" where
  "backoffs = [1, 2, 4, 8, 16]"

lemma accept_recovers:
  "k \<le> 5 \<Longrightarrow> accept (replicate k None @ Some s # rs) = (take k backoffs, Some (Ok s), rs)"
proof -
  assume "k \<le> 5"
  then consider "k = 0" | "k = 1" | "k = 2" | "k = 3" | "k = 4" | "k = 5" by linarith
  then show ?thesis by cases (simp_all add: accept_def backoffs_def numeral_eq_Suc)
qed

lemma accept_gives_up:
  "accept (replicate 6 None @ rs) = (backoffs, Some (Err IoError), rs)"
  by (simp add: accept_def backoffs_def numeral_eq_Suc)

lemma accept_waits:
  "k \<le> 5 \<Longrightarrow> accept (replicate k None) = (take k backoffs, None, [])"
proof -
  assume "k \<le> 5"
  then consider "k = 0" | "k = 1" | "k = 2" | "k = 3" | "k = 4" | "k = 5" by linarith
  then show ?thesis by cases (simp_all add: accept_def backoffs_def numeral_eq_Suc)
qed

text \<open>Sockets whose addresses can be asked, each after at most five failures.\<close>

fun arrivals :: "(nat \<times> ip_addr \<times> ip_addr) list \<Rightarrow> socket option list" where
  "arrivals [] = []"
| "arrivals ((k, l, p) # as) = replicate k None @ Some (Some l, Some p) # arrivals as"

fun arrival_effects :: "listener \<Rightarrow> (nat \<times> ip_addr \<times> ip_addr) list \<Rightarrow> listener_effect list" where
  "arrival_effects srv [] = []"
| "arrival_effects srv ((k, l, p) # as) = map Sleep (take k backoffs) @
     SpawnHandler \<lparr>config = listener_config srv, local_ip = l, peer_ip = p\<rparr>
       \<lparr>buffer = [], stream_out = [], local_addr = l, peer_addr = p\<rparr> # arrival_effects srv as"

lemma connection_new_ok:
  "connection_new (Some l) (Some p) = Ok \<lparr>buffer = [], stream_out = [], local_addr = l, peer_addr = p\<rparr>"
  by (simp add: connection_new_def)

lemma listener_serves:
  assumes "\<forall>a \<in> set as. fst a \<le> 5" "listener_run srv rs = (os, st)"
  shows "listener_run srv (arrivals as @ rs) = (arrival_effects srv as @ os, st)"
  using assms(1)
proof (induction as)
  case Nil
  then show ?case using assms(2) by simp
next
  case (Cons a as)
  obtain k l p where a: "a = (k, l, p)" by (cases a) auto
  have "accept (arrivals (a # as) @ rs) = (take k backoffs, Some (Ok (Some l, Some p)), arrivals as @ rs)"
    using accept_recovers[of k "(Some l, Some p)" "arrivals as @ rs"] Cons.prems a by simp
  then show ?case
    using Cons a by (subst listener_run.simps) (simp add: connection_new_ok handler_new_def)
qed

text \<open>What the listener does, whatever the sockets: it creates handlers with its configuration and the addresses of
  their connections, and sleeps at most 16 seconds at a time.\<close>

lemma accept_sleeps: "accept_from b rs = (sl, r, rs') \<Longrightarrow> set sl \<subseteq> {..16}"
proof (induction b rs arbitrary: sl rule: accept_from.induct)
  case (3 b rs)
  then show ?case by (cases "accept_from (b * 2) rs") (auto split: if_splits)
qed simp_all

lemma listener_effects:
  "list_all (\<lambda>e. case e of SpawnHandler h c \<Rightarrow> hw_addr (config h) = hw_addr (listener_config srv) \<and>
      local_ip h = local_addr c \<and> peer_ip h = peer_addr c | Sleep t \<Rightarrow> t \<le> 16) (fst (listener_run srv rs))"
proof (induction rs rule: measure_induct_rule[where f = length])
  case (less rs)
  obtain sl r rs' where acc: "accept rs = (sl, r, rs')" by (cases "accept rs")
  have sl: "set sl \<subseteq> {..16}" using accept_sleeps[of 1 rs sl r rs'] acc by (simp add: accept_def)
  show ?case
  proof (cases r)
    case (Some x)
    then have "length rs' < length rs" using acc accept_shorter by (auto simp: accept_def)
    from less[OF this] show ?thesis using acc Some sl
      by (subst listener_run.simps)
        (auto simp: list_all_iff handler_new_def split: outcome.splits prod.splits)
  qed (use acc sl in \<open>subst listener_run.simps, auto simp: list_all_iff\<close>)
qed

section \<open>Properties of the listener\<close>

text \<open>C25. Accepting survives up to five failures in a row, sleeping 1, 2, 4, 8 and 16 seconds in
  between, and fails on the sixth: 31 seconds of sleep in all (the comment on \<open>accept\<close> says the
  fourth try).\<close>

theorem accept_backoff:
  "accept (replicate k None @ Some s # rs) =
     (if k \<le> 5 then (take k [1, 2, 4, 8, 16], Some (Ok s), rs)
      else ([1, 2, 4, 8, 16], Some (Err IoError), replicate (k - 6) None @ Some s # rs))"
proof (cases "k \<le> 5")
  case True
  then show ?thesis using accept_recovers[OF True] by (simp add: backoffs_def)
next
  case False
  then have "replicate k None = replicate 6 None @ replicate (k - 6) (None :: 'a option)"
    by (simp flip: replicate_add)
  then show ?thesis
    using False accept_gives_up[of "replicate (k - 6) None @ Some s # rs"] by (simp add: backoffs_def)
qed

text \<open>C26. The listener serves every client: each accepted connection, with at most five failures before
  it, gets a handler with the configuration, its own addresses and empty buffers, in order, whatever came before. Six failures
  in a row end the listener with an error, and so does a single connection whose address cannot be
  asked (the comment in server.rs says that errors of individual connections do not get that far).\<close>

theorem listener_serves_until_failure:
  assumes "\<forall>a \<in> set as. fst a \<le> 5" and "k \<le> 5"
  shows "listener_run srv (arrivals as) = (arrival_effects srv as, Waiting ()) \<and>
    listener_run srv (arrivals as @ replicate 6 None @ rs) =
      (arrival_effects srv as @ map Sleep [1, 2, 4, 8, 16], Finished (Err IoError)) \<and>
    listener_run srv (arrivals as @ replicate k None @ Some (l, None) # rs) =
      (arrival_effects srv as @ map Sleep (take k [1, 2, 4, 8, 16]), Finished (Err IoError))"
proof (intro conjI)
  have "listener_run srv [] = ([], Waiting ())"
    by (subst listener_run.simps) (simp add: accept_def)
  from listener_serves[OF assms(1) this] show "listener_run srv (arrivals as) = (arrival_effects srv as, Waiting ())"
    by simp
  have "listener_run srv (replicate 6 None @ rs) = (map Sleep backoffs, Finished (Err IoError))"
    by (subst listener_run.simps) (simp add: accept_gives_up)
  from listener_serves[OF assms(1) this]
  show "listener_run srv (arrivals as @ replicate 6 None @ rs) =
      (arrival_effects srv as @ map Sleep [1, 2, 4, 8, 16], Finished (Err IoError))"
    by (simp add: backoffs_def)
  have "listener_run srv (replicate k None @ Some (l, None) # rs) =
      (map Sleep (take k backoffs), Finished (Err IoError))"
    by (subst listener_run.simps, subst accept_recovers[OF assms(2)])
      (cases l; simp add: connection_new_def)
  from listener_serves[OF assms(1) this]
  show "listener_run srv (arrivals as @ replicate k None @ Some (l, None) # rs) =
      (arrival_effects srv as @ map Sleep (take k [1, 2, 4, 8, 16]), Finished (Err IoError))"
    by (simp add: backoffs_def)
qed

theorem listener_serves_until_failure_witness:
  "listener_run \<lparr>listener_config = main_config (\<lambda>_. []) 0 ''A'', tcp = Some 5000\<rparr> [None, None, Some (Some (V4 [10, 0, 0, 1]), Some (V4 [10, 0, 0, 2])), None, Some (None, None)] =
     ([Sleep 1, Sleep 2, SpawnHandler
        \<lparr>config = main_config (\<lambda>_. []) 0 ''A'', local_ip = V4 [10, 0, 0, 1], peer_ip = V4 [10, 0, 0, 2]\<rparr> \<lparr>buffer = [], stream_out = [], local_addr = V4 [10, 0, 0, 1],
        peer_addr = V4 [10, 0, 0, 2]\<rparr>, Sleep 1], Finished (Err IoError))"
  using listener_serves_until_failure [where srv = "\<lparr>listener_config = main_config (\<lambda>_. []) 0 ''A'', tcp = Some 5000\<rparr>" and as = "[(2, V4 [10, 0, 0, 1], V4 [10, 0, 0, 2])]"
      and k = 1 and l = None and rs = "[]"]
  by (simp add: backoffs_def numeral_eq_Suc)

end
