(* ===== verification/Server.thy ===== *)
theory Server
  imports Listener Mdns
begin

text \<open>
  The life of the server: src/src/server.rs. \<open>run\<close> waits for the first of the listener, the mDNS task, the
  player and the shutdown signal to finish, drops its own handles one after another, and then waits
  until no sender of the shutdown-complete channel is left. The handlers run concurrently, so this is
  a step relation in which a handler may end between any two steps of \<open>run\<close>.
\<close>

section \<open>State and steps\<close>

text \<open>Where \<open>run\<close> is: in \<open>select!\<close>, before each of its four drops, in the final \<open>recv\<close>, or finished.\<close>

datatype phase =
    Selecting | DroppingPlayer | DroppingMdns | DroppingNotify | DroppingComplete | AwaitComplete | Stopped

datatype cause = ListenerEnded | MdnsEnded | PlayerEnded | ShutdownSignal

text \<open>\<open>Mdns::run\<close> spawns the responder task of libmdns when it is first polled. That task has no sender of the
  shutdown-complete channel, and \<open>run\<close> does not keep its handle.\<close>

datatype responder = NotSpawned | Responding | Ended

text \<open>The senders of the shutdown-complete channel: the listener's own, the ones in \<open>mdns\<close> and \<open>player\<close>, and
  one per running handler. A handler that is told to stop is one in its \<open>select!\<close>; what the
  others wait for is the subject of \<open>Server_Tasks\<close>.\<close>

record server =
  phase :: phase
  own_tx :: bool
  mdns_tx :: bool
  player_tx :: bool
  notify :: bool
  handlers :: nat
  mdns_task :: responder

definition server_new :: server where
  "server_new = \<lparr>phase = Selecting, own_tx = True, mdns_tx = True, player_tx = True, notify = True, handlers = 0,
     mdns_task = NotSpawned\<rparr>"

definition senders :: "server \<Rightarrow> nat" where
  "senders s = of_bool (own_tx s) + of_bool (mdns_tx s) + of_bool (player_tx s) + handlers s"

text \<open>\<open>run\<close> up to its \<open>select!\<close>: the address of the listening socket is asked, and the mDNS task and the listener are
  created. A socket is what it answers to \<open>local_addr\<close>.\<close>

definition run_start :: "configuration \<Rightarrow> u16 option \<Rightarrow> (mdns \<times> listener \<times> server) outcome" where
  "run_start cfg socket =
     and_then (ok_or IoError socket) (\<lambda>local_port.
       let m = \<lparr>mdns_config = cfg, mdns_port = local_port, mdns_shutdown = shutdown_new\<rparr>;
           srv = \<lparr>listener_config = cfg, tcp = socket\<rparr>
       in Ok (m, srv, server_new))"

definition main_program ::
  "bool \<Rightarrow> (bytes \<Rightarrow> bytes) \<Rightarrow> cli_opts \<Rightarrow> (string \<Rightarrow> u16 option option) \<Rightarrow>
   (mdns \<times> listener \<times> server) outcome" where
  "main_program tracing_ok md5 opts bind =
     and_then (main_listen tracing_ok md5 opts bind) (\<lambda>(cfg, socket). run_start cfg socket)"

text \<open>A handler ends on its own (its peer closed, an error), or because the broadcast channel was
  dropped and its \<open>shutdown.recv()\<close> returned. When the responder task ends is up to libmdns. The final
  \<open>recv\<close> gets no value, as nobody sends one: it returns when the last sender is dropped.\<close>

datatype label =
  Accepted | HandlerEnded | HandlerTold | ResponderSpawned | ResponderEnded | Selected cause | Proceed

inductive server_step :: "server \<Rightarrow> label \<Rightarrow> server \<Rightarrow> bool" where
  accepted: "phase s = Selecting \<Longrightarrow> server_step s Accepted (s\<lparr>handlers := Suc (handlers s)\<rparr>)"
| handler_ended: "handlers s = Suc n \<Longrightarrow> server_step s HandlerEnded (s\<lparr>handlers := n\<rparr>)"
| handler_told: "handlers s = Suc n \<Longrightarrow> \<not> notify s \<Longrightarrow> server_step s HandlerTold (s\<lparr>handlers := n\<rparr>)"
| responder_spawned: "phase s = Selecting \<Longrightarrow> mdns_task s = NotSpawned \<Longrightarrow>
    server_step s ResponderSpawned (s\<lparr>mdns_task := Responding\<rparr>)"
| responder_ended: "mdns_task s = Responding \<Longrightarrow> server_step s ResponderEnded (s\<lparr>mdns_task := Ended\<rparr>)"
| selected: "phase s = Selecting \<Longrightarrow> server_step s (Selected c) (s\<lparr>phase := DroppingPlayer\<rparr>)"
| drop_player: "phase s = DroppingPlayer \<Longrightarrow> server_step s Proceed (s\<lparr>player_tx := False, phase := DroppingMdns\<rparr>)"
| drop_mdns: "phase s = DroppingMdns \<Longrightarrow> server_step s Proceed (s\<lparr>mdns_tx := False, phase := DroppingNotify\<rparr>)"
| drop_notify: "phase s = DroppingNotify \<Longrightarrow> server_step s Proceed (s\<lparr>notify := False, phase := DroppingComplete\<rparr>)"
| drop_complete: "phase s = DroppingComplete \<Longrightarrow> server_step s Proceed (s\<lparr>own_tx := False, phase := AwaitComplete\<rparr>)"
| complete: "phase s = AwaitComplete \<Longrightarrow> senders s = 0 \<Longrightarrow> server_step s Proceed (s\<lparr>phase := Stopped\<rparr>)"

inductive_cases accepted_E: "server_step s Accepted s'"
inductive_cases handler_ended_E: "server_step s HandlerEnded s'"
inductive_cases handler_told_E: "server_step s HandlerTold s'"
inductive_cases responder_spawned_E: "server_step s ResponderSpawned s'"
inductive_cases responder_ended_E: "server_step s ResponderEnded s'"
inductive_cases selected_E: "server_step s (Selected c) s'"
inductive_cases proceed_E: "server_step s Proceed s'"
lemmas server_step_elims = accepted_E handler_ended_E handler_told_E responder_spawned_E
  responder_ended_E selected_E proceed_E

inductive server_reach :: "server \<Rightarrow> bool" where
  start: "server_reach server_new"
| step: "server_reach s \<Longrightarrow> server_step s l s' \<Longrightarrow> server_reach s'"

section \<open>Invariant and measure\<close>

text \<open>How far \<open>run\<close> is, as a number that its own steps decrease.\<close>

fun remaining :: "phase \<Rightarrow> nat" where
  "remaining Selecting = 6"
| "remaining DroppingPlayer = 5"
| "remaining DroppingMdns = 4"
| "remaining DroppingNotify = 3"
| "remaining DroppingComplete = 2"
| "remaining AwaitComplete = 1"
| "remaining Stopped = 0"

definition server_inv :: "server \<Rightarrow> bool" where
  "server_inv s \<longleftrightarrow>
     (player_tx s \<longleftrightarrow> 5 \<le> remaining (phase s)) \<and> (mdns_tx s \<longleftrightarrow> 4 \<le> remaining (phase s)) \<and>
     (notify s \<longleftrightarrow> 3 \<le> remaining (phase s)) \<and> (own_tx s \<longleftrightarrow> 2 \<le> remaining (phase s)) \<and>
     (phase s = Stopped \<longrightarrow> handlers s = 0)"

lemma server_step_inv: "server_step s l s' \<Longrightarrow> server_inv s \<Longrightarrow> server_inv s'"
  by (induction rule: server_step.induct) (auto simp: server_inv_def senders_def)

lemma server_reach_inv: "server_reach s \<Longrightarrow> server_inv s"
proof (induction rule: server_reach.induct)
  case start
  then show ?case by (simp add: server_inv_def server_new_def)
next
  case (step s l s')
  then show ?case using server_step_inv by blast
qed

definition server_measure :: "server \<Rightarrow> nat" where
  "server_measure s = remaining (phase s) + handlers s + of_bool (mdns_task s = Responding)"

lemma server_step_decreases:
  "server_step s l s' \<Longrightarrow> phase s \<noteq> Selecting \<Longrightarrow> server_measure s' < server_measure s \<and> phase s' \<noteq> Selecting"
  by (induction rule: server_step.induct) (auto simp: server_measure_def)

text \<open>After the \<open>select!\<close> there is always a step, and one of \<open>run\<close> itself or of a handler that has been
  told to stop: the server never waits for a client to close.\<close>

lemma server_progress:
  assumes "server_inv s" "phase s \<noteq> Selecting" "phase s \<noteq> Stopped"
  shows "\<exists>l s'. l \<in> {Proceed, HandlerTold} \<and> server_step s l s'"
proof (cases "phase s")
  case AwaitComplete
  then have "\<not> notify s" "senders s = handlers s"
    using assms(1) by (simp_all add: server_inv_def senders_def)
  then show ?thesis
    using AwaitComplete by (cases "handlers s") (auto intro: complete handler_told)
qed (use assms in \<open>auto intro: drop_player drop_mdns drop_notify drop_complete\<close>)

text \<open>Runs of the step relation.\<close>

inductive server_steps :: "server \<Rightarrow> label list \<Rightarrow> server \<Rightarrow> bool" where
  none: "server_steps s [] s"
| more: "server_step s l s' \<Longrightarrow> server_steps s' ls s'' \<Longrightarrow> server_steps s (l # ls) s''"

lemma server_steps_bounded:
  "server_steps s ls s' \<Longrightarrow> phase s \<noteq> Selecting \<Longrightarrow> length ls + server_measure s' \<le> server_measure s"
proof (induction rule: server_steps.induct)
  case (none s)
  then show ?case by simp
next
  case (more s l s' ls s'')
  then show ?case using server_step_decreases[OF more.hyps(1) more.prems] by auto
qed

lemma server_stops:
  assumes "server_inv s" "phase s \<noteq> Selecting"
  shows "\<exists>ls s'. set ls \<subseteq> {Proceed, HandlerTold} \<and> server_steps s ls s' \<and> phase s' = Stopped \<and>
     mdns_task s' = mdns_task s"
  using assms
proof (induction "server_measure s" arbitrary: s rule: less_induct)
  case less
  show ?case
  proof (cases "phase s = Stopped")
    case True
    then show ?thesis by (intro exI[of _ "[]"] exI[of _ s]) (auto intro: server_steps.none)
  next
    case False
    obtain l s1 where l: "l \<in> {Proceed, HandlerTold}" "server_step s l s1"
      using server_progress[OF less.prems False] by blast
    have same: "mdns_task s1 = mdns_task s" using l by (auto elim: proceed_E handler_told_E)
    note dec = server_step_decreases[OF l(2) less.prems(2)]
    obtain ls s' where "set ls \<subseteq> {Proceed, HandlerTold}" "server_steps s1 ls s'" "phase s' = Stopped"
      "mdns_task s' = mdns_task s1"
      using less.hyps[OF conjunct1[OF dec] server_step_inv[OF l(2) less.prems(1)] conjunct2[OF dec]] by blast
    then show ?thesis using l same by (intro exI[of _ "l # ls"] exI[of _ s']) (auto intro: server_steps.more)
  qed
qed

section \<open>Properties of the server\<close>



text \<open>C27. What is advertised is what serves: when the program has started, the port in the mDNS service is the one
  the operating system gave the listener (with the default port 0, a free one), the service name carries the
  configured name and the first six bytes of its digest, nothing has been handled yet, and every handler that the listener
  creates later, whatever sockets come, has these six bytes as the hardware address with which it signs
  challenges.\<close>

theorem advertisement_matches_listener:
  assumes "main_program tracing_ok md5 opts bind = Ok (m, srv, s)"
  shows "bind (''0.0.0.0:'' @ show_nat (unat (opt_port opts))) = Some (tcp srv) \<and> tcp srv = Some (mdns_port m) \<and> s = server_new \<and>
     fst (mdns_run True m evs) =
       [\<lparr>service_type = ''_raop._tcp'',
         service_name = concat (map (\<lambda>i. hex_byte (md5 (bytes_of_str (opt_name opts)) ! i)) [0..<6]) @ CHR ''@'' # opt_name opts,
         service_port = mdns_port m, service_txt = mdns_txt\<rparr>] \<and>
     list_all (\<lambda>e. case e of SpawnHandler h c \<Rightarrow>
           hw_addr (config h) = map (\<lambda>i. md5 (bytes_of_str (opt_name opts)) ! i) [0..<6] \<and>
           local_ip h = local_addr c \<and> peer_ip h = peer_addr c
         | Sleep t \<Rightarrow> t \<le> 16) (fst (listener_run srv rs))"
proof -
  let ?cfg = "main_config md5 (opt_port opts) (opt_name opts)"
  have start: "m = \<lparr>mdns_config = ?cfg, mdns_port = mdns_port m, mdns_shutdown = shutdown_new\<rparr>" "listener_config srv = ?cfg"
    "bind (''0.0.0.0:'' @ show_nat (unat (opt_port opts))) = Some (tcp srv)" "tcp srv = Some (mdns_port m)" "s = server_new"
    using assms by (auto simp: main_program_def main_listen_def run_start_def Let_def outcome_iffs main_config_def)
  have "fst (task_loop mdns_body shutdown_new evs) = []" by (cases evs) (simp_all add: mdns_body_def)
  then have "fst (mdns_run True m evs) = [mdns_register ?cfg (mdns_port m)]"
    by (subst start(1)) (cases "task_loop mdns_body shutdown_new evs", simp add: mdns_run_def)
  moreover have six: "[0..<6] = [0, 1, 2, 3, 4, 5 :: nat]" by (simp add: upt_rec)
  moreover have hw: "hw_addr ?cfg = map (\<lambda>i. md5 (bytes_of_str (opt_name opts)) ! i) [0..<6]"
    by (simp add: main_config_def Let_def six)
  moreover have "list_all (\<lambda>e. case e of SpawnHandler h c \<Rightarrow> hw_addr (config h) = hw_addr ?cfg \<and>
      local_ip h = local_addr c \<and> peer_ip h = peer_addr c | Sleep t \<Rightarrow> t \<le> 16) (fst (listener_run srv rs))"
    unfolding start(2)[symmetric] by (rule listener_effects)
  ultimately show ?thesis
    using start by (simp add: mdns_register_def mdns_service_name_def mdns_hw_addr_def main_config_def Let_def)
qed

theorem advertisement_matches_listener_witness:
  "fst (mdns_run True \<lparr>mdns_config = main_config (\<lambda>_. replicate 16 0xA0) 0 ''Airguitar'', mdns_port = 40123,
       mdns_shutdown = shutdown_new\<rparr> []) =
     [\<lparr>service_type = ''_raop._tcp'', service_name = ''A0A0A0A0A0A0@Airguitar'', service_port = 40123,
       service_txt = mdns_txt\<rparr>]"
proof -
  let ?cfg = "main_config (\<lambda>_. replicate 16 0xA0) 0 ''Airguitar''"
  have "main_program True (\<lambda>_. replicate 16 0xA0) default_opts (\<lambda>_. Some (Some 40123)) =
      Ok (\<lparr>mdns_config = ?cfg, mdns_port = 40123, mdns_shutdown = shutdown_new\<rparr>,
        \<lparr>listener_config = ?cfg, tcp = Some 40123\<rparr>, server_new)"
    by (simp add: main_program_def main_listen_def run_start_def default_opts_def Let_def)
  note a = advertisement_matches_listener [OF this, of "[]" "[]"]
  have "concat (map (\<lambda>i. hex_byte (replicate 16 (0xA0 :: u8) ! i)) [0..<6]) @ CHR ''@'' # ''Airguitar'' =
      ''A0A0A0A0A0A0@Airguitar''" by code_simp
  then show ?thesis using a by (simp add: default_opts_def)
qed

end
