(* ===== verification/Server_Tasks.thy ===== *)
theory Server_Tasks
  imports Server Handler "HOL-Library.Multiset"
begin

text \<open>
  The server with its connection handlers at work: what a handler does between two requests
  (\<open>Handler::run\<close> and \<open>execute\<close> in src/src/rtsp/handler.rs) and how it takes part in the end of the server
  (src/src/server.rs). A handler is in its \<open>select!\<close>, or it has commands to exchange with the player, or it writes
  its response; only the \<open>select!\<close> listens to the shutdown notice. The steps refine the abstract server of
  \<open>Server\<close>, in which handlers end at any time.
\<close>

section \<open>What executing a request does\<close>

text \<open>The calls of a request in their order.\<close>

datatype call = Command | Answer

definition note_call :: "call \<Rightarrow> ('w, 'a) io \<Rightarrow> ('w \<times> call list, 'a) io" where
  "note_call c m = (\<lambda>(w, l). case m w of (r, w') \<Rightarrow> (r, (w', l @ [c])))"

definition logged :: "('w, 'f) world_ops \<Rightarrow> ('w \<times> call list, 'f) world_ops" where
  "logged W =
     \<lparr>announce_call = (\<lambda>a. note_call Command (announce_call W a)),
      setup_call = (\<lambda>s. note_call Command (setup_call W s)),
      record_call = (\<lambda>i. note_call Command (record_call W i)),
      teardown_call = note_call Command (teardown_call W),
      set_parameter_call = (\<lambda>v. note_call Command (set_parameter_call W v)),
      get_parameter_call = note_call Command (get_parameter_call W),
      flush_call = (\<lambda>i. note_call Command (flush_call W i)),
      write_response = (\<lambda>r. note_call Answer (write_response W r))\<rparr>"

lemma logged_simps [simp]:
  "announce_call (logged W) a = note_call Command (announce_call W a)"
  "setup_call (logged W) s = note_call Command (setup_call W s)"
  "record_call (logged W) i = note_call Command (record_call W i)"
  "teardown_call (logged W) = note_call Command (teardown_call W)"
  "set_parameter_call (logged W) v = note_call Command (set_parameter_call W v)"
  "get_parameter_call (logged W) = note_call Command (get_parameter_call W)"
  "flush_call (logged W) i = note_call Command (flush_call W i)"
  "write_response (logged W) r = note_call Answer (write_response W r)"
  by (simp_all add: logged_def)

text \<open>The number of commands of a request.\<close>

definition sets_volume :: "string \<Rightarrow> bool" where
  "sets_volume line = (case split_once (CHR '':'') line of Some (name, _) \<Rightarrow> name = ''volume'' | None \<Rightarrow> False)"

definition asks :: "'f handler_ops \<Rightarrow> request \<Rightarrow> nat" where
  "asks H req =
     (if req_method req = SET_PARAMETER \<and> req_header req CONTENT_TYPE = Some ''text/parameters''
      then length (filter sets_volume (str_lines (the (from_utf8 (req_body req)))))
      else commands H req)"

definition unanswered :: "'f handler_ops \<Rightarrow> request \<Rightarrow> bool" where
  "unanswered H req \<longleftrightarrow> req_method req = SETUP \<and> setup_ports H req = None"

text \<open>An action that succeeds, and the calls it makes.\<close>

definition calls :: "('w, 'a) io \<Rightarrow> ('w \<times> call list, 'a) io \<Rightarrow> 'w \<Rightarrow> 'a \<Rightarrow> 'w \<Rightarrow> call list \<Rightarrow> bool" where
  "calls m m' w a w' cs \<longleftrightarrow> m w = (Ok a, w') \<and> (\<forall>l. m' (w, l) = (Ok a, (w', l @ cs)))"

lemma calls_pure: "pure x w = (Ok a, w') \<Longrightarrow> calls (pure x) (pure x) w a w' []"
  by (simp add: calls_def)

lemma calls_note: "m w = (Ok a, w') \<Longrightarrow> calls m (note_call c m) w a w' [c]"
  by (simp add: calls_def note_call_def)

lemma calls_then:
  "calls m m' w a w1 cs \<Longrightarrow> calls (f a) (f' a) w1 b w2 ds \<Longrightarrow> calls (io_then m f) (io_then m' f') w b w2 (cs @ ds)"
  by (simp add: calls_def io_then_def)

lemma calls_thenE:
  assumes "io_then m f w = (Ok b, w2)"
    and "\<And>a w1. m w = (Ok a, w1) \<Longrightarrow> calls m m' w a w1 cs"
    and "\<And>a w1. f a w1 = (Ok b, w2) \<Longrightarrow> calls (f a) (f' a) w1 b w2 ds"
  shows "calls (io_then m f) (io_then m' f') w b w2 (cs @ ds)"
proof -
  obtain a w1 where "m w = (Ok a, w1)" "f a w1 = (Ok b, w2)" using assms(1) by (auto simp: io_then_Ok)
  then show ?thesis using assms(2,3) by (intro calls_then)
qed

text \<open>Each method makes its commands first and then answers once.\<close>

lemma set_lines_calls:
  "set_parameter_lines H W lines w = (Ok (), w') \<Longrightarrow>
   calls (set_parameter_lines H W lines) (set_parameter_lines H (logged W) lines) w () w'
     (replicate (length (filter sets_volume lines)) Command)"
proof (induction lines arbitrary: w)
  case Nil
  then show ?case by (simp add: calls_def)
next
  case (Cons line lines)
  show ?case
  proof (cases "sets_volume line")
    case True
    then obtain v where v: "split_once (CHR '':'') line = Some (''volume'', v)"
      by (auto simp: sets_volume_def split: option.splits)
    then obtain vol r w1 where vol: "parse_f64 H (str_trim v) = Some vol"
      and w1: "set_parameter_call W vol w = (Ok r, w1)" "set_parameter_lines H W lines w1 = (Ok (), w')"
      using Cons.prems by (auto simp: io_then_Ok ok_or_eq_Ok)
    then show ?thesis using Cons.IH[OF w1(2)] True v
      by (simp add: calls_def io_then_apply note_call_def)
  next
    case False
    then have "set_parameter_lines H W (line # lines) = set_parameter_lines H W lines"
      "set_parameter_lines H (logged W) (line # lines) = set_parameter_lines H (logged W) lines"
      by (auto simp: sets_volume_def split: option.splits prod.splits)
    then show ?thesis using Cons False by simp
  qed
qed

lemma rtp_info_calls:
  assumes "with_rtp_info H req call w = (Ok (), w')" "\<And>i. call' i = note_call Command (call i)"
  shows "calls (with_rtp_info H req call) (with_rtp_info H req call') w () w' (replicate (info_commands H req) Command)"
  using assms
  by (auto simp: calls_def with_rtp_info_def info_commands_def io_then_Ok note_call_def split: option.splits)

lemma execute_calls:
  assumes "execute H W h req w = (Ok (), w')"
  shows "calls (execute H W h req) (execute H (logged W) h req) w () w'
     (replicate (asks H req) Command @ (if unanswered H req then [] else [Answer]))"
proof (cases "req_method req")
  case SET_PARAMETER
  show ?thesis
  proof (cases "req_header req CONTENT_TYPE = Some ''text/parameters''")
    case True
    then obtain str w1 where "from_utf8 (req_body req) = Some str"
      "set_parameter_lines H W (str_lines str) w = (Ok (), w1)"
      using assms SET_PARAMETER by (auto simp: execute_def handle_set_parameter_def io_then_Ok ok_or_eq_Ok)
    then show ?thesis using assms SET_PARAMETER True set_lines_calls[of H W "str_lines str" w w1]
      by (auto simp: execute_def handle_set_parameter_def calls_def io_then_Ok note_call_def asks_def unanswered_def)
  next
    case False
    then show ?thesis using assms SET_PARAMETER
      by (auto simp: execute_def handle_set_parameter_def calls_def io_then_Ok note_call_def asks_def commands_def
          unanswered_def)
  qed
next
  case RECORD
  then obtain w1 where "with_rtp_info H req (record_call W) w = (Ok (), w1)"
    using assms by (auto simp: execute_def handle_record_def io_then_Ok)
  from rtp_info_calls[OF this, of "record_call (logged W)"] show ?thesis using assms RECORD
    by (auto simp: execute_def handle_record_def calls_def io_then_Ok note_call_def asks_def commands_def unanswered_def)
next
  case (EXTENSION ext)
  then have ext: "execute H W h req = handle_flush H W h req" "execute H (logged W) h req = handle_flush H (logged W) h req"
    using assms by (auto simp: execute_def split: if_splits)
  then obtain w1 where "with_rtp_info H req (flush_call W) w = (Ok (), w1)"
    using assms by (auto simp: handle_flush_def io_then_Ok)
  from rtp_info_calls[OF this, of "flush_call (logged W)"] show ?thesis using assms EXTENSION unfolding ext
    by (auto simp: handle_flush_def calls_def io_then_Ok note_call_def asks_def commands_def unanswered_def)
next
  case GET_PARAMETER
  then show ?thesis using assms
    by (auto simp: execute_def handle_get_parameter_def calls_def io_then_Ok note_call_def asks_def commands_def
        unanswered_def Let_def split del: if_split)
next
  case ANNOUNCE
  then show ?thesis using assms
    by (auto simp: execute_def handle_announce_def calls_def io_then_Ok note_call_def asks_def commands_def
        unanswered_def split del: if_split)
qed (use assms in \<open>auto simp: execute_def handler_defs calls_def io_then_Ok note_call_def asks_def commands_def
  unanswered_def Let_def split: option.splits\<close>)

section \<open>The phases of a request\<close>

text \<open>Where a handler is: in its \<open>select!\<close>, or with so many commands left, after which it writes its response or
  ends with an error (or a panic) without one.\<close>

datatype ending = Writes | Fails

datatype handler_at = Reading | Busy nat ending

definition is_ok :: "'a outcome \<Rightarrow> bool" where
  "is_ok x = (case x of Ok _ \<Rightarrow> True | _ \<Rightarrow> False)"

lemma is_ok_simps [simp]: "is_ok (Ok a)" "\<not> is_ok (Err e)" "\<not> is_ok Panic" "\<not> is_ok Hang"
  by (simp_all add: is_ok_def)

lemma is_ok_iff: "is_ok x \<longleftrightarrow> (\<exists>a. x = Ok a)"
  by (cases x) simp_all

lemma is_ok_ok_or [simp]: "is_ok (ok_or e x) \<longleftrightarrow> x \<noteq> None"
  by (cases x) simp_all

text \<open>Every step of a request that can fail on its own, whatever the player and the connection do.\<close>

definition challenge_ok :: "'f handler_ops \<Rightarrow> handler \<Rightarrow> request \<Rightarrow> bool" where
  "challenge_ok H h req =
     (case req_header req APPLE_CHALLENGE of
        Some challenge \<Rightarrow> is_ok (calculate_challenge H h challenge)
      | None \<Rightarrow> True)"

fun volume_lines :: "'f handler_ops \<Rightarrow> string list \<Rightarrow> nat \<times> bool" where
  "volume_lines H [] = (0, True)"
| "volume_lines H (line # lines) =
     (case split_once (CHR '':'') line of
        Some (name, volume) \<Rightarrow>
          if name = ''volume'' then
            (case parse_f64 H (str_trim volume) of
               Some _ \<Rightarrow> (let (k, parsed) = volume_lines H lines in (Suc k, parsed))
             | None \<Rightarrow> (0, False))
          else volume_lines H lines
      | None \<Rightarrow> volume_lines H lines)"

definition begin_request :: "'f handler_ops \<Rightarrow> handler \<Rightarrow> request \<Rightarrow> handler_at" where
  "begin_request H h req =
     (let ending = (if challenge_ok H h req then Writes else Fails);
          first = (\<lambda>k. if challenge_ok H h req then Busy k Writes else Busy 0 Fails)
      in case req_method req of
        OPTIONS \<Rightarrow> Busy 0 ending
      | SETUP \<Rightarrow> (if setup_ports H req = None then Reading else Busy 1 ending)
      | GET_PARAMETER \<Rightarrow>
          (if from_utf8 (req_body req) = None then (case first 1 of Busy k _ \<Rightarrow> Busy k Fails | Reading \<Rightarrow> Reading) else first 1)
      | SET_PARAMETER \<Rightarrow>
          (if req_header req CONTENT_TYPE = Some ''text/parameters''
           then (case from_utf8 (req_body req) of
                   Some str \<Rightarrow> (let (k, parsed) = volume_lines H (str_lines str) in Busy k (if parsed then ending else Fails))
                 | None \<Rightarrow> Busy 0 Fails)
           else Busy 0 Writes)
      | ANNOUNCE \<Rightarrow> (if is_ok (parse_announce H (req_body req)) then Busy 1 ending else Busy 0 Fails)
      | RECORD \<Rightarrow> first (info_commands H req)
      | TEARDOWN \<Rightarrow> first 1
      | EXTENSION extension \<Rightarrow>
          (if extension = ''FLUSH'' \<or> extension = ''flush'' then first (info_commands H req) else Busy 0 Fails)
      | _ \<Rightarrow> Busy 0 Writes)"

fun calls_at :: "handler_at \<Rightarrow> call list" where
  "calls_at Reading = []"
| "calls_at (Busy k Writes) = replicate k Command @ [Answer]"
| "calls_at (Busy k Fails) = replicate k Command"

fun fails_at :: "handler_at \<Rightarrow> bool" where
  "fails_at (Busy k Fails) \<longleftrightarrow> True"
| "fails_at _ \<longleftrightarrow> False"

text \<open>These phases are those of \<open>execute\<close>: of every request that succeeds, and, over a player and a connection on
  which every call gets through, of those that fail as well.\<close>

lemma headers_ok: "is_ok (add_default_headers H h req b) \<longleftrightarrow> challenge_ok H h req"
  by (auto simp: add_default_headers_def challenge_ok_def Let_def is_ok_iff and_then_eq_Ok split: option.splits)

lemma headers_Ok: "add_default_headers H h req b = Ok r \<Longrightarrow> challenge_ok H h req"
  using headers_ok[of H h req b] by simp

lemma volume_lines_ok:
  "set_parameter_lines H W lines w = (Ok (), w') \<Longrightarrow>
   volume_lines H lines = (length (filter sets_volume lines), True)"
proof (induction lines arbitrary: w)
  case Nil
  then show ?case by simp
next
  case (Cons line lines)
  show ?case
  proof (cases "sets_volume line")
    case True
    then obtain v where v: "split_once (CHR '':'') line = Some (''volume'', v)"
      by (auto simp: sets_volume_def split: option.splits)
    then obtain vol w1 where "parse_f64 H (str_trim v) = Some vol" "set_parameter_lines H W lines w1 = (Ok (), w')"
      using Cons.prems by (auto simp: io_then_Ok ok_or_eq_Ok)
    then show ?thesis using Cons.IH True v by simp
  next
    case False
    then have "set_parameter_lines H W (line # lines) = set_parameter_lines H W lines"
      "volume_lines H (line # lines) = volume_lines H lines"
      by (auto simp: sets_volume_def split: option.splits prod.splits)
    then show ?thesis using Cons False by simp
  qed
qed

lemma begin_success:
  assumes "execute H W h req w = (Ok (), w')"
  shows "begin_request H h req = (if unanswered H req then Reading else Busy (asks H req) Writes)"
proof (cases "req_method req")
  case SET_PARAMETER
  then show ?thesis using assms
    by (auto simp: execute_def handle_set_parameter_def begin_request_def io_then_Ok ok_or_eq_Ok Let_def asks_def
        commands_def unanswered_def dest: headers_Ok volume_lines_ok split: if_splits)
qed (use assms in \<open>auto simp: execute_def handler_defs begin_request_def io_then_Ok ok_or_eq_Ok Let_def asks_def
  commands_def unanswered_def dest: headers_Ok split: if_splits option.splits\<close>)

definition answering :: "('w, 'f) world_ops \<Rightarrow> bool" where
  "answering W \<longleftrightarrow>
     (\<forall>w. (\<forall>a. is_ok (fst (announce_call W a w))) \<and> (\<forall>s. is_ok (fst (setup_call W s w))) \<and>
          (\<forall>i. is_ok (fst (record_call W i w))) \<and> is_ok (fst (teardown_call W w)) \<and>
          (\<forall>v. is_ok (fst (set_parameter_call W v w))) \<and> is_ok (fst (get_parameter_call W w)) \<and>
          (\<forall>i. is_ok (fst (flush_call W i w))) \<and> (\<forall>r. is_ok (fst (write_response W r w))))"

text \<open>An action makes these calls, and then has succeeded or not.\<close>

definition makes :: "('w \<times> call list, 'a) io \<Rightarrow> bool \<Rightarrow> call list \<Rightarrow> bool" where
  "makes m ok cs \<longleftrightarrow> (\<forall>w l. \<exists>r w'. m (w, l) = (r, (w', l @ cs)) \<and> (is_ok r \<longleftrightarrow> ok))"

lemma makes_pure: "is_ok x = ok \<Longrightarrow> makes (pure x) ok []"
  by (simp add: makes_def)

lemma makes_note: "(\<And>w. is_ok (fst (m w))) \<Longrightarrow> makes (note_call c m) True [c]"
  unfolding makes_def note_call_def by (metis (mono_tags, lifting) case_prod_conv prod.collapse)

lemma makes_then:
  assumes "makes m True cs" "\<And>a. makes (f a) ok ds"
  shows "makes (io_then m f) ok (cs @ ds)"
  unfolding makes_def
proof (intro allI)
  fix w l
  obtain a w1 where "m (w, l) = (Ok a, (w1, l @ cs))" using assms(1) unfolding makes_def is_ok_iff by blast
  moreover obtain r w2 where "f a (w1, l @ cs) = (r, (w2, (l @ cs) @ ds))" "is_ok r = ok"
    using assms(2)[of a] unfolding makes_def by blast
  ultimately show "\<exists>r w'. io_then m f (w, l) = (r, (w', l @ cs @ ds)) \<and> is_ok r = ok"
    by (simp add: io_then_def)
qed

lemma makes_fail:
  assumes "makes m False cs"
  shows "makes (io_then m f) False cs"
  unfolding makes_def
proof (intro allI)
  fix w l
  obtain r w1 where "m (w, l) = (r, (w1, l @ cs))" "\<not> is_ok r" using assms unfolding makes_def by blast
  then show "\<exists>r w'. io_then m f (w, l) = (r, (w', l @ cs)) \<and> is_ok r = False"
    by (cases r) (simp_all add: io_then_def)
qed

lemma makes_pure_then:
  "(\<And>a. x = Ok a \<Longrightarrow> makes (f a) ok cs) \<Longrightarrow>
   makes (io_then (pure x) f) (is_ok x \<and> ok) (if is_ok x then cs else [])"
  using makes_fail[OF makes_pure[of x False], of f] by (cases x) auto

lemma makes_write: "answering W \<Longrightarrow> makes (io_then (write_response (logged W) r) (\<lambda>_. pure (Ok ()))) True [Answer]"
  using makes_then[OF makes_note makes_pure, of "write_response W r" "\<lambda>_. Ok ()" True Answer] by (simp add: answering_def)

lemma makes_headers:
  "(\<And>b'. makes (f b') ok cs) \<Longrightarrow>
   makes (io_then (pure (add_default_headers H h req b)) f) (challenge_ok H h req \<and> ok)
     (if challenge_ok H h req then cs else [])"
  using makes_pure_then[of "add_default_headers H h req b" f ok cs] by (simp only: headers_ok)

lemma makes_rtp_info:
  assumes "\<And>i w. is_ok (fst (call i w))"
  shows "makes (with_rtp_info H req (\<lambda>i. note_call Command (call i))) True (replicate (info_commands H req) Command)"
proof -
  have "makes (io_then (note_call Command (call i)) (\<lambda>_. pure (Ok ()))) True [Command]" for i
    using makes_then[OF makes_note makes_pure, of "call i" "\<lambda>_. Ok ()" True Command] assms by simp
  then show ?thesis by (auto simp: with_rtp_info_def info_commands_def makes_pure split: option.splits prod.splits)
qed

lemma makes_volumes:
  assumes "answering W"
  shows "makes (set_parameter_lines H (logged W) lines) (snd (volume_lines H lines))
     (replicate (fst (volume_lines H lines)) Command)"
proof (induction lines)
  case Nil
  show ?case unfolding set_parameter_lines.simps volume_lines.simps fst_conv snd_conv replicate.simps
    by (rule makes_pure) simp
next
  case (Cons line lines)
  have call: "makes (note_call Command (set_parameter_call W v)) True [Command]" for v
    using assms by (intro makes_note) (simp add: answering_def)
  have step: "makes (io_then (note_call Command (set_parameter_call W v)) (\<lambda>_. set_parameter_lines H (logged W) lines))
      (snd (volume_lines H lines)) (Command # replicate (fst (volume_lines H lines)) Command)" for v
    using makes_then[OF call Cons.IH] by simp
  have bad: "makes (io_then (pure (Err e)) f) False []" for e and f :: "'b \<Rightarrow> ('a \<times> call list, unit) io"
    by (rule makes_fail) (simp add: makes_pure)
  show ?case using Cons.IH step bad
    by (auto split: option.splits simp: case_prod_unfold Let_def)
qed

lemma makes_execute:
  assumes "answering W"
  shows "makes (execute H (logged W) h req) (\<not> fails_at (begin_request H h req)) (calls_at (begin_request H h req))"
proof -
  let ?W = "logged W" and ?c = "challenge_ok H h req"
  have reply: "makes (io_then (write_response ?W r) (\<lambda>_. pure (Ok ()))) True [Answer]" for r
    by (rule makes_write[OF assms])
  have respond: "makes (io_then (pure (add_default_headers H h req b)) (\<lambda>r. io_then (write_response ?W (g r)) (\<lambda>_. pure (Ok ()))))
      ?c (if ?c then [Answer] else [])" for b g
    using makes_headers[where ok = True and f = "\<lambda>r. io_then (write_response ?W (g r)) (\<lambda>_. pure (Ok ()))", OF reply]
    by (simp only: simp_thms)
  have refused: "makes (handle_not_allowed ?W) True [Answer]" unfolding handle_not_allowed_def by (rule reply)
  have info: "makes (handle_record H ?W h req) ?c (if ?c then replicate (info_commands H req) Command @ [Answer] else [])"
    "makes (handle_flush H ?W h req) ?c (if ?c then replicate (info_commands H req) Command @ [Answer] else [])"
  proof -
    have ws: "makes (with_rtp_info H req (record_call ?W)) True (replicate (info_commands H req) Command)"
      "makes (with_rtp_info H req (flush_call ?W)) True (replicate (info_commands H req) Command)"
      using makes_rtp_info[of "record_call W" H req] makes_rtp_info[of "flush_call W" H req] assms
      by (simp_all add: logged_def answering_def)
    show "makes (handle_record H ?W h req) ?c (if ?c then replicate (info_commands H req) Command @ [Answer] else [])"
      "makes (handle_flush H ?W h req) ?c (if ?c then replicate (info_commands H req) Command @ [Answer] else [])"
      using makes_headers[where ok = True, OF makes_then[OF ws(1) reply]] makes_headers[where ok = True, OF makes_then[OF ws(2) reply]]
      unfolding handle_record_def handle_flush_def by (simp_all only: simp_thms)
  qed
  have cmd: "makes (announce_call ?W a) True [Command]" "makes (setup_call ?W st) True [Command]"
    "makes (teardown_call ?W) True [Command]" "makes (get_parameter_call ?W) True [Command]" for a st
    using assms by (simp_all add: makes_note answering_def)
  have teardown: "makes (handle_teardown H ?W h req) ?c (if ?c then [Command, Answer] else [])"
    using makes_headers[where ok = True, OF makes_then[OF cmd(3) reply]]
    unfolding handle_teardown_def by (simp only: simp_thms append.simps)
  have set_up: "makes (handle_setup H ?W h req) (setup_ports H req = None \<or> ?c)
      (if setup_ports H req = None then [] else if ?c then [Command, Answer] else [Command])"
  proof (cases "setup_ports H req")
    case None
    have "makes (pure (Ok ())) True []" by (rule makes_pure) simp
    then show ?thesis using None unfolding handle_setup_def by (simp only: option.case simp_thms if_True)
  next
    case (Some ports)
    then show ?thesis using makes_then[OF cmd(2) respond[where g = "\<lambda>r. r"]]
      unfolding handle_setup_def by (cases ports) (auto simp: if_distrib cong: if_cong)
  qed
  have announce: "makes (handle_announce H ?W h req) (is_ok (parse_announce H (req_body req)) \<and> ?c)
      (if is_ok (parse_announce H (req_body req)) then [Command] @ (if ?c then [Answer] else []) else [])"
    unfolding handle_announce_def by (rule makes_pure_then, rule makes_then[OF cmd(1) respond[where g = "\<lambda>r. r"]])
  have set_parameter: "makes (handle_set_parameter H ?W h req)
      (if req_header req CONTENT_TYPE = Some ''text/parameters''
       then (case from_utf8 (req_body req) of
               Some str \<Rightarrow> snd (volume_lines H (str_lines str)) \<and> ?c | None \<Rightarrow> False) else True)
      (if req_header req CONTENT_TYPE = Some ''text/parameters''
       then (case from_utf8 (req_body req) of
               Some str \<Rightarrow> replicate (fst (volume_lines H (str_lines str))) Command @
                 (if snd (volume_lines H (str_lines str)) \<and> ?c then [Answer] else []) | None \<Rightarrow> []) else [Answer])"
  proof (cases "req_header req CONTENT_TYPE = Some ''text/parameters''")
    case False
    then show ?thesis unfolding handle_set_parameter_def using reply by simp
  next
    case True
    show ?thesis
    proof (cases "from_utf8 (req_body req)")
      case None
      then show ?thesis using True makes_fail[OF makes_fail[OF makes_pure[of "Err Utf8Error" False]]]
        unfolding handle_set_parameter_def by simp
    next
      case (Some str)
      let ?build = "\<lambda>_ :: unit. pure (add_default_headers H h req (builder StatusOk)) :: ('a \<times> call list, response) io"
      note lines = makes_volumes[OF assms, of H "str_lines str"]
      have eq: "handle_set_parameter H ?W h req =
          io_then (io_then (set_parameter_lines H ?W (str_lines str)) ?build)
            (\<lambda>r. io_then (write_response ?W r) (\<lambda>_. pure (Ok ())))"
        using True Some by (simp add: handle_set_parameter_def)
      show ?thesis
      proof (cases "snd (volume_lines H (str_lines str))")
        case False
        then show ?thesis unfolding eq using True Some makes_fail[OF makes_fail] lines by simp
      next
        case good: True
        show ?thesis
        proof (cases ?c)
          case False
          then have "makes (?build a) False []" for a by (intro makes_pure) (simp add: headers_ok)
          from makes_fail[OF makes_then[OF lines[unfolded eqTrueI[OF good]] this]] show ?thesis
            unfolding eq using True Some good False by simp
        next
          case chall: True
          then have "makes (?build a) True []" for a by (intro makes_pure) (simp add: headers_ok)
          from makes_then[OF makes_then[OF lines[unfolded eqTrueI[OF good]] this] reply] show ?thesis
            unfolding eq using True Some good chall by simp
        qed
      qed
    qed
  qed
  show ?thesis
  proof (cases "req_method req")
    case OPTIONS
    then show ?thesis using respond[where b = "builder StatusOk" and g = "add_header PUBLIC (Text public_methods)"]
      by (auto simp: execute_def handle_options_def begin_request_def Let_def split: if_splits)
  next
    case SETUP
    then show ?thesis using set_up by (auto simp: execute_def begin_request_def Let_def split: if_splits)
  next
    case GET_PARAMETER
    have "makes (io_then (get_parameter_call ?W) (\<lambda>vol. io_then (pure (ok_or Utf8Error (from_utf8 (req_body req)))) (\<lambda>str.
        let body = parameter_lines (show_f64 H) vol str
        in io_then (write_response ?W (if body = [] then b else b\<lparr>resp_body := Some body\<rparr>)) (\<lambda>_. pure (Ok ())))))
        (from_utf8 (req_body req) \<noteq> None) ([Command] @ (if from_utf8 (req_body req) = None then [] else [Answer]))" for b
    proof (rule makes_then[OF cmd(4)])
      fix vol
      show "makes (io_then (pure (ok_or Utf8Error (from_utf8 (req_body req)))) (\<lambda>str.
        let body = parameter_lines (show_f64 H) vol str
        in io_then (write_response ?W (if body = [] then b else b\<lparr>resp_body := Some body\<rparr>)) (\<lambda>_. pure (Ok ()))))
        (from_utf8 (req_body req) \<noteq> None) (if from_utf8 (req_body req) = None then [] else [Answer])"
        using reply makes_fail[OF makes_pure[of "Err Utf8Error" False]]
        by (cases "from_utf8 (req_body req)") (simp_all add: Let_def)
    qed
    from makes_headers[OF this, of H h req "builder StatusOk"] show ?thesis using GET_PARAMETER
      by (auto simp: execute_def handle_get_parameter_def begin_request_def Let_def split: if_splits)
  next
    case SET_PARAMETER
    then show ?thesis using set_parameter
      by (auto simp: execute_def begin_request_def Let_def case_prod_unfold split: if_splits option.splits)
  next
    case ANNOUNCE
    then show ?thesis using announce by (auto simp: execute_def begin_request_def Let_def split: if_splits)
  next
    case RECORD
    then show ?thesis using info(1) by (auto simp: execute_def begin_request_def Let_def split: if_splits)
  next
    case TEARDOWN
    then show ?thesis using teardown by (auto simp: execute_def begin_request_def Let_def split: if_splits)
  next
    case (EXTENSION x)
    then show ?thesis using info(2) makes_pure[of Panic False]
      by (auto simp: execute_def begin_request_def Let_def split: if_splits)
  qed (use refused in \<open>simp_all add: execute_def begin_request_def Let_def\<close>)
qed

section \<open>The server and its handlers\<close>

record server_tasks =
  run :: server
  conns :: "handler_at multiset"

definition tasks_new :: server_tasks where
  "tasks_new = \<lparr>run = server_new, conns = {#}\<rparr>"

datatype task_label =
    NewClient | Sends handler request | Leaves | Takes
  | Answered | Spoiled | Orphaned | Failed | Told | Run label

text \<open>What needs a client to act.\<close>

fun by_client :: "task_label \<Rightarrow> bool" where
  "by_client NewClient \<longleftrightarrow> True"
| "by_client (Sends _ _) \<longleftrightarrow> True"
| "by_client Leaves \<longleftrightarrow> True"
| "by_client Takes \<longleftrightarrow> True"
| "by_client _ \<longleftrightarrow> False"

text \<open>What the server does not do itself: the steps of clients, and the end of the responder task of libmdns.\<close>

definition outside :: "task_label \<Rightarrow> bool" where
  "outside l \<longleftrightarrow> by_client l \<or> l = Run ResponderEnded"

text \<open>A handler leaves its \<open>select!\<close> with a request, at the end of the stream or an error, or on the notice. While the
  player runs, it answers every command, unless it ends with an error itself and drops the reply; when \<open>select!\<close>
  of \<open>run\<close> has returned the player does not run any more, and once it has been dropped the waiting handlers get an
  error. With no command left a handler ends at once if the request fails, and otherwise writes its
  response, which is done when the client takes it.\<close>

inductive tasks_step :: "'f handler_ops \<Rightarrow> server_tasks \<Rightarrow> task_label \<Rightarrow> server_tasks \<Rightarrow> bool" for H where
  accepts: "server_step (run s) Accepted r \<Longrightarrow> tasks_step H s NewClient \<lparr>run = r, conns = add_mset Reading (conns s)\<rparr>"
| selects: "server_step (run s) (Selected c) r \<Longrightarrow> tasks_step H s (Run (Selected c)) (s\<lparr>run := r\<rparr>)"
| proceeds: "server_step (run s) Proceed r \<Longrightarrow> tasks_step H s (Run Proceed) (s\<lparr>run := r\<rparr>)"
| advertises: "server_step (run s) ResponderSpawned r \<Longrightarrow> tasks_step H s (Run ResponderSpawned) (s\<lparr>run := r\<rparr>)"
| unadvertises: "server_step (run s) ResponderEnded r \<Longrightarrow> tasks_step H s (Run ResponderEnded) (s\<lparr>run := r\<rparr>)"
| sends: "conns s = add_mset Reading M \<Longrightarrow>
    tasks_step H s (Sends h req) (s\<lparr>conns := add_mset (begin_request H h req) M\<rparr>)"
| leaves: "conns s = add_mset h M \<Longrightarrow> h \<in> {Reading, Busy 0 Writes} \<Longrightarrow> server_step (run s) HandlerEnded r \<Longrightarrow>
    tasks_step H s Leaves \<lparr>run = r, conns = M\<rparr>"
| answered: "conns s = add_mset (Busy (Suc k) e) M \<Longrightarrow> phase (run s) = Selecting \<Longrightarrow>
    tasks_step H s Answered (s\<lparr>conns := add_mset (Busy k e) M\<rparr>)"
| spoiled: "conns s = add_mset (Busy (Suc k) e) M \<Longrightarrow> phase (run s) = Selecting \<Longrightarrow>
    server_step (run s) HandlerEnded r \<Longrightarrow> tasks_step H s Spoiled \<lparr>run = r, conns = M\<rparr>"
| orphaned: "conns s = add_mset (Busy (Suc k) e) M \<Longrightarrow> \<not> player_tx (run s) \<Longrightarrow>
    server_step (run s) HandlerEnded r \<Longrightarrow> tasks_step H s Orphaned \<lparr>run = r, conns = M\<rparr>"
| fails: "conns s = add_mset (Busy 0 Fails) M \<Longrightarrow> server_step (run s) HandlerEnded r \<Longrightarrow>
    tasks_step H s Failed \<lparr>run = r, conns = M\<rparr>"
| takes: "conns s = add_mset (Busy 0 Writes) M \<Longrightarrow> tasks_step H s Takes (s\<lparr>conns := add_mset Reading M\<rparr>)"
| told: "conns s = add_mset Reading M \<Longrightarrow> server_step (run s) HandlerTold r \<Longrightarrow>
    tasks_step H s Told \<lparr>run = r, conns = M\<rparr>"

inductive tasks_steps :: "'f handler_ops \<Rightarrow> server_tasks \<Rightarrow> task_label list \<Rightarrow> server_tasks \<Rightarrow> bool" for H where
  none: "tasks_steps H s [] s"
| more: "tasks_step H s l s' \<Longrightarrow> tasks_steps H s' ls s'' \<Longrightarrow> tasks_steps H s (l # ls) s''"

definition tasks_reach :: "'f handler_ops \<Rightarrow> server_tasks \<Rightarrow> bool" where
  "tasks_reach H s \<longleftrightarrow> (\<exists>ls. tasks_steps H tasks_new ls s)"

section \<open>Refinement of the abstract server\<close>

text \<open>Each step is one of the abstract server or leaves it as it is.\<close>

definition related :: "server_tasks \<Rightarrow> bool" where
  "related s \<longleftrightarrow> server_reach (run s) \<and> handlers (run s) = size (conns s)"

lemma step_counts:
  "server_step s Accepted r \<Longrightarrow> handlers r = Suc (handlers s)"
  "server_step s (Selected c) r \<Longrightarrow> handlers r = handlers s"
  "server_step s Proceed r \<Longrightarrow> handlers r = handlers s"
  "server_step s ResponderSpawned r \<Longrightarrow> handlers r = handlers s"
  "server_step s ResponderEnded r \<Longrightarrow> handlers r = handlers s"
  "server_step s HandlerEnded r \<Longrightarrow> handlers s = Suc (handlers r)"
  "server_step s HandlerTold r \<Longrightarrow> handlers s = Suc (handlers r)"
  by (auto elim: server_step_elims)

lemma step_related:
  assumes "tasks_step H s l s'" "related s"
  shows "related s' \<and> (run s' = run s \<or> (\<exists>a. server_step (run s) a (run s')))"
  using assms
proof (induction rule: tasks_step.induct)
  case (accepts s r)
  then show ?case using server_reach.step step_counts(1) unfolding related_def by fastforce
next
  case (selects s c r)
  then show ?case using server_reach.step step_counts(2) unfolding related_def by fastforce
next
  case (proceeds s r)
  then show ?case using server_reach.step step_counts(3) unfolding related_def by fastforce
next
  case (advertises s r)
  then show ?case using server_reach.step step_counts(4) unfolding related_def by fastforce
next
  case (unadvertises s r)
  then show ?case using server_reach.step step_counts(5) unfolding related_def by fastforce
next
  case (fails s M r)
  then show ?case using server_reach.step step_counts(6) unfolding related_def by fastforce
next
  case (leaves s h M r)
  then show ?case using server_reach.step step_counts(6) unfolding related_def by fastforce
next
  case (spoiled s k e M r)
  then show ?case using server_reach.step step_counts(6) unfolding related_def by fastforce
next
  case (orphaned s k e M r)
  then show ?case using server_reach.step step_counts(6) unfolding related_def by fastforce
next
  case (told s M r)
  then show ?case using server_reach.step step_counts(7) unfolding related_def by fastforce
qed (simp_all add: related_def)

lemma steps_related: "tasks_steps H s ls s' \<Longrightarrow> related s \<Longrightarrow> related s'"
  by (induction rule: tasks_steps.induct) (use step_related in blast)+

lemma related_new: "related tasks_new"
  by (simp add: related_def tasks_new_def server_reach.start) (simp add: server_new_def)

lemma reach_related: "tasks_reach H s \<Longrightarrow> related s"
  using steps_related[OF _ related_new] by (auto simp: tasks_reach_def)

lemma tasks_steps_snoc: "tasks_steps H s ls s' \<Longrightarrow> tasks_step H s' l s'' \<Longrightarrow> tasks_steps H s (ls @ [l]) s''"
  by (induction rule: tasks_steps.induct) (auto intro: tasks_steps.intros)

lemma reach_new: "tasks_reach H tasks_new"
  by (auto simp: tasks_reach_def intro: tasks_steps.none)

lemma reach_step: "tasks_reach H s \<Longrightarrow> tasks_step H s l s' \<Longrightarrow> tasks_reach H s'"
  using tasks_steps_snoc by (fastforce simp: tasks_reach_def)

section \<open>The end of the server\<close>

fun weight_of :: "handler_at \<Rightarrow> nat" where
  "weight_of (Busy 0 Writes) = 2"
| "weight_of _ = 1"

definition tasks_measure :: "server_tasks \<Rightarrow> nat" where
  "tasks_measure s = remaining (phase (run s)) + sum_mset (image_mset weight_of (conns s)) +
     of_bool (mdns_task (run s) = Responding)"

lemma step_phase:
  "server_step s HandlerEnded r \<Longrightarrow> phase r = phase s \<and> mdns_task r = mdns_task s"
  "server_step s HandlerTold r \<Longrightarrow> phase r = phase s \<and> mdns_task r = mdns_task s"
  "server_step s ResponderEnded r \<Longrightarrow> phase r = phase s \<and> mdns_task s = Responding \<and> mdns_task r = Ended"
  by (auto elim: server_step_elims)

lemma proceed_phase:
  "server_step s Proceed r \<Longrightarrow>
   remaining (phase r) < remaining (phase s) \<and> phase r \<noteq> Selecting \<and> mdns_task r = mdns_task s"
  by (auto elim!: proceed_E)

lemma weight_begin: "weight_of (begin_request H h req) \<le> 2"
  by (cases "begin_request H h req" rule: weight_of.cases) simp_all

lemma weight_positive: "1 \<le> weight_of h"
  by (cases h rule: weight_of.cases) simp_all

definition is_send :: "task_label \<Rightarrow> bool" where
  "is_send l = (case l of Sends _ _ \<Rightarrow> True | _ \<Rightarrow> False)"

lemma step_measure:
  assumes "tasks_step H s l s'" "phase (run s) \<noteq> Selecting"
  shows "phase (run s') \<noteq> Selecting \<and> Suc (tasks_measure s') \<le> tasks_measure s + 2 * of_bool (is_send l)"
  using assms
proof (induction rule: tasks_step.induct)
  case (proceeds s r)
  then show ?case using proceed_phase[of "run s" r] by (simp add: tasks_measure_def is_send_def)
next
  case (sends s M h req)
  then show ?case using weight_begin[of H h req] by (simp add: tasks_measure_def is_send_def)
next
  case (leaves s h M r)
  then show ?case using step_phase(1)[of "run s" r] weight_positive[of h] by (auto simp: tasks_measure_def is_send_def)
next
  case (unadvertises s r)
  then show ?case using step_phase(3)[of "run s" r] by (simp add: tasks_measure_def is_send_def)
next
  case (fails s M r)
  then show ?case using step_phase(1)[of "run s" r] by (simp add: tasks_measure_def is_send_def)
next
  case (orphaned s k e M r)
  then show ?case using step_phase(1)[of "run s" r] by (simp add: tasks_measure_def is_send_def)
next
  case (takes s M)
  then show ?case by (simp add: tasks_measure_def is_send_def)
next
  case (told s M r)
  then show ?case using step_phase(2)[of "run s" r] by (simp add: tasks_measure_def is_send_def)
qed (auto elim: accepted_E selected_E responder_spawned_E)

lemma steps_measure:
  "tasks_steps H s ls s' \<Longrightarrow> phase (run s) \<noteq> Selecting \<Longrightarrow>
   length ls + tasks_measure s' \<le> tasks_measure s + 2 * length (filter is_send ls)"
proof (induction rule: tasks_steps.induct)
  case (none s)
  then show ?case by simp
next
  case (more s l s' ls s'')
  then show ?case using step_measure[OF more.hyps(1) more.prems] by (auto split: if_splits)
qed

lemma measure_bound:
  "phase (run s) \<noteq> Selecting \<Longrightarrow>
   tasks_measure s \<le> 5 + 2 * size (conns s) + of_bool (mdns_task (run s) = Responding)"
proof -
  assume "phase (run s) \<noteq> Selecting"
  then have "remaining (phase (run s)) \<le> 5" by (cases "phase (run s)") simp_all
  moreover have "sum_mset (image_mset weight_of M) \<le> 2 * size M" for M
  proof (induction M)
    case (add h M)
    then show ?case by (cases h rule: weight_of.cases) simp_all
  qed simp
  ultimately show ?thesis unfolding tasks_measure_def by (meson add_mono order_refl)
qed

text \<open>All that is left writes to clients that do not take it.\<close>

definition waits_for_clients :: "server_tasks \<Rightarrow> bool" where
  "waits_for_clients s \<longleftrightarrow> phase (run s) = AwaitComplete \<and> conns s \<noteq> {#} \<and> (\<forall>h. h \<in># conns s \<longrightarrow> h = Busy 0 Writes)"

lemma handler_can_end:
  assumes "related s" "conns s = add_mset h M"
  shows "\<exists>r. server_step (run s) HandlerEnded r" "\<not> notify (run s) \<Longrightarrow> \<exists>r. server_step (run s) HandlerTold r"
  using assms by (auto simp: related_def intro: handler_ended handler_told)

lemma own_step: "tasks_step H s l s' \<Longrightarrow> \<not> outside l \<Longrightarrow> (\<exists>l s'. tasks_step H s l s' \<and> \<not> outside l) \<or> P"
  by blast

lemma progress_or_waits:
  assumes "related s" "phase (run s) \<noteq> Selecting" "phase (run s) \<noteq> Stopped"
  shows "(\<exists>l s'. tasks_step H s l s' \<and> \<not> outside l) \<or> waits_for_clients s"
proof (cases "\<exists>r. server_step (run s) Proceed r")
  case True
  then obtain r where "server_step (run s) Proceed r" by blast
  from own_step[OF proceeds[OF this]] show ?thesis by (simp add: outside_def)
next
  case False
  have inv: "server_inv (run s)" using assms(1) by (simp add: related_def server_reach_inv)
  have await: "phase (run s) = AwaitComplete"
    using False assms(2,3) by (cases "phase (run s)") (auto intro: drop_player drop_mdns drop_notify drop_complete)
  then have gone: "\<not> notify (run s)" "\<not> player_tx (run s)" "senders (run s) = handlers (run s)"
    using inv by (simp_all add: server_inv_def senders_def)
  have "handlers (run s) \<noteq> 0" using False await gone complete[of "run s"] by auto
  then have some: "conns s \<noteq> {#}" using assms(1) by (auto simp: related_def)
  show ?thesis
  proof (cases "\<exists>h. h \<in># conns s \<and> h \<noteq> Busy 0 Writes")
    case True
    then obtain h where h: "h \<in># conns s" "h \<noteq> Busy 0 Writes" by blast
    then obtain M where M: "conns s = add_mset h M" by (metis insert_DiffM)
    obtain r where ended: "server_step (run s) HandlerEnded r" using handler_can_end(1)[OF assms(1) M] by blast
    obtain r' where told: "server_step (run s) HandlerTold r'" using handler_can_end(2)[OF assms(1) M gone(1)] by blast
    consider "h = Reading" | "h = Busy 0 Fails" | k e where "h = Busy (Suc k) e"
      using h(2) by (metis handler_at.exhaust ending.exhaust not0_implies_Suc)
    then show ?thesis
    proof cases
      case 1
      from own_step[OF tasks_step.told[OF M[unfolded 1] told]] show ?thesis by (simp add: outside_def)
    next
      case 2
      from own_step[OF fails[OF M[unfolded 2] ended]] show ?thesis by (simp add: outside_def)
    next
      case 3
      from own_step[OF orphaned[OF M[unfolded 3] gone(2) ended]] show ?thesis by (simp add: outside_def)
    qed
  next
    case False
    then show ?thesis using await some by (auto simp: waits_for_clients_def)
  qed
qed

lemma waiting_is_blocked:
  assumes "tasks_step H s l s'" "related s" "waits_for_clients s"
  shows "outside l"
  using assms
proof (induction rule: tasks_step.induct)
  case (proceeds s r)
  then have "senders (run s) = 0" by (auto simp: waits_for_clients_def elim!: proceed_E)
  then show ?case using proceeds by (auto simp: senders_def related_def waits_for_clients_def)
qed (auto simp: waits_for_clients_def outside_def elim: selected_E responder_spawned_E)

lemma stopped_is_final:
  assumes "tasks_step H s l s'" "related s" "phase (run s) = Stopped"
  shows "l = Run ResponderEnded"
proof -
  have "server_inv (run s)" using assms(2) by (simp add: related_def server_reach_inv)
  then have "handlers (run s) = 0" using assms(3) by (simp add: server_inv_def)
  then have "conns s = {#}" using assms(2) by (simp add: related_def)
  then show ?thesis
    using assms(1,3) by (auto elim!: tasks_step.cases elim: accepted_E selected_E proceed_E responder_spawned_E)
qed

lemma tasks_finish:
  assumes "related s" "phase (run s) \<noteq> Selecting"
  shows "\<exists>ls s'. tasks_steps H s ls s' \<and> (\<forall>l \<in> set ls. outside l \<longrightarrow> l = Takes) \<and> phase (run s') = Stopped"
  using assms
proof (induction "tasks_measure s" arbitrary: s rule: less_induct)
  case less
  show ?case
  proof (cases "phase (run s) = Stopped")
    case True
    then show ?thesis by (intro exI[of _ "[]"] exI[of _ s]) (simp add: tasks_steps.none)
  next
    case False
    have "\<exists>l s1. tasks_step H s l s1 \<and> (outside l \<longrightarrow> l = Takes)"
    proof (cases "waits_for_clients s")
      case True
      then obtain M where "conns s = add_mset (Busy 0 Writes) M"
        by (metis waits_for_clients_def multiset_nonemptyE insert_DiffM)
      then show ?thesis using takes by blast
    next
      case False
      then show ?thesis using progress_or_waits[OF less.prems \<open>phase (run s) \<noteq> Stopped\<close>, of H] by blast
    qed
    then obtain l s1 where l: "tasks_step H s l s1" "outside l \<longrightarrow> l = Takes" by blast
    then have "\<not> is_send l" by (cases l) (auto simp: is_send_def outside_def)
    then have "tasks_measure s1 < tasks_measure s" "phase (run s1) \<noteq> Selecting"
      using step_measure[OF l(1) less.prems(2)] by simp_all
    then obtain ls s' where "tasks_steps H s1 ls s'" "\<forall>l \<in> set ls. outside l \<longrightarrow> l = Takes" "phase (run s') = Stopped"
      using less.hyps[of s1] step_related[OF l(1) less.prems(1)] by blast
    then show ?thesis using l by (intro exI[of _ "l # ls"] exI[of _ s']) (auto intro: tasks_steps.more)
  qed
qed

section \<open>Properties\<close>

text \<open>C11. What a shutdown waits for: once \<open>select!\<close> of \<open>run\<close> has returned, with handlers anywhere in their
  requests, a run takes at most five steps more than two per handler and two per request that clients still send, and one
  for the end of the responder task of libmdns; when only clients (and that task) can act, the server has stopped, or it
  is in its last wait and every handler that is left writes a response that its client does not take, which no
  notice interrupts; and it does stop when the clients take what is written to them, without any of them closing
  and without waiting for the responder task. A request that fails ends its handler at once.\<close>

theorem shutdown_waits_for_readers:
  assumes "tasks_reach H s" and "phase (run s) \<noteq> Selecting"
  shows "(\<forall>ls s'. tasks_steps H s ls s' \<longrightarrow>
       length ls \<le> 5 + 2 * size (conns s) + 2 * length (filter is_send ls) + of_bool (mdns_task (run s) = Responding)) \<and>
     ((\<forall>l s'. tasks_step H s l s' \<longrightarrow> outside l) \<longleftrightarrow> phase (run s) = Stopped \<or> waits_for_clients s) \<and>
     (\<exists>ls s'. tasks_steps H s ls s' \<and> (\<forall>l \<in> set ls. outside l \<longrightarrow> l = Takes) \<and> phase (run s') = Stopped)"
proof (intro conjI allI impI)
  note rel = reach_related[OF assms(1)]
  show "length ls \<le> 5 + 2 * size (conns s) + 2 * length (filter is_send ls) + of_bool (mdns_task (run s) = Responding)"
    if "tasks_steps H s ls s'" for ls s'
    using steps_measure[OF that assms(2)] measure_bound[OF assms(2)] by simp
  have "outside l" if "tasks_step H s l s'" "phase (run s) = Stopped" for l s'
    using stopped_is_final[OF that(1) rel that(2)] by (simp add: outside_def)
  then show "(\<forall>l s'. tasks_step H s l s' \<longrightarrow> outside l) \<longleftrightarrow> phase (run s) = Stopped \<or> waits_for_clients s"
    using progress_or_waits[OF rel assms(2), of H] waiting_is_blocked[OF _ rel] by blast
  show "\<exists>ls s'. tasks_steps H s ls s' \<and> (\<forall>l \<in> set ls. outside l \<longrightarrow> l = Takes) \<and> phase (run s') = Stopped"
    by (rule tasks_finish[OF rel assms(2)])
qed

text \<open>C12. A handler goes through a request as the steps say. When \<open>execute\<close> succeeds over any player and
  connection, it has made the commands of the request one after another, and then, unless it is a SETUP without
  ports, has written one response; nothing comes after the response. And over a player and a connection on which every
  call gets through, a request makes exactly the calls of its phases, and fails, without a response, exactly when they
  say so.\<close>

theorem request_asks_then_answers:
  shows "(execute H W h req w = (Ok (), w') \<longrightarrow>
       begin_request H h req = (if unanswered H req then Reading else Busy (asks H req) Writes) \<and>
       execute H (logged W) h req (w, l) =
         (Ok (), (w', l @ replicate (asks H req) Command @ (if begin_request H h req = Reading then [] else [Answer])))) \<and>
     (answering W \<longrightarrow>
       (\<exists>r w'. execute H (logged W) h req (w, l) = (r, (w', l @ calls_at (begin_request H h req))) \<and>
          (r = Ok () \<longleftrightarrow> \<not> fails_at (begin_request H h req))))"
proof (intro conjI impI)
  assume success: "execute H W h req w = (Ok (), w')"
  show "begin_request H h req = (if unanswered H req then Reading else Busy (asks H req) Writes)"
    by (rule begin_success[OF success])
  then show "execute H (logged W) h req (w, l) =
      (Ok (), (w', l @ replicate (asks H req) Command @ (if begin_request H h req = Reading then [] else [Answer])))"
    using execute_calls[OF success] by (simp add: calls_def)
next
  assume "answering W"
  from makes_execute[OF this, of H h req]
  show "\<exists>r w'. execute H (logged W) h req (w, l) = (r, (w', l @ calls_at (begin_request H h req))) \<and>
      (r = Ok () \<longleftrightarrow> \<not> fails_at (begin_request H h req))"
    unfolding makes_def is_ok_iff by (metis (full_types) old.unit.exhaust)
qed

end
