(* ===== verification/Channel.thy ===== *)
theory Channel
  imports Prelude
begin

text \<open>
  The bounded channels between the tasks (\<open>tokio::sync::mpsc::channel(4)\<close> in src/src/server.rs and
  src/src/player/mod.rs). The channel is a parameter: a record of its operations with the laws of a queue of
  bounded length. \<open>chan_send\<close> is \<open>None\<close> while there is no room, which is when \<open>send().await\<close>
  waits, and \<open>chan_recv\<close> is \<open>None\<close> while \<open>recv().await\<close> waits.
\<close>

section \<open>The interface\<close>

record ('c, 'a) chan_ops =
  chan_new :: 'c
  chan_send :: "'c \<Rightarrow> 'a \<Rightarrow> 'c option"
  chan_recv :: "'c \<Rightarrow> ('a \<times> 'c) option"
  chan_items :: "'c \<Rightarrow> 'a list"

locale bounded_channel =
  fixes K :: "('c, 'a) chan_ops" and cap :: nat
  assumes new_empty: "chan_items K (chan_new K) = []"
    and room: "0 < cap"
    and send_waits: "chan_send K c x = None \<longleftrightarrow> cap \<le> length (chan_items K c)"
    and send_appends: "chan_send K c x = Some c' \<Longrightarrow> chan_items K c' = chan_items K c @ [x]"
    and recv_waits: "chan_recv K c = None \<longleftrightarrow> chan_items K c = []"
    and recv_takes: "chan_recv K c = Some (x, c') \<Longrightarrow> chan_items K c = x # chan_items K c'"
begin

lemma send_bounded:
  "chan_send K c x = Some c' \<Longrightarrow> length (chan_items K c) \<le> cap \<Longrightarrow> length (chan_items K c') \<le> cap"
  using send_waits[of c x] send_appends[of c x c'] by simp

lemma recv_bounded:
  "chan_recv K c = Some (x, c') \<Longrightarrow> length (chan_items K c) \<le> cap \<Longrightarrow> length (chan_items K c') \<le> cap"
  using recv_takes[of c x c'] by simp

end

text \<open>Lists as channels.\<close>

definition list_channel :: "nat \<Rightarrow> ('a list, 'a) chan_ops" where
  "list_channel cap =
     \<lparr>chan_new = [],
      chan_send = (\<lambda>c x. if length c < cap then Some (c @ [x]) else None),
      chan_recv = (\<lambda>c. case c of [] \<Rightarrow> None | x # xs \<Rightarrow> Some (x, xs)),
      chan_items = (\<lambda>c. c)\<rparr>"

interpretation list_channel: bounded_channel "list_channel 4" 4
  by unfold_locales (auto simp: list_channel_def split: list.splits if_splits)

section \<open>Merging two streams\<close>

lemma shuffles_append_left: "zs \<in> shuffles xs ys \<Longrightarrow> zs @ ws \<in> shuffles (xs @ ws) ys"
proof (induction xs ys arbitrary: zs rule: shuffles.induct)
  case (1 ys)
  then show ?case by (induction ys arbitrary: zs) (auto simp: Cons_in_shuffles_iff intro!: Nil_in_shufflesI
        intro: Cons_in_shuffles_rightI split: list.splits)
next
  case (2 x xs)
  then show ?case by simp
next
  case (3 x xs y ys)
  then show ?case by (auto intro: Cons_in_shuffles_leftI Cons_in_shuffles_rightI)
qed

lemma shuffles_append_right: "zs \<in> shuffles xs ys \<Longrightarrow> zs @ ws \<in> shuffles xs (ys @ ws)"
  using shuffles_append_left[of zs ys xs ws] by (simp add: shuffles_commutes)

end
