(* ===== verification/Streaming.thy ===== *)
theory Streaming
  imports Player Channel
begin

text \<open>
  The tasks of a running session and the channels between them: the audio receiver
  (src/src/player/server_receiver.rs) and the control receiver (control_receiver.rs) send packets to the
  player (mod.rs) through one channel, the player sends the ranges of missing numbers to the control sender
  (control_sender.rs) through another. The tasks run concurrently, so a run is a schedule: a list that says whose
  turn it is. A task that waits in \<open>send().await\<close> holds its value until there is room, and does not
  take another event before that.
\<close>

section \<open>The state of all tasks\<close>

text \<open>A receiver with the datagrams that its socket still has for it.\<close>

record 'q rx_side =
  inbox :: "bytes list"
  rx_task :: "receiver status"
  held :: "('q \<times> bytes) option"

record ('q, 'k, 'd, 'f, 'c, 'e) streaming =
  audio :: "'q rx_side"
  control :: "'q rx_side"
  queue :: 'c
  player_task :: "('q, 'k, 'd, 'f) player status"
  unsent :: "('q \<times> 'q) option"
  gaps :: 'e
  sender_task :: "shutdown_state status"
  wire :: "bytes list"

datatype turn = AudioReceives | ControlReceives | PlayerPlays | SenderSends

definition rx_start :: "bytes list \<Rightarrow> 'q rx_side" where
  "rx_start ds = \<lparr>inbox = ds, rx_task = Waiting (receiver_new (4 * 1024)), held = None\<rparr>"

definition streaming_start ::
  "('c, 'q \<times> bytes) chan_ops \<Rightarrow> ('e, 'q \<times> 'q) chan_ops \<Rightarrow> ('q, 'k, 'd, 'f) player \<Rightarrow> bytes list \<Rightarrow> bytes list \<Rightarrow>
   ('q, 'k, 'd, 'f, 'c, 'e) streaming" where
  "streaming_start K L p ds cs =
     \<lparr>audio = rx_start ds, control = rx_start cs, queue = chan_new K, player_task = Waiting p, unsent = None,
      gaps = chan_new L, sender_task = Waiting shutdown_new, wire = []\<rparr>"

section \<open>Turns\<close>

definition running :: "'s status \<Rightarrow> bool" where
  "running st = (case st of Waiting _ \<Rightarrow> True | Finished _ \<Rightarrow> False)"

definition to_player :: "'q net_effect list \<Rightarrow> ('q \<times> bytes) option" where
  "to_player os = (case os of [ToPlayer s pk] \<Rightarrow> Some (s, pk) | _ \<Rightarrow> None)"

definition to_sender :: "('q, 'f) player_effect list \<Rightarrow> ('q \<times> 'q) option" where
  "to_sender os = (case os of [ControlSend n r] \<Rightarrow> Some r | _ \<Rightarrow> None)"

definition to_peer :: "'q net_effect list \<Rightarrow> bytes list" where
  "to_peer os = concat (map (\<lambda>e. case e of ToPeer d \<Rightarrow> [d] | _ \<Rightarrow> []) os)"

text \<open>A receiver sends what it holds, or takes the next datagram; the channel is closed when the player is gone.\<close>

definition receiver_turn ::
  "('c, 'q \<times> bytes) chan_ops \<Rightarrow> (receiver \<Rightarrow> recv_event \<Rightarrow> (receiver, 'q net_effect) step) \<Rightarrow> bool \<Rightarrow>
   'q rx_side \<Rightarrow> 'c \<Rightarrow> ('q rx_side \<times> 'c) option" where
  "receiver_turn K body alive r c =
     (case rx_task r of
        Finished _ \<Rightarrow> None
      | Waiting st \<Rightarrow>
          (case held r of
             Some x \<Rightarrow>
               if alive then map_option (Pair (r\<lparr>held := None\<rparr>)) (chan_send K c x)
               else Some (r\<lparr>rx_task := Finished (Err SendError), held := None\<rparr>, c)
           | None \<Rightarrow>
               (case inbox r of
                  [] \<Rightarrow> None
                | d # ds \<Rightarrow>
                    (case body st (Received d True) of
                       Continue st' os \<Rightarrow> Some (r\<lparr>inbox := ds, rx_task := Waiting st', held := to_player os\<rparr>, c)
                     | Return e os \<Rightarrow> Some (r\<lparr>inbox := ds, rx_task := Finished e\<rparr>, c)))))"

definition player_turn ::
  "('c, 'q \<times> bytes) chan_ops \<Rightarrow> ('e, 'q \<times> 'q) chan_ops \<Rightarrow> 'q seq_ops \<Rightarrow> ('k, 'd) codec_ops \<Rightarrow> setup_net \<Rightarrow>
   ('q, 'k, 'd, 'f, 'c, 'e) streaming \<Rightarrow> ('q, 'k, 'd, 'f, 'c, 'e) streaming option" where
  "player_turn K L Q C net s =
     (case player_task s of
        Finished _ \<Rightarrow> None
      | Waiting p \<Rightarrow>
          (case unsent s of
             Some r \<Rightarrow>
               if running (sender_task s)
               then map_option (\<lambda>g. s\<lparr>unsent := None, gaps := g\<rparr>) (chan_send L (gaps s) r)
               else Some (s\<lparr>player_task := Finished (Err SendError), unsent := None\<rparr>)
           | None \<Rightarrow>
               (case chan_recv K (queue s) of
                  None \<Rightarrow> None
                | Some ((sq, pk), c) \<Rightarrow>
                    (case player_body Q C p (Request (PutPacket sq pk) net True) of
                       Continue p' os \<Rightarrow> Some (s\<lparr>queue := c, player_task := Waiting p', unsent := to_sender os\<rparr>)
                     | Return e os \<Rightarrow> Some (s\<lparr>queue := c, player_task := Finished e\<rparr>)))))"

definition sender_turn ::
  "('e, 'q \<times> 'q) chan_ops \<Rightarrow> 'q seq_ops \<Rightarrow> ('q, 'k, 'd, 'f, 'c, 'e) streaming \<Rightarrow>
   ('q, 'k, 'd, 'f, 'c, 'e) streaming option" where
  "sender_turn L Q s =
     (case sender_task s of
        Finished _ \<Rightarrow> None
      | Waiting sd \<Rightarrow>
          (case chan_recv L (gaps s) of
             None \<Rightarrow> None
           | Some (r, g) \<Rightarrow>
               (case control_sender_body Q sd (MissingSeqs r) of
                  Continue sd' os \<Rightarrow> Some (s\<lparr>gaps := g, sender_task := Waiting sd', wire := wire s @ to_peer os\<rparr>)
                | Return e os \<Rightarrow> Some (s\<lparr>gaps := g, sender_task := Finished e\<rparr>))))"

fun take_turn ::
  "('c, 'q \<times> bytes) chan_ops \<Rightarrow> ('e, 'q \<times> 'q) chan_ops \<Rightarrow> 'q seq_ops \<Rightarrow> ('k, 'd) codec_ops \<Rightarrow> setup_net \<Rightarrow>
   (bytes \<Rightarrow> 'q rtp_view option) \<Rightarrow> turn \<Rightarrow> ('q, 'k, 'd, 'f, 'c, 'e) streaming \<Rightarrow>
   ('q, 'k, 'd, 'f, 'c, 'e) streaming option" where
  "take_turn K L Q C net rtp AudioReceives s =
     map_option (\<lambda>(r, c). s\<lparr>audio := r, queue := c\<rparr>)
       (receiver_turn K (server_receiver_body rtp) (running (player_task s)) (audio s) (queue s))"
| "take_turn K L Q C net rtp ControlReceives s =
     map_option (\<lambda>(r, c). s\<lparr>control := r, queue := c\<rparr>)
       (receiver_turn K (control_receiver_body Q rtp) (running (player_task s)) (control s) (queue s))"
| "take_turn K L Q C net rtp PlayerPlays s = player_turn K L Q C net s"
| "take_turn K L Q C net rtp SenderSends s = sender_turn L Q s"

text \<open>A schedule in which every turn can be taken.\<close>

fun run_turns ::
  "('c, 'q \<times> bytes) chan_ops \<Rightarrow> ('e, 'q \<times> 'q) chan_ops \<Rightarrow> 'q seq_ops \<Rightarrow> ('k, 'd) codec_ops \<Rightarrow> setup_net \<Rightarrow>
   (bytes \<Rightarrow> 'q rtp_view option) \<Rightarrow> turn list \<Rightarrow> ('q, 'k, 'd, 'f, 'c, 'e) streaming \<Rightarrow>
   ('q, 'k, 'd, 'f, 'c, 'e) streaming option" where
  "run_turns K L Q C net rtp [] s = Some s"
| "run_turns K L Q C net rtp (t # ts) s =
     Option.bind (take_turn K L Q C net rtp t s) (run_turns K L Q C net rtp ts)"

definition stuck ::
  "('c, 'q \<times> bytes) chan_ops \<Rightarrow> ('e, 'q \<times> 'q) chan_ops \<Rightarrow> 'q seq_ops \<Rightarrow> ('k, 'd) codec_ops \<Rightarrow> setup_net \<Rightarrow>
   (bytes \<Rightarrow> 'q rtp_view option) \<Rightarrow> ('q, 'k, 'd, 'f, 'c, 'e) streaming \<Rightarrow> bool" where
  "stuck K L Q C net rtp s \<longleftrightarrow>
     list_all (\<lambda>t. take_turn K L Q C net rtp t s = None) [AudioReceives, ControlReceives, PlayerPlays, SenderSends]"

section \<open>The receivers\<close>

text \<open>What a datagram is to the player.\<close>

definition audio_packet :: "(bytes \<Rightarrow> 'q rtp_view option) \<Rightarrow> bytes \<Rightarrow> ('q \<times> bytes) option" where
  "audio_packet rtp d = map_option (\<lambda>v. (sequence_number v, payload v)) (rtp d)"

definition control_packet :: "'q seq_ops \<Rightarrow> (bytes \<Rightarrow> 'q rtp_view option) \<Rightarrow> bytes \<Rightarrow> ('q \<times> bytes) option" where
  "control_packet Q rtp d =
     (case rtp d of
        Some v \<Rightarrow> if payload_type v = 86 then Some (seq_of_u16 Q (u16_of_bytes (d ! 6) (d ! 7)), drop 16 d) else None
      | None \<Rightarrow> None)"

definition fits :: "bytes \<Rightarrow> bool" where
  "fits d \<longleftrightarrow> d \<noteq> [] \<and> length d \<le> 4096"

definition fits_control :: "(bytes \<Rightarrow> 'q rtp_view option) \<Rightarrow> bytes \<Rightarrow> bool" where
  "fits_control rtp d \<longleftrightarrow> fits d \<and> (\<forall>v. rtp d = Some v \<longrightarrow> payload_type v = 86 \<longrightarrow> 16 \<le> length d)"

text \<open>A body that survives the datagrams of \<open>D\<close> and makes the packets \<open>dec\<close> of them.\<close>

definition reads ::
  "(receiver \<Rightarrow> recv_event \<Rightarrow> (receiver, 'q net_effect) step) \<Rightarrow> (bytes \<Rightarrow> bool) \<Rightarrow>
   (bytes \<Rightarrow> ('q \<times> bytes) option) \<Rightarrow> bool" where
  "reads body D dec \<longleftrightarrow>
     (\<forall>st d. receiver_inv 4096 st \<longrightarrow> D d \<longrightarrow>
        (\<exists>st' os. body st (Received d True) = Continue st' os \<and> receiver_inv 4096 st' \<and> to_player os = dec d))"

lemma audio_reads: "reads (server_receiver_body rtp) fits (audio_packet rtp)"
proof (unfold reads_def, intro allI impI)
  fix st d
  assume "receiver_inv 4096 st" "fits d"
  then obtain st' where "receiver_inv 4096 st'" "server_receiver_body rtp st (Received d True) =
     Continue st' (case rtp d of None \<Rightarrow> [] | Some v \<Rightarrow> [ToPlayer (sequence_number v) (payload v)])"
    using server_receiver_step[of 4096 st d rtp] by (auto simp: fits_def)
  then show "\<exists>st' os. server_receiver_body rtp st (Received d True) = Continue st' os \<and>
     receiver_inv 4096 st' \<and> to_player os = audio_packet rtp d"
    by (auto simp: to_player_def audio_packet_def split: option.splits)
qed

lemma u32_at_total: "i + 4 \<le> length buf \<Longrightarrow> \<exists>x. u32_at buf i = Ok x"
  by (simp add: u32_at_def slice_Ok u32_from_be_bytes_total)

lemma time_at_total: "i + 8 \<le> length buf \<Longrightarrow> \<exists>t. time_at buf i = Ok t"
  using u32_at_total[of i buf] u32_at_total[of "i + 4" buf] by (auto simp: time_at_def)

context rtp_reader
begin

lemma control_reads: "reads (control_receiver_body Q rtp_new) (fits_control rtp_new) (control_packet Q rtp_new)"
proof (unfold reads_def, intro allI impI)
  fix st d
  assume st: "receiver_inv 4096 st" and d: "fits_control rtp_new d"
  let ?st = "st\<lparr>rx_buf := d @ drop (length d) (rx_buf st)\<rparr>" and ?buf = "d @ drop (length d) (rx_buf st)"
  have fit: "d \<noteq> []" "length d \<le> 4096" using d by (auto simp: fits_control_def fits_def)
  have inv: "receiver_inv 4096 ?st" "length ?buf = 4096" using st fit by (auto simp: receiver_inv_def)
  have sel: "recv_select st (Received d True) = Got ?st (length d)" "\<not> is_shutdown (rx_shutdown st)"
    using recv_select_fits[of d st True] fit st by (auto simp: receiver_inv_def)
  show "\<exists>st' os. control_receiver_body Q rtp_new st (Received d True) = Continue st' os \<and>
     receiver_inv 4096 st' \<and> to_player os = control_packet Q rtp_new d"
  proof (cases "\<exists>v. rtp_new d = Some v \<and> payload_type v = 86")
    case True
    then obtain v where v: "rtp_new d = Some v" "payload_type v = 86" by blast
    then have "\<not> length d < 16" using d by (simp add: fits_control_def linorder_not_less)
    then show ?thesis
      using retransmission_step[OF st fit v, of Q] inv(1) v by (simp add: to_player_def control_packet_def)
  next
    case False
    then have none: "control_packet Q rtp_new d = None" by (auto simp: control_packet_def split: option.splits)
    obtain t ts where "time_at ?buf 8 = Ok t" "u32_at ?buf 16 = Ok ts"
      using time_at_total[of 8 ?buf] u32_at_total[of 16 ?buf] inv(2) by auto
    then have "\<exists>os. control_receiver_body Q rtp_new st (Received d True) = Continue ?st os \<and> to_player os = None"
      using False sel by (simp add: control_receiver_body_def Let_def continue_with_def to_player_def split: option.splits)
    then show ?thesis using inv(1) none by metis
  qed
qed

end

section \<open>A receiver and its channel\<close>

definition inbound :: "(bytes \<Rightarrow> ('q \<times> bytes) option) \<Rightarrow> 'q rx_side \<Rightarrow> ('q \<times> bytes) list" where
  "inbound dec r = (case held r of None \<Rightarrow> [] | Some x \<Rightarrow> [x]) @ List.map_filter dec (inbox r)"

definition rx_ok :: "(bytes \<Rightarrow> bool) \<Rightarrow> 'q rx_side \<Rightarrow> bool" where
  "rx_ok D r \<longleftrightarrow> (\<exists>st. rx_task r = Waiting st \<and> receiver_inv 4096 st) \<and> list_all D (inbox r)"

definition rx_weight :: "'q rx_side \<Rightarrow> nat" where
  "rx_weight r = 5 * length (inbox r) + (case held r of None \<Rightarrow> 0 | Some x \<Rightarrow> 4)"

lemma rx_start_ok: "list_all D ds \<Longrightarrow> rx_ok D (rx_start ds)"
  using receiver_inv_new[of 4096] by (auto simp: rx_ok_def rx_start_def)

lemma inbound_start: "inbound dec (rx_start ds) = List.map_filter dec ds"
  by (simp add: inbound_def rx_start_def)

text \<open>Both channels have room for four values.\<close>

locale session_channels = packets: bounded_channel K 4 + ranges: bounded_channel L 4
  for K :: "('c, 'q \<times> bytes) chan_ops" and L :: "('e, 'q \<times> 'q) chan_ops"
begin

lemma receiver_turn_ok:
  assumes turn: "receiver_turn K body True r c = Some (r', c')" and body: "reads body D dec" and ok: "rx_ok D r"
  shows "rx_ok D r' \<and> (\<exists>xs. chan_items K c' = chan_items K c @ xs \<and> inbound dec r = xs @ inbound dec r') \<and>
     rx_weight r' + 3 * length (chan_items K c') < rx_weight r + 3 * length (chan_items K c) \<and>
     (length (chan_items K c) \<le> 4 \<longrightarrow> length (chan_items K c') \<le> 4)"
proof -
  obtain st where st: "rx_task r = Waiting st" "receiver_inv 4096 st" using ok by (auto simp: rx_ok_def)
  show ?thesis
  proof (cases "held r")
    case (Some x)
    then have sent: "chan_send K c x = Some c'" and r': "r' = r\<lparr>held := None\<rparr>"
      using turn st by (auto simp: receiver_turn_def)
    then show ?thesis
      using packets.send_appends[OF sent] packets.send_bounded[OF sent] ok Some
      by (auto simp: rx_ok_def inbound_def rx_weight_def)
  next
    case None
    then obtain d ds where box: "inbox r = d # ds"
      using turn st by (auto simp: receiver_turn_def split: list.splits)
    then have "D d" using ok by (simp add: rx_ok_def)
    then obtain st' os where step: "body st (Received d True) = Continue st' os" "receiver_inv 4096 st'"
      "to_player os = dec d" using body st(2) unfolding reads_def by blast
    then have "c' = c" "r' = r\<lparr>inbox := ds, rx_task := Waiting st', held := dec d\<rparr>"
      using turn st None box by (simp_all add: receiver_turn_def)
    then show ?thesis
      using ok step(2) None box
      by (auto simp: rx_ok_def inbound_def rx_weight_def map_filter_simps split: option.splits)
  qed
qed

lemma receiver_turn_waits:
  assumes "receiver_turn K body True r c = None" "reads body D dec" "rx_ok D r"
  shows "held r = None \<and> inbox r = [] \<or> 4 \<le> length (chan_items K c)"
proof -
  obtain st where st: "rx_task r = Waiting st" using assms(3) by (auto simp: rx_ok_def)
  show ?thesis
  proof (cases "held r")
    case (Some x)
    then have "chan_send K c x = None" using assms(1) st by (simp add: receiver_turn_def)
    then show ?thesis by (simp add: packets.send_waits)
  next
    case None
    then show ?thesis using assms(1) st by (auto simp: receiver_turn_def split: list.splits step.splits)
  qed
qed

end

section \<open>The invariant\<close>

definition gap_requests :: "('q, 'f) player_effect list \<Rightarrow> ('q \<times> 'q) list" where
  "gap_requests os = List.map_filter (\<lambda>e. case e of ControlSend n r \<Rightarrow> Some r | _ \<Rightarrow> None) os"

lemma gap_requests_append [simp]: "gap_requests (os @ os') = gap_requests os @ gap_requests os'"
  by (simp add: gap_requests_def List.map_filter_def)

lemma gap_requests_simps [simp]:
  "gap_requests [] = []" "gap_requests (ControlSend n r # os) = r # gap_requests os"
  by (simp_all add: gap_requests_def map_filter_simps)

definition as_list :: "'a option \<Rightarrow> 'a list" where
  "as_list x = (case x of None \<Rightarrow> [] | Some a \<Rightarrow> [a])"

lemma as_list_simps [simp]: "as_list None = []" "as_list (Some a) = [a]"
  by (simp_all add: as_list_def)

lemma put_packet_requests:
  assumes "player_body Q C p (Request (PutPacket sq pk) net True) = Continue p' os"
  shows "gap_requests os = as_list (to_sender os)"
proof -
  have "player_put_packet Q C True sq pk p = Ok (p', os)"
    using assms by (auto elim: player_body_continue)
  then show ?thesis
    by (rule put_packet_ok)
      (auto simp: store_packet_def to_sender_def Let_def split: option.splits prod.splits if_splits)
qed

text \<open>A player that handles every sequence of packets from \<open>P\<close> without ending.\<close>

definition survives ::
  "'q seq_ops \<Rightarrow> ('k, 'd) codec_ops \<Rightarrow> setup_net \<Rightarrow> ('q, 'k, 'd, 'f) player \<Rightarrow> ('q \<times> bytes) set \<Rightarrow> bool" where
  "survives Q C net p P \<longleftrightarrow>
     (\<forall>ps. set ps \<subseteq> P \<longrightarrow>
        (\<exists>os p'. task_loop (player_body Q C) p (packet_events net ps) = (os, Waiting p')))"

text \<open>Nothing is lost, invented or reordered: per sender, what it will still send follows what was merged into
  the queue; the player has handled the merged packets up to the queue; and what it asked for
  was sent, is in the second channel, or is being sent.\<close>

definition streaming_inv ::
  "('c, 'q \<times> bytes) chan_ops \<Rightarrow> ('e, 'q \<times> 'q) chan_ops \<Rightarrow> 'q seq_ops \<Rightarrow> ('k, 'd) codec_ops \<Rightarrow> setup_net \<Rightarrow>
   (bytes \<Rightarrow> 'q rtp_view option) \<Rightarrow> ('q, 'k, 'd, 'f) player \<Rightarrow> ('q \<times> bytes) list \<Rightarrow> ('q \<times> bytes) list \<Rightarrow>
   ('q, 'k, 'd, 'f, 'c, 'e) streaming \<Rightarrow> bool" where
  "streaming_inv K L Q C net rtp p0 A R s \<longleftrightarrow>
     rx_ok fits (audio s) \<and> rx_ok (fits_control rtp) (control s) \<and>
     length (chan_items K (queue s)) \<le> 4 \<and> length (chan_items L (gaps s)) \<le> 4 \<and>
     (\<exists>sd. sender_task s = Waiting sd \<and> \<not> is_shutdown sd) \<and>
     (\<exists>as cs del os p rs.
        A = as @ inbound (audio_packet rtp) (audio s) \<and> R = cs @ inbound (control_packet Q rtp) (control s) \<and>
        del @ chan_items K (queue s) \<in> shuffles as cs \<and>
        task_loop (player_body Q C) p0 (packet_events net del) = (os, Waiting p) \<and> player_task s = Waiting p \<and>
        gap_requests os = rs @ chan_items L (gaps s) @ as_list (unsent s) \<and> wire s = map (retransmit_request Q) rs)"

definition weight ::
  "('c, 'q \<times> bytes) chan_ops \<Rightarrow> ('e, 'q \<times> 'q) chan_ops \<Rightarrow> ('q, 'k, 'd, 'f, 'c, 'e) streaming \<Rightarrow> nat" where
  "weight K L s = rx_weight (audio s) + rx_weight (control s) + 3 * length (chan_items K (queue s)) +
     2 * length (as_list (unsent s)) + length (chan_items L (gaps s))"

lemma streaming_invI:
  assumes "rx_ok fits (audio s)" "rx_ok (fits_control rtp) (control s)"
    and "length (chan_items K (queue s)) \<le> 4" "length (chan_items L (gaps s)) \<le> 4"
    and "sender_task s = Waiting sd" "\<not> is_shutdown sd"
    and "A = as @ inbound (audio_packet rtp) (audio s)" "R = cs @ inbound (control_packet Q rtp) (control s)"
    and "del @ chan_items K (queue s) \<in> shuffles as cs"
    and "task_loop (player_body Q C) p0 (packet_events net del) = (os, Waiting p)" "player_task s = Waiting p"
    and "gap_requests os = rs @ chan_items L (gaps s) @ as_list (unsent s)" "wire s = map (retransmit_request Q) rs"
  shows "streaming_inv K L Q C net rtp p0 A R s"
  using assms unfolding streaming_inv_def by blast

lemma streaming_invE:
  assumes "streaming_inv K L Q C net rtp p0 A R s"
  obtains sd as cs del os p rs where "rx_ok fits (audio s)" "rx_ok (fits_control rtp) (control s)"
    and "length (chan_items K (queue s)) \<le> 4" "length (chan_items L (gaps s)) \<le> 4"
    and "sender_task s = Waiting sd" "\<not> is_shutdown sd"
    and "A = as @ inbound (audio_packet rtp) (audio s)" "R = cs @ inbound (control_packet Q rtp) (control s)"
    and "del @ chan_items K (queue s) \<in> shuffles as cs"
    and "task_loop (player_body Q C) p0 (packet_events net del) = (os, Waiting p)" "player_task s = Waiting p"
    and "gap_requests os = rs @ chan_items L (gaps s) @ as_list (unsent s)" "wire s = map (retransmit_request Q) rs"
  using assms unfolding streaming_inv_def by blast

lemma packet_events_append: "packet_events net (ps @ qs) = packet_events net ps @ packet_events net qs"
  by (simp add: packet_events_def)

context session_channels
begin

lemma streaming_inv_start:
  assumes "list_all fits ds" "list_all (fits_control rtp) cs"
  shows "streaming_inv K L Q C net rtp p (List.map_filter (audio_packet rtp) ds)
     (List.map_filter (control_packet Q rtp) cs) (streaming_start K L p ds cs)"
  using rx_start_ok[OF assms(1)] rx_start_ok[OF assms(2)]
  by (simp add: streaming_inv_def streaming_start_def inbound_start packets.new_empty ranges.new_empty
      shutdown_new_def is_shutdown_def)

lemma receiver_inv_step:
  assumes turn: "receiver_turn K body True r c = Some (r', c')" and body: "reads body D dec" and ok: "rx_ok D r"
    and A: "A = as @ inbound dec r" and q: "del @ chan_items K c \<in> shuffles as cs"
  shows "\<exists>as'. A = as' @ inbound dec r' \<and> del @ chan_items K c' \<in> shuffles as' cs"
proof -
  obtain xs where "chan_items K c' = chan_items K c @ xs" "inbound dec r = xs @ inbound dec r'"
    using receiver_turn_ok[OF turn body ok] by blast
  then show ?thesis using A shuffles_append_left[OF q, of xs] by (intro exI[of _ "as @ xs"]) simp
qed

lemma audio_turn_inv:
  assumes "streaming_inv K L Q C net rtp p0 A R s" "take_turn K L Q C net rtp AudioReceives s = Some s'"
  shows "streaming_inv K L Q C net rtp p0 A R s' \<and> weight K L s' < weight K L s"
  using assms(1)
proof (rule streaming_invE)
  fix sd as cs del os p rs
  assume h: "rx_ok fits (audio s)" "rx_ok (fits_control rtp) (control s)"
    "length (chan_items K (queue s)) \<le> 4" "length (chan_items L (gaps s)) \<le> 4"
    "sender_task s = Waiting sd" "\<not> is_shutdown sd"
    "A = as @ inbound (audio_packet rtp) (audio s)" "R = cs @ inbound (control_packet Q rtp) (control s)"
    "del @ chan_items K (queue s) \<in> shuffles as cs"
    "task_loop (player_body Q C) p0 (packet_events net del) = (os, Waiting p)" "player_task s = Waiting p"
    "gap_requests os = rs @ chan_items L (gaps s) @ as_list (unsent s)" "wire s = map (retransmit_request Q) rs"
  obtain r' c' where turn: "receiver_turn K (server_receiver_body rtp) True (audio s) (queue s) = Some (r', c')"
    and s': "s' = s\<lparr>audio := r', queue := c'\<rparr>"
    using assms(2) h(11) by (auto simp: running_def)
  note step = receiver_turn_ok[OF turn audio_reads h(1)]
  obtain as' where as': "A = as' @ inbound (audio_packet rtp) r'" "del @ chan_items K c' \<in> shuffles as' cs"
    using receiver_inv_step[OF turn audio_reads h(1,7,9)] by blast
  have "streaming_inv K L Q C net rtp p0 A R s'"
    by (rule streaming_invI[where sd = sd and as = as' and cs = cs and del = del and os = os and p = p and rs = rs])
      (use h(2-6,8,10-13) as' step in \<open>simp_all add: s'\<close>)
  then show ?thesis using step by (simp add: weight_def s')
qed

lemma control_turn_inv:
  assumes "rtp_reader rtp" "streaming_inv K L Q C net rtp p0 A R s"
    and "take_turn K L Q C net rtp ControlReceives s = Some s'"
  shows "streaming_inv K L Q C net rtp p0 A R s' \<and> weight K L s' < weight K L s"
  using assms(2)
proof (rule streaming_invE)
  fix sd as cs del os p rs
  assume h: "rx_ok fits (audio s)" "rx_ok (fits_control rtp) (control s)"
    "length (chan_items K (queue s)) \<le> 4" "length (chan_items L (gaps s)) \<le> 4"
    "sender_task s = Waiting sd" "\<not> is_shutdown sd"
    "A = as @ inbound (audio_packet rtp) (audio s)" "R = cs @ inbound (control_packet Q rtp) (control s)"
    "del @ chan_items K (queue s) \<in> shuffles as cs"
    "task_loop (player_body Q C) p0 (packet_events net del) = (os, Waiting p)" "player_task s = Waiting p"
    "gap_requests os = rs @ chan_items L (gaps s) @ as_list (unsent s)" "wire s = map (retransmit_request Q) rs"
  obtain r' c' where turn: "receiver_turn K (control_receiver_body Q rtp) True (control s) (queue s) = Some (r', c')"
    and s': "s' = s\<lparr>control := r', queue := c'\<rparr>"
    using assms(3) h(11) by (auto simp: running_def)
  note reads = rtp_reader.control_reads[OF assms(1), of Q]
  note step = receiver_turn_ok[OF turn reads h(2)]
  obtain cs' where cs': "R = cs' @ inbound (control_packet Q rtp) r'" "del @ chan_items K c' \<in> shuffles as cs'"
    using receiver_inv_step[OF turn reads h(2,8)] h(9) shuffles_commutes by metis
  have "streaming_inv K L Q C net rtp p0 A R s'"
    by (rule streaming_invI[where sd = sd and as = as and cs = cs' and del = del and os = os and p = p and rs = rs])
      (use h(1,3-7,10-13) cs' step in \<open>simp_all add: s'\<close>)
  then show ?thesis using step by (simp add: weight_def s')
qed

lemma player_turn_inv:
  assumes surv: "survives Q C net p0 (set A \<union> set R)" and inv: "streaming_inv K L Q C net rtp p0 A R s"
    and turn: "take_turn K L Q C net rtp PlayerPlays s = Some s'"
  shows "streaming_inv K L Q C net rtp p0 A R s' \<and> weight K L s' < weight K L s"
  using inv
proof (rule streaming_invE)
  fix sd as cs del os p rs
  assume h: "rx_ok fits (audio s)" "rx_ok (fits_control rtp) (control s)"
    "length (chan_items K (queue s)) \<le> 4" "length (chan_items L (gaps s)) \<le> 4"
    "sender_task s = Waiting sd" "\<not> is_shutdown sd"
    "A = as @ inbound (audio_packet rtp) (audio s)" "R = cs @ inbound (control_packet Q rtp) (control s)"
    "del @ chan_items K (queue s) \<in> shuffles as cs"
    "task_loop (player_body Q C) p0 (packet_events net del) = (os, Waiting p)" "player_task s = Waiting p"
    "gap_requests os = rs @ chan_items L (gaps s) @ as_list (unsent s)" "wire s = map (retransmit_request Q) rs"
  show ?thesis
  proof (cases "unsent s")
    case (Some r)
    then obtain g where sent: "chan_send L (gaps s) r = Some g" and s': "s' = s\<lparr>unsent := None, gaps := g\<rparr>"
      using turn h(5,11) by (auto simp: player_turn_def running_def)
    note items = ranges.send_appends[OF sent] ranges.send_bounded[OF sent]
    have "streaming_inv K L Q C net rtp p0 A R s'"
      by (rule streaming_invI[where sd = sd and as = as and cs = cs and del = del and os = os and p = p and rs = rs])
        (use h items Some in \<open>simp_all add: s'\<close>)
    then show ?thesis using items Some by (simp add: weight_def s')
  next
    case None
    then obtain sq pk c where recv: "chan_recv K (queue s) = Some ((sq, pk), c)"
      using turn h(11) by (auto simp: player_turn_def split: option.splits)
    have items: "chan_items K (queue s) = (sq, pk) # chan_items K c" by (rule packets.recv_takes[OF recv])
    have "set (del @ [(sq, pk)]) \<subseteq> set A \<union> set R"
      using set_shuffles[OF h(9)] items h(7,8) by auto
    then obtain os2 p2 where run: "task_loop (player_body Q C) p0 (packet_events net (del @ [(sq, pk)])) = (os2, Waiting p2)"
      using surv unfolding survives_def by blast
    then obtain os1 where step: "player_body Q C p (Request (PutPacket sq pk) net True) = Continue p2 os1"
      and os2: "os2 = os @ os1"
      by (auto simp: packet_events_append task_loop_append[OF h(10)] split: step.splits)
    then have s': "s' = s\<lparr>queue := c, player_task := Waiting p2, unsent := to_sender os1\<rparr>"
      using turn h(11) None recv by (simp add: player_turn_def)
    have req: "gap_requests os2 = rs @ chan_items L (gaps s) @ as_list (to_sender os1)"
      using h(12) None put_packet_requests[OF step] by (simp add: os2)
    have "length (as_list (to_sender os1)) \<le> 1" by (simp add: as_list_def split: option.splits)
    then have "weight K L s' < weight K L s" using items None unfolding weight_def s' by simp
    moreover have "streaming_inv K L Q C net rtp p0 A R s'"
      by (rule streaming_invI[where sd = sd and as = as and cs = cs and del = "del @ [(sq, pk)]" and os = os2
            and p = p2 and rs = rs]) (use h(1-9,13) items req run in \<open>simp_all add: s'\<close>)
    ultimately show ?thesis by simp
  qed
qed

lemma sender_turn_inv:
  assumes inv: "streaming_inv K L Q C net rtp p0 A R s"
    and turn: "take_turn K L Q C net rtp SenderSends s = Some s'"
  shows "streaming_inv K L Q C net rtp p0 A R s' \<and> weight K L s' < weight K L s"
  using inv
proof (rule streaming_invE)
  fix sd as cs del os p rs
  assume h: "rx_ok fits (audio s)" "rx_ok (fits_control rtp) (control s)"
    "length (chan_items K (queue s)) \<le> 4" "length (chan_items L (gaps s)) \<le> 4"
    "sender_task s = Waiting sd" "\<not> is_shutdown sd"
    "A = as @ inbound (audio_packet rtp) (audio s)" "R = cs @ inbound (control_packet Q rtp) (control s)"
    "del @ chan_items K (queue s) \<in> shuffles as cs"
    "task_loop (player_body Q C) p0 (packet_events net del) = (os, Waiting p)" "player_task s = Waiting p"
    "gap_requests os = rs @ chan_items L (gaps s) @ as_list (unsent s)" "wire s = map (retransmit_request Q) rs"
  obtain r g where recv: "chan_recv L (gaps s) = Some (r, g)"
    using turn h(5) by (auto simp: sender_turn_def split: option.splits)
  have items: "chan_items L (gaps s) = r # chan_items L g" by (rule ranges.recv_takes[OF recv])
  have s': "s' = s\<lparr>gaps := g, sender_task := Waiting sd, wire := wire s @ [retransmit_request Q r]\<rparr>"
    using turn h(5,6) recv by (simp add: sender_turn_def control_sender_body_def to_peer_def)
  have "streaming_inv K L Q C net rtp p0 A R s'"
    by (rule streaming_invI[where sd = sd and as = as and cs = cs and del = del and os = os and p = p
          and rs = "rs @ [r]"]) (use h items in \<open>simp_all add: s'\<close>)
  then show ?thesis using items by (simp add: weight_def s')
qed

lemma turn_inv:
  assumes "rtp_reader rtp" "survives Q C net p0 (set A \<union> set R)" "streaming_inv K L Q C net rtp p0 A R s"
    and "take_turn K L Q C net rtp t s = Some s'"
  shows "streaming_inv K L Q C net rtp p0 A R s' \<and> weight K L s' < weight K L s"
proof (cases t)
  case AudioReceives
  then show ?thesis using audio_turn_inv[OF assms(3)] assms(4) by blast
next
  case ControlReceives
  then show ?thesis using control_turn_inv[OF assms(1,3)] assms(4) by blast
next
  case PlayerPlays
  then show ?thesis using player_turn_inv[OF assms(2,3)] assms(4) by blast
next
  case SenderSends
  then show ?thesis using sender_turn_inv[OF assms(3)] assms(4) by blast
qed

lemma run_inv:
  assumes "rtp_reader rtp" "survives Q C net p0 (set A \<union> set R)"
  shows "streaming_inv K L Q C net rtp p0 A R s \<Longrightarrow> run_turns K L Q C net rtp ts s = Some s' \<Longrightarrow>
     streaming_inv K L Q C net rtp p0 A R s' \<and> length ts + weight K L s' \<le> weight K L s"
proof (induction ts arbitrary: s)
  case Nil
  then show ?case by simp
next
  case (Cons t ts)
  then obtain s1 where s1: "take_turn K L Q C net rtp t s = Some s1" "run_turns K L Q C net rtp ts s1 = Some s'"
    by (auto simp: bind_eq_Some_conv simp del: take_turn.simps)
  have "streaming_inv K L Q C net rtp p0 A R s1" "weight K L s1 < weight K L s"
    using turn_inv[OF assms Cons.prems(1) s1(1)] by auto
  then show ?case using Cons.IH[OF _ s1(2)] by fastforce
qed

end

section \<open>No deadlock\<close>

text \<open>Everything was received, handled and answered.\<close>

definition drained ::
  "('c, 'q \<times> bytes) chan_ops \<Rightarrow> ('e, 'q \<times> 'q) chan_ops \<Rightarrow> ('q, 'k, 'd, 'f, 'c, 'e) streaming \<Rightarrow> bool" where
  "drained K L s \<longleftrightarrow>
     inbox (audio s) = [] \<and> held (audio s) = None \<and> inbox (control s) = [] \<and> held (control s) = None \<and>
     chan_items K (queue s) = [] \<and> unsent s = None \<and> chan_items L (gaps s) = []"

context session_channels
begin

lemma stuck_empty:
  assumes "rtp_reader rtp" "stuck K L Q C net rtp s" "rx_ok fits (audio s)" "rx_ok (fits_control rtp) (control s)"
    and sd: "sender_task s = Waiting sd" "\<not> is_shutdown sd" and p: "player_task s = Waiting p"
  shows "drained K L s"
proof -
  have turns: "take_turn K L Q C net rtp t s = None" for t
    using assms(2) by (cases t) (auto simp: stuck_def simp del: take_turn.simps)
  have "chan_recv L (gaps s) = None"
  proof (cases "chan_recv L (gaps s)")
    case (Some x)
    then show ?thesis using turns[of SenderSends] sd by (cases x) (simp add: sender_turn_def control_sender_body_def)
  qed
  then have gaps: "chan_items L (gaps s) = []" by (simp only: ranges.recv_waits)
  have unsent: "unsent s = None"
  proof (cases "unsent s")
    case (Some r)
    then have "chan_send L (gaps s) r = None" using turns[of PlayerPlays] p sd by (simp add: player_turn_def running_def)
    then show ?thesis using gaps by (simp add: ranges.send_waits)
  qed
  have "chan_recv K (queue s) = None"
    using turns[of PlayerPlays] p unsent by (auto simp: player_turn_def split: option.splits step.splits)
  then have queue: "chan_items K (queue s) = []" by (simp only: packets.recv_waits)
  have "receiver_turn K (server_receiver_body rtp) True (audio s) (queue s) = None"
    using turns[of AudioReceives] p by (simp add: running_def)
  from receiver_turn_waits[OF this audio_reads assms(3)] have audio: "held (audio s) = None \<and> inbox (audio s) = []"
    using queue by simp
  have "receiver_turn K (control_receiver_body Q rtp) True (control s) (queue s) = None"
    using turns[of ControlReceives] p by (simp add: running_def)
  from receiver_turn_waits[OF this rtp_reader.control_reads[OF assms(1)] assms(4)]
  have "held (control s) = None \<and> inbox (control s) = []" using queue by simp
  then show ?thesis using audio queue unsent gaps by (simp add: drained_def)
qed

lemma stuck_drained:
  assumes "rtp_reader rtp" "streaming_inv K L Q C net rtp p0 A R s" "stuck K L Q C net rtp s"
  shows "drained K L s"
  using assms(2) by (rule streaming_invE) (rule stuck_empty[OF assms(1,3)])

lemma drained_result:
  assumes "streaming_inv K L Q C net rtp p0 A R s" "drained K L s"
  shows "\<exists>del os. del \<in> shuffles A R \<and>
     task_loop (player_body Q C) p0 (packet_events net del) = (os, player_task s) \<and>
     wire s = map (retransmit_request Q) (gap_requests os)"
  using assms(1)
proof (rule streaming_invE)
  fix as cs del os p rs
  assume h: "A = as @ inbound (audio_packet rtp) (audio s)" "R = cs @ inbound (control_packet Q rtp) (control s)"
    "del @ chan_items K (queue s) \<in> shuffles as cs"
    "task_loop (player_body Q C) p0 (packet_events net del) = (os, Waiting p)" "player_task s = Waiting p"
    "gap_requests os = rs @ chan_items L (gaps s) @ as_list (unsent s)" "wire s = map (retransmit_request Q) rs"
  have "A = as" "R = cs" using h(1,2) assms(2) by (simp_all add: drained_def inbound_def map_filter_simps)
  then show ?thesis using h(3-7) assms(2) by (auto simp: drained_def)
qed

lemma schedule_completes:
  assumes "rtp_reader rtp" "survives Q C net p0 (set A \<union> set R)"
  shows "streaming_inv K L Q C net rtp p0 A R s \<Longrightarrow>
     \<exists>ts s'. run_turns K L Q C net rtp ts s = Some s' \<and> stuck K L Q C net rtp s'"
proof (induction "weight K L s" arbitrary: s rule: less_induct)
  case less
  show ?case
  proof (cases "stuck K L Q C net rtp s")
    case True
    then show ?thesis by (intro exI[of _ "[]"] exI[of _ s]) simp
  next
    case False
    then obtain t s1 where s1: "take_turn K L Q C net rtp t s = Some s1"
      by (auto simp: stuck_def simp del: take_turn.simps)
    have "streaming_inv K L Q C net rtp p0 A R s1" "weight K L s1 < weight K L s"
      using turn_inv[OF assms less.prems s1] by auto
    then obtain ts s' where "run_turns K L Q C net rtp ts s1 = Some s'" "stuck K L Q C net rtp s'"
      using less.hyps by blast
    then show ?thesis using s1 by (intro exI[of _ "t # ts"] exI[of _ s']) (simp del: take_turn.simps)
  qed
qed

lemma weight_start: "weight K L (streaming_start K L p ds cs) = 5 * (length ds + length cs)"
  by (simp add: weight_def streaming_start_def rx_weight_def rx_start_def packets.new_empty ranges.new_empty)

end

interpretation list_session: session_channels "list_channel 4" "list_channel 4"
  by unfold_locales

text \<open>A player with a recording survives every packet that decodes.\<close>

lemma recording_survives:
  assumes "encryption p = Some enc" "cipher p = Some ci" "length (aesiv enc) = 16"
    and "alac p = Some d" "D d" "\<forall>pk \<in> snd ` P. decodes C ci (aesiv enc) D pcm pk"
    and "frame_buf p = Some r" "r < length (buffers p)" "\<not> is_shutdown (player_shutdown p)"
  shows "survives Q C net p P"
  unfolding survives_def
proof (intro allI impI)
  fix ps
  assume "set ps \<subseteq> P"
  then have "\<forall>pk \<in> snd ` set ps. decodes C ci (aesiv enc) D pcm pk" using assms(6) by blast
  then show "\<exists>os p'. task_loop (player_body Q C) p (packet_events net ps) = (os, Waiting p')"
    using packets_stored[where D = D and d = d and pcm = pcm, OF assms(1-5) _ assms(7-9)] by blast
qed

section \<open>A concrete session\<close>

text \<open>Packets 7 and 9 on the audio socket, the retransmission of packet 8 on the control socket.\<close>

definition demo_audio :: "bytes list" where
  "demo_audio = [[0x80, 0x60, 0, 7, 0, 0, 0, 0, 0, 0, 0, 0, 5], [0x80, 0x60, 0, 9, 0, 0, 0, 0, 0, 0, 0, 0, 6]]"

definition demo_answers :: "bytes list" where
  "demo_answers = [[0x80, 0xD6, 0, 1, 0, 0, 0, 8, 0, 0, 0, 0, 0, 0, 0, 0, 7, 8]]"

type_synonym demo_streaming =
  "(u16, bytes, unit, nat, (u16 \<times> bytes) list, (u16 \<times> u16) list) streaming"

definition demo_start :: demo_streaming where
  "demo_start = streaming_start (list_channel 4) (list_channel 4) demo_player demo_audio demo_answers"

lemma demo_packets:
  "List.map_filter (audio_packet rtp_decode) demo_audio = [(7, [5]), (9, [6])]"
  "List.map_filter (control_packet word_seq rtp_decode) demo_answers = [(8, [7, 8])]"
  "list_all fits demo_audio" "list_all (fits_control rtp_decode) demo_answers"
  by (simp_all add: demo_audio_def demo_answers_def map_filter_simps audio_packet_def control_packet_def
      rtp_decode_def u16_of_bytes_def fits_def fits_control_def)

lemma demo_survives:
  assumes "snd ` P \<subseteq> {[5], [6], [7, 8]}"
  shows "survives word_seq byte_codec up demo_player P"
proof (rule recording_survives[where D = "\<lambda>_. True" and pcm = demo_pcm])
  have "\<forall>pk \<in> {[5], [6], [7, 8]}. decodes byte_codec (replicate 16 2) (replicate 16 1) (\<lambda>_. True) demo_pcm pk"
    by (simp add: demo_decoded)
  then show "\<forall>pk \<in> snd ` P. decodes byte_codec (replicate 16 2)
      (aesiv \<lparr>aesiv = replicate 16 1, aeskey = replicate 16 2\<rparr>) (\<lambda>_. True) demo_pcm pk"
    unfolding encryption.simps using assms by blast
qed (simp_all add: demo_player_def player_new_def)

lemma demo_completes:
  "\<exists>ts s. run_turns (list_channel 4) (list_channel 4) word_seq byte_codec up rtp_decode ts demo_start = Some s \<and>
     stuck (list_channel 4) (list_channel 4) word_seq byte_codec up rtp_decode s"
  unfolding demo_start_def
  by (rule list_session.schedule_completes[OF rtp_decode.rtp_reader_axioms demo_survives
        list_session.streaming_inv_start[OF demo_packets(3,4)]]) (simp add: demo_packets)

section \<open>Properties\<close>

text \<open>C8. The tasks of a session never deadlock: whatever datagrams of the peer are waiting (each fitting the
  receive buffer, retransmissions with their packet), on every schedule of the receivers, the player and the
  control sender over channels with room for four values, a state in which no task can take a turn is one in
  which every datagram has been received, every packet played and every retransmit request sent; such a
  state is reached after at most five turns per datagram, from every point of the schedule.\<close>

theorem session_never_deadlocks:
  assumes "session_channels K L" and "rtp_reader rtp"
    and "list_all fits ds" and "list_all (fits_control rtp) cs"
    and "survives Q C net p (set (List.map_filter (audio_packet rtp) ds) \<union> set (List.map_filter (control_packet Q rtp) cs))"
    and "run_turns K L Q C net rtp ts (streaming_start K L p ds cs) = Some s"
  shows "length ts \<le> 5 * (length ds + length cs) \<and> (stuck K L Q C net rtp s \<longrightarrow> drained K L s) \<and>
     (\<exists>ts' s'. run_turns K L Q C net rtp ts' s = Some s' \<and> stuck K L Q C net rtp s')"
proof -
  note inv = session_channels.run_inv[OF assms(1,2,5) session_channels.streaming_inv_start[OF assms(1,3,4)] assms(6)]
  show ?thesis
    using inv session_channels.weight_start[OF assms(1), of p ds cs]
      session_channels.stuck_drained[OF assms(1,2) conjunct1[OF inv]]
      session_channels.schedule_completes[OF assms(1,2,5) conjunct1[OF inv]] by simp
qed

theorem session_never_deadlocks_witness:
  "\<exists>ts s. run_turns (list_channel 4) (list_channel 4) word_seq byte_codec up rtp_decode ts demo_start = Some s \<and>
     length ts \<le> 15 \<and> drained (list_channel 4) (list_channel 4) s"
proof -
  obtain ts s where run: "run_turns (list_channel 4) (list_channel 4) word_seq byte_codec up rtp_decode ts demo_start = Some s"
    and "stuck (list_channel 4) (list_channel 4) word_seq byte_codec up rtp_decode s"
    using demo_completes by blast
  moreover have "length ts \<le> 5 * (length demo_audio + length demo_answers) \<and>
      (stuck (list_channel 4) (list_channel 4) word_seq byte_codec up rtp_decode s \<longrightarrow>
         drained (list_channel 4) (list_channel 4) s) \<and>
      (\<exists>ts' s'. run_turns (list_channel 4) (list_channel 4) word_seq byte_codec up rtp_decode ts' s = Some s' \<and>
         stuck (list_channel 4) (list_channel 4) word_seq byte_codec up rtp_decode s')"
    by (rule session_never_deadlocks[OF list_session.session_channels_axioms rtp_decode.rtp_reader_axioms
          demo_packets(3,4) demo_survives run[unfolded demo_start_def]]) (simp add: demo_packets)
  ultimately show ?thesis by (auto simp: demo_audio_def demo_answers_def)
qed

text \<open>C9. The schedule does not matter: when the tasks of a session have nothing left to do, the player is in the
  state, and the wire has the retransmit requests, that handling the packets one after another gives, in an
  order that keeps the order of each of the two sockets; no packet is lost, doubled or made up.\<close>

theorem schedule_is_a_merge:
  assumes "session_channels K L" and "rtp_reader rtp"
    and "list_all fits ds" and "list_all (fits_control rtp) cs"
    and "A = List.map_filter (audio_packet rtp) ds" and "R = List.map_filter (control_packet Q rtp) cs"
    and "survives Q C net p (set A \<union> set R)"
    and "run_turns K L Q C net rtp ts (streaming_start K L p ds cs) = Some s" and "stuck K L Q C net rtp s"
  shows "\<exists>del os. del \<in> shuffles A R \<and>
     task_loop (player_body Q C) p (packet_events net del) = (os, player_task s) \<and>
     wire s = map (retransmit_request Q) (gap_requests os)"
proof -
  have "streaming_inv K L Q C net rtp p A R (streaming_start K L p ds cs)"
    unfolding assms(5,6) by (rule session_channels.streaming_inv_start[OF assms(1,3,4)])
  from session_channels.run_inv[OF assms(1,2,7) this assms(8)] have "streaming_inv K L Q C net rtp p A R s" by blast
  then show ?thesis
    using session_channels.drained_result[OF assms(1)] session_channels.stuck_drained[OF assms(1,2)] assms(9) by blast
qed

theorem schedule_is_a_merge_witness:
  "\<exists>ts s del os. run_turns (list_channel 4) (list_channel 4) word_seq byte_codec up rtp_decode ts demo_start = Some s \<and>
     del \<in> shuffles [(7, [5]), (9, [6])] [(8, [7, 8])] \<and>
     task_loop (player_body word_seq byte_codec) demo_player (packet_events up del) = (os, player_task s) \<and>
     wire s = map (retransmit_request word_seq) (gap_requests os)"
proof -
  obtain ts s where run: "run_turns (list_channel 4) (list_channel 4) word_seq byte_codec up rtp_decode ts demo_start = Some s"
    and quiet: "stuck (list_channel 4) (list_channel 4) word_seq byte_codec up rtp_decode s"
    using demo_completes by blast
  have "\<exists>del os. del \<in> shuffles [(7, [5]), (9, [6])] [(8, [7, 8])] \<and>
     task_loop (player_body word_seq byte_codec) demo_player (packet_events up del) = (os, player_task s) \<and>
     wire s = map (retransmit_request word_seq) (gap_requests os)"
    by (rule schedule_is_a_merge[OF list_session.session_channels_axioms rtp_decode.rtp_reader_axioms
          demo_packets(3,4) demo_packets(1,2)[symmetric] demo_survives run[unfolded demo_start_def] quiet]) simp
  then show ?thesis using run by blast
qed

end
