(* ===== verification/Recovery.thy ===== *)
theory Recovery
  imports Streaming
begin

text \<open>
  What the session does about lost datagrams: the numbers between two packets that arrived are requested
  from the peer (src/src/player/mod.rs, frame_buffer.rs, control_sender.rs), and once the peer's answers have
  arrived (control_receiver.rs) the stream is complete and is played.
\<close>

section \<open>The requests of one packet\<close>

lemma store_packet_sends:
  assumes "frame_buf p = Some r" "control_tx p = Some n"
  shows "store_packet Q True s data p =
     Ok (p\<lparr>buffers := (buffers p)[r := fst (add_packet Q (buffers p ! r) s data)]\<rparr>,
       if range_is_empty Q (snd (add_packet Q (buffers p ! r) s data)) then []
       else [ControlSend n (snd (add_packet Q (buffers p ! r) s data))])"
  by (cases "add_packet Q (buffers p ! r) s data") (simp add: store_packet_def assms Let_def)

text \<open>A player that records into buffer \<open>r\<close> and can ask for packets.\<close>

definition records ::
  "('k, 'd) codec_ops \<Rightarrow> ('d \<Rightarrow> bool) \<Rightarrow> (bytes \<Rightarrow> i32 list) \<Rightarrow> bytes set \<Rightarrow> nat \<Rightarrow> ('q, 'k, 'd, 'f) player \<Rightarrow> bool" where
  "records C D pcm P r p \<longleftrightarrow>
     (\<exists>enc ci d. encryption p = Some enc \<and> cipher p = Some ci \<and> length (aesiv enc) = 16 \<and> alac p = Some d \<and> D d \<and>
        (\<forall>pk \<in> P. decodes C ci (aesiv enc) D pcm pk)) \<and>
     frame_buf p = Some r \<and> r < length (buffers p) \<and> control_tx p \<noteq> None \<and> \<not> is_shutdown (player_shutdown p)"

lemma packet_recorded:
  assumes p: "records C D pcm P r p" and pk: "pk \<in> P"
  shows "\<exists>n d'. player_body Q C p (Request (PutPacket sq pk) net True) =
       Continue (p\<lparr>alac := Some d', buffers := (buffers p)[r := fst (add_packet Q (buffers p ! r) sq (pcm16 pcm pk))]\<rparr>)
         (if range_is_empty Q (seq_next Q (write_marker (buffers p ! r)), sq) then []
          else [ControlSend n (seq_next Q (write_marker (buffers p ! r)), sq)]) \<and>
     records C D pcm P r (p\<lparr>alac := Some d', buffers := (buffers p)[r := fst (add_packet Q (buffers p ! r) sq (pcm16 pcm pk))]\<rparr>)"
proof -
  obtain enc ci d n where key: "encryption p = Some enc" "cipher p = Some ci" "length (aesiv enc) = 16"
    and d: "alac p = Some d" "D d" and dec: "\<forall>pk \<in> P. decodes C ci (aesiv enc) D pcm pk"
    and r: "frame_buf p = Some r" "r < length (buffers p)" "control_tx p = Some n" "\<not> is_shutdown (player_shutdown p)"
    using p by (auto simp: records_def)
  obtain clear d' where d': "decrypt_packet C ci (aesiv enc) pk = Ok clear" "D d'"
      "alac_decode C d clear (unat (alac_max_samples C d)) = (d', Some (pcm pk))"
    using dec pk d(2) unfolding decodes_def by blast
  let ?p = "p\<lparr>encryption := None, cipher := None, alac := Some d'\<rparr>"
  note store = store_packet_sends[of ?p r n Q sq "pcm16 pcm pk"]
  have "player_put_packet Q C True sq pk p =
      Ok (p\<lparr>alac := Some d', buffers := (buffers p)[r := fst (add_packet Q (buffers p ! r) sq (pcm16 pcm pk))]\<rparr>,
        if range_is_empty Q (seq_next Q (write_marker (buffers p ! r)), sq) then []
        else [ControlSend n (seq_next Q (write_marker (buffers p ! r)), sq)])"
    using store key d d' r by (cases p) (simp add: player_put_packet_def from_slice_def Let_def pcm16_def)
  then have "player_body Q C p (Request (PutPacket sq pk) net True) =
      Continue (p\<lparr>alac := Some d', buffers := (buffers p)[r := fst (add_packet Q (buffers p ! r) sq (pcm16 pcm pk))]\<rparr>)
        (if range_is_empty Q (seq_next Q (write_marker (buffers p ! r)), sq) then []
         else [ControlSend n (seq_next Q (write_marker (buffers p ! r)), sq)])"
    using r(4) by (simp add: player_body_ok)
  moreover have "records C D pcm P r
      (p\<lparr>alac := Some d', buffers := (buffers p)[r := fst (add_packet Q (buffers p ! r) sq (pcm16 pcm pk))]\<rparr>)"
    using key d'(2) dec r by (simp add: records_def)
  ultimately show ?thesis by blast
qed

section \<open>The requests of a stream\<close>

text \<open>The numbers that are asked for.\<close>

definition requested :: "'q seq_ops \<Rightarrow> ('q \<times> 'q) list \<Rightarrow> 'q list" where
  "requested Q rs = concat (map (\<lambda>r. seq_iter Q (fst r) (snd r)) rs)"

lemma requested_simps [simp]:
  "requested Q [] = []" "requested Q (r # rs) = seq_iter Q (fst r) (snd r) @ requested Q rs"
  by (simp_all add: requested_def)

lemma sorted_wrt_last: "sorted_wrt (<) xs \<Longrightarrow> (k :: nat) \<in> set xs \<Longrightarrow> k \<le> last xs"
  by (induction xs) (auto simp: less_imp_le split: if_splits)

lemma filter_gaps:
  assumes "sorted_wrt (<) (k # is)" "(i :: nat) < k"
  shows "filter (\<lambda>x. x \<notin> set (k # is)) [Suc i..<last (k # is)] =
     [Suc i..<k] @ filter (\<lambda>x. x \<notin> set is) [Suc k..<last (k # is)]"
proof -
  have "k \<le> last (k # is)" using assms(1) by (cases "is = []") (auto simp: less_imp_le)
  then have split: "[Suc i..<last (k # is)] = [Suc i..<k] @ [k..<last (k # is)]"
    using assms(2) by (metis Suc_leI le_add_diff_inverse upt_add_eq_append)
  have "filter (\<lambda>x. x \<notin> set (k # is)) [Suc i..<k] = [Suc i..<k]"
    using assms(1) by (auto simp: filter_id_conv)
  moreover have "filter (\<lambda>x. x \<notin> set (k # is)) [k..<last (k # is)] = filter (\<lambda>x. x \<notin> set is) [Suc k..<last (k # is)]"
  proof (cases "k < last (k # is)")
    case True
    then have "[k..<last (k # is)] = k # [Suc k..<last (k # is)]" by (rule upt_conv_Cons)
    moreover have "filter (\<lambda>x. x \<notin> set (k # is)) [Suc k..<last (k # is)] = filter (\<lambda>x. x \<notin> set is) [Suc k..<last (k # is)]"
      by (rule filter_cong) auto
    ultimately show ?thesis by simp
  qed simp
  ultimately show ?thesis unfolding split filter_append by (simp only:)
qed

context seq_api
begin

lemma iter_between:
  assumes "i < k" "k \<le> i + 32768"
  shows "seq_iter Q (seq_next Q (seq_plus Q s i)) (seq_plus Q s k) = map (seq_plus Q s) [Suc i..<k]"
    and "range_is_empty Q (seq_next Q (seq_plus Q s i), seq_plus Q s k) \<longleftrightarrow> k = Suc i"
proof -
  let ?w = "seq_plus Q s i"
  have k: "seq_plus Q s k = seq_plus Q ?w (k - i)" using assms by (simp add: plus_add)
  have d: "seq_dist Q ?w (seq_plus Q s k) = k - i" using assms unfolding k by (intro dist_plus) simp
  have "map (seq_plus Q ?w) [1..<k - i] = map (seq_plus Q s) (map (\<lambda>x. x + i) [1..<k - i])"
    by (simp add: plus_add add.commute)
  also have "map (\<lambda>x. x + i) [1..<k - i] = [Suc i..<k]"
    using assms(1) by (intro nth_equalityI) simp_all
  finally show "seq_iter Q (seq_next Q ?w) (seq_plus Q s k) = map (seq_plus Q s) [Suc i..<k]"
    using iter_window[of ?w "seq_plus Q s k"] d assms by simp
  have d1: "seq_dist Q (seq_next Q ?w) (seq_plus Q s k) = k - i - 1"
    using missing_range[of ?w "seq_plus Q s k"] d assms(1) by simp
  then have "range_is_empty Q (seq_next Q ?w, seq_plus Q s k) \<longleftrightarrow> seq_next Q ?w = seq_plus Q s k"
    using range_empty_near[of "(seq_next Q ?w, seq_plus Q s k)"] assms by simp
  also have "\<dots> \<longleftrightarrow> k - i - 1 = 0" using d1 dist_0[of "seq_next Q ?w" "seq_plus Q s k"] by simp
  finally show "range_is_empty Q (seq_next Q ?w, seq_plus Q s k) \<longleftrightarrow> k = Suc i" using assms(1) by auto
qed

lemma gaps_requested:
  assumes "records C D pcm P r p" "write_marker (buffers p ! r) = seq_plus Q s i" "sorted_wrt (<) (i # is)"
    and "last (i # is) \<le> i + 32768" "\<forall>k \<in> set is. pk k \<in> P"
  shows "\<exists>os p'. task_loop (player_body Q C) p (packet_events net (map (\<lambda>k. (seq_plus Q s k, pk k)) is)) = (os, Waiting p') \<and>
     requested Q (gap_requests os) = map (seq_plus Q s) (filter (\<lambda>k. k \<notin> set is) [Suc i..<last (i # is)])"
  using assms
proof (induction "is" arbitrary: i p)
  case Nil
  then show ?case by simp
next
  case (Cons k "is")
  have k: "i < k" "last (k # is) \<le> i + 32768" and sorted: "sorted_wrt (<) (k # is)" using Cons.prems(3,4) by simp_all
  have "k \<le> last (k # is)" using sorted by (cases "is = []") (auto simp: less_imp_le)
  then have near: "k \<le> i + 32768" "last (k # is) \<le> k + 32768" using k by linarith+
  let ?fb = "fst (add_packet Q (buffers p ! r) (seq_plus Q s k) (pcm16 pcm (pk k)))"
  have "r < length (buffers p)" "pk k \<in> P" using Cons.prems(1,5) by (simp_all add: records_def)
  obtain n d' where step: "player_body Q C p (Request (PutPacket (seq_plus Q s k) (pk k)) net True) =
      Continue (p\<lparr>alac := Some d', buffers := (buffers p)[r := ?fb]\<rparr>)
        (if range_is_empty Q (seq_next Q (seq_plus Q s i), seq_plus Q s k) then []
         else [ControlSend n (seq_next Q (seq_plus Q s i), seq_plus Q s k)])" (is "_ = Continue ?p ?os")
    and rec: "records C D pcm P r (p\<lparr>alac := Some d', buffers := (buffers p)[r := ?fb]\<rparr>)"
    using packet_recorded[OF Cons.prems(1) \<open>pk k \<in> P\<close>, of Q "seq_plus Q s k" net] unfolding Cons.prems(2) by blast
  have "write_marker (buffers ?p ! r) = seq_plus Q s k" using \<open>r < length (buffers p)\<close> by simp
  then obtain os p' where run: "task_loop (player_body Q C) ?p (packet_events net (map (\<lambda>k. (seq_plus Q s k, pk k)) is)) = (os, Waiting p')"
    and req: "requested Q (gap_requests os) = map (seq_plus Q s) (filter (\<lambda>k. k \<notin> set is) [Suc k..<last (k # is)])"
    using Cons.IH[OF rec _ sorted near(2)] Cons.prems(5) by auto
  have "requested Q (gap_requests ?os) = map (seq_plus Q s) [Suc i..<k]"
    using iter_between[OF k(1) near(1), of s] by (cases "k = Suc i") simp_all
  moreover have "filter (\<lambda>x. x \<notin> set (k # is)) [Suc i..<last (k # is)] =
      [Suc i..<k] @ filter (\<lambda>x. x \<notin> set is) [Suc k..<last (k # is)]"
    by (rule filter_gaps[OF sorted k(1)])
  ultimately have "requested Q (gap_requests (?os @ os)) =
      map (seq_plus Q s) (filter (\<lambda>x. x \<notin> set (k # is)) [Suc i..<last (k # is)])"
    using req by (simp add: requested_def)
  then show ?case using step run by (auto simp: requested_def)
qed

end

section \<open>The requests of a recording\<close>

lemma stream_requests:
  assumes Q: "seq_api Q" and p: "records C D pcm P r p" and fb: "buffers p ! r = frame_buffer_new s"
    and "is": "sorted_wrt (<) (0 # is)" "last (0 # is) \<le> 32768" "\<forall>k \<in> set (0 # is). pk k \<in> P"
  shows "\<exists>os p'. task_loop (player_body Q C) p (packet_events net (map (\<lambda>k. (seq_plus Q s k, pk k)) (0 # is))) =
       (os, Waiting p') \<and>
     requested Q (gap_requests os) = map (seq_plus Q s) (filter (\<lambda>k. k \<notin> set (0 # is)) [0..<last (0 # is)])"
proof -
  let ?fb = "fst (add_packet Q (frame_buffer_new s) s (pcm16 pcm (pk 0)))"
  have "range_is_empty Q (seq_next Q s, s)"
    using seq_api.range_empty_behind[OF Q, of s s] by (simp add: range_is_empty_def seq_api.dist_self[OF Q])
  then obtain d' where step: "player_body Q C p (Request (PutPacket s (pk 0)) net True) =
      Continue (p\<lparr>alac := Some d', buffers := (buffers p)[r := ?fb]\<rparr>) []" (is "_ = Continue ?p _")
    and rec: "records C D pcm P r (p\<lparr>alac := Some d', buffers := (buffers p)[r := ?fb]\<rparr>)"
    using packet_recorded[OF p, of "pk 0" Q s net] "is"(3) unfolding fb by auto
  have "write_marker (buffers ?p ! r) = seq_plus Q s 0"
    using p seq_api.plus_0[OF Q] by (simp add: records_def)
  then obtain os p' where run: "task_loop (player_body Q C) ?p (packet_events net (map (\<lambda>k. (seq_plus Q s k, pk k)) is)) =
      (os, Waiting p')"
    and req: "requested Q (gap_requests os) = map (seq_plus Q s) (filter (\<lambda>k. k \<notin> set is) [Suc 0..<last (0 # is)])"
    using seq_api.gaps_requested[OF Q rec, of s 0 "is" pk net] "is" by auto
  have "filter (\<lambda>k. k \<notin> set (0 # is)) [0..<l] = filter (\<lambda>k. k \<notin> set is) [Suc 0..<l]" for l
  proof (cases l)
    case (Suc m)
    have "[0..<l] = 0 # [Suc 0..<l]" unfolding Suc by (rule upt_conv_Cons) simp
    moreover have "filter (\<lambda>k. k \<notin> set (0 # is)) [Suc 0..<l] = filter (\<lambda>k. k \<notin> set is) [Suc 0..<l]"
      by (rule filter_cong) auto
    ultimately show ?thesis by simp
  qed simp
  then have "requested Q (gap_requests os) = map (seq_plus Q s) (filter (\<lambda>k. k \<notin> set (0 # is)) [0..<last (0 # is)])"
    using req by (simp only:)
  moreover have "task_loop (player_body Q C) p (packet_events net (map (\<lambda>k. (seq_plus Q s k, pk k)) (0 # is))) =
      (os, Waiting p')" using step run by (simp add: seq_api.plus_0[OF Q])
  ultimately show ?thesis by blast
qed

lemma records_survives:
  assumes "records C D pcm P r p" "snd ` X \<subseteq> P"
  shows "survives Q C net p X"
proof -
  obtain enc ci d where k: "encryption p = Some enc" "cipher p = Some ci" "length (aesiv enc) = 16"
      "alac p = Some d" "D d" "\<forall>pk \<in> P. decodes C ci (aesiv enc) D pcm pk"
    and r: "frame_buf p = Some r" "r < length (buffers p)" "\<not> is_shutdown (player_shutdown p)"
    using assms(1) by (auto simp: records_def)
  have "\<forall>pk \<in> snd ` X. decodes C ci (aesiv enc) D pcm pk" using k(6) assms(2) by blast
  from recording_survives[where D = D and d = d, OF k(1-5) this r] show ?thesis .
qed

lemma records_stores:
  assumes "records C D pcm P r p" "snd ` set ps \<subseteq> P"
    and "task_loop (player_body Q C) p (packet_events net ps) = (os, st)"
  shows "\<exists>p'. st = Waiting p' \<and> sink p' = sink p \<and>
     buffers p' ! r = add_packets Q (buffers p ! r) (map (\<lambda>(s, pk). (s, pcm16 pcm pk)) ps)"
proof -
  obtain enc ci d where k: "encryption p = Some enc" "cipher p = Some ci" "length (aesiv enc) = 16"
      "alac p = Some d" "D d" "\<forall>pk \<in> P. decodes C ci (aesiv enc) D pcm pk"
    and r: "frame_buf p = Some r" "r < length (buffers p)" "\<not> is_shutdown (player_shutdown p)"
    using assms(1) by (auto simp: records_def)
  have "\<forall>pk \<in> snd ` set ps. decodes C ci (aesiv enc) D pcm pk" using k(6) assms(2) by blast
  from packets_stored[where D = D and d = d, OF k(1-5) this r, of Q net] assms(3) r(2)
  show ?thesis by auto
qed

section \<open>Datagrams that arrive later\<close>

definition deliver_control ::
  "bytes list \<Rightarrow> ('q, 'k, 'd, 'f, 'c, 'e) streaming \<Rightarrow> ('q, 'k, 'd, 'f, 'c, 'e) streaming" where
  "deliver_control cs s = s\<lparr>control := (control s)\<lparr>inbox := inbox (control s) @ cs\<rparr>\<rparr>"

lemma map_filter_append: "List.map_filter f (xs @ ys) = List.map_filter f xs @ List.map_filter f ys"
  by (simp add: List.map_filter_def)

lemma deliver_inv:
  assumes "streaming_inv K L Q C net rtp p0 A R s" "list_all (fits_control rtp) cs"
  shows "streaming_inv K L Q C net rtp p0 A (R @ List.map_filter (control_packet Q rtp) cs) (deliver_control cs s)"
  using assms(1)
proof (rule streaming_invE)
  fix sd as cs' del os p rs
  assume h: "rx_ok fits (audio s)" "rx_ok (fits_control rtp) (control s)"
    "length (chan_items K (queue s)) \<le> 4" "length (chan_items L (gaps s)) \<le> 4"
    "sender_task s = Waiting sd" "\<not> is_shutdown sd"
    "A = as @ inbound (audio_packet rtp) (audio s)" "R = cs' @ inbound (control_packet Q rtp) (control s)"
    "del @ chan_items K (queue s) \<in> shuffles as cs'"
    "task_loop (player_body Q C) p0 (packet_events net del) = (os, Waiting p)" "player_task s = Waiting p"
    "gap_requests os = rs @ chan_items L (gaps s) @ as_list (unsent s)" "wire s = map (retransmit_request Q) rs"
  have "rx_ok (fits_control rtp) (control (deliver_control cs s))"
    using h(2) assms(2) by (simp add: rx_ok_def deliver_control_def)
  then show ?thesis
    by (intro streaming_invI[where sd = sd and as = as and cs = cs' and del = del and os = os and p = p and rs = rs])
      (use h in \<open>simp_all add: deliver_control_def inbound_def map_filter_append\<close>)
qed

context session_channels
begin

lemma run_from_start:
  assumes "rtp_reader rtp" "list_all fits ds" "list_all (fits_control rtp) cs"
    and "A = List.map_filter (audio_packet rtp) ds" "R = List.map_filter (control_packet Q rtp) cs"
    and "survives Q C net p (set A \<union> set R)"
    and "run_turns K L Q C net rtp ts (streaming_start K L p ds cs) = Some s"
  shows "streaming_inv K L Q C net rtp p A R s"
  using run_inv[OF assms(1,6) _ assms(7)] streaming_inv_start[OF assms(2,3)] assms(4,5) by blast

end

lemma set_window:
  "set (zip (map (seq_plus Q s) [0..<length ps]) ps) = (\<lambda>k. (seq_plus Q s k, ps ! k)) ` {..<length ps}"
proof -
  have "zip (map (seq_plus Q s) [0..<length ps]) ps = map (\<lambda>k. (seq_plus Q s k, ps ! k)) [0..<length ps]"
    by (rule nth_equalityI) simp_all
  then show ?thesis by (simp add: atLeast0LessThan)
qed

context session_channels
begin

lemma window_completed:
  assumes "seq_api Q" "rtp_reader rtp" "records C D pcm (set packets) r p" "buffers p ! r = frame_buffer_new s"
    and "streaming_inv K L Q C net rtp p A R st" "stuck K L Q C net rtp st"
    and "set A \<union> set R = set (zip (map (seq_plus Q s) [0..<length packets]) packets)"
    and "length packets \<le> 32768" "current src = None"
  shows "\<exists>p'. player_task st = Waiting p' \<and> sink p' = sink p \<and> source_play (pop_front Q) 0 n src (buffers p' ! r) =
       map Some (take n (concat (map (voiced 0 \<circ> pcm16 pcm) packets) @ replicate n 0))"
proof -
  obtain del os where del: "del \<in> shuffles A R"
    and run: "task_loop (player_body Q C) p (packet_events net del) = (os, player_task st)"
    using drained_result[OF assms(5) stuck_drained[OF assms(2,5,6)]] by blast
  have set_del: "set del = set (zip (map (seq_plus Q s) [0..<length packets]) packets)"
    using set_shuffles[OF del] assms(7) by simp
  then have "snd ` set del \<subseteq> set packets" by (auto dest: set_zip_rightD)
  from records_stores[OF assms(3) this run] obtain p' where p': "player_task st = Waiting p'" "sink p' = sink p"
    "buffers p' ! r = add_packets Q (buffers p ! r) (map (\<lambda>(s, pk). (s, pcm16 pcm pk)) del)" by blast
  then show ?thesis
    using decoded_window_plays[OF assms(1) set_del assms(8,9), of 0 n pcm] assms(4) by simp
qed

end

section \<open>Properties\<close>

text \<open>C2. Lost datagrams are recovered, under these conditions: the packets \<open>0\<close> to \<open>n - 1\<close> of a recording (at most half
  the number space) are sent and any of them but the first and the last are lost; those that are not lost
  arrive in order; and the answers of the peer arrive only when the tasks have come to rest on them. Then, whatever the
  schedule of the tasks, the requests on the wire name exactly the lost numbers, each once and in order; and when
  the answers carry the lost packets, in any order and any number of times, the source plays the complete
  stream once the tasks rest again.\<close>

theorem lost_packets_recovered:
  assumes "seq_api Q" and "session_channels K L" and "rtp_reader rtp"
    and "records C D pcm (set packets) r p" and "buffers p ! r = frame_buffer_new s"
    and "packets \<noteq> []" and "length packets \<le> 32768"
    and "sorted_wrt (<) (0 # is)" and "last (0 # is) = length packets - 1"
    and "list_all fits ds"
    and "List.map_filter (audio_packet rtp) ds = map (\<lambda>k. (seq_plus Q s k, packets ! k)) (0 # is)"
    and "run_turns K L Q C net rtp ts (streaming_start K L p ds []) = Some s1" and "stuck K L Q C net rtp s1"
    and "list_all (fits_control rtp) cs"
    and "set (List.map_filter (control_packet Q rtp) cs) =
      (\<lambda>k. (seq_plus Q s k, packets ! k)) ` {k. k < length packets \<and> k \<notin> set (0 # is)}"
    and "run_turns K L Q C net rtp ts2 (deliver_control cs s1) = Some s2" and "stuck K L Q C net rtp s2"
    and "current src = None"
  shows "(\<exists>reqs. wire s1 = map (retransmit_request Q) reqs \<and>
        requested Q reqs = map (seq_plus Q s) (filter (\<lambda>k. k \<notin> set (0 # is)) [0..<length packets])) \<and>
     (\<exists>p2. player_task s2 = Waiting p2 \<and> source_play (pop_front Q) 0 n src (buffers p2 ! r) =
        map Some (take n (concat (map (voiced 0 \<circ> pcm16 pcm) packets) @ replicate n 0)))"
proof
  let ?A = "List.map_filter (audio_packet rtp) ds" and ?R = "List.map_filter (control_packet Q rtp) cs"
  let ?win = "set (zip (map (seq_plus Q s) [0..<length packets]) packets)"
  have "0 < length packets" using assms(6) by simp
  then have "k < length packets" if "k \<in> set (0 # is)" for k
    using sorted_wrt_last[OF assms(8) that] unfolding assms(9) by linarith
  then have below: "\<forall>k \<in> set (0 # is). k < length packets" by blast
  have win: "set ?A \<union> set ?R = ?win"
  proof -
    have "{k. k < length packets \<and> k \<notin> set (0 # is)} \<union> set (0 # is) = {..<length packets}" using below by blast
    then show ?thesis
      unfolding assms(11,15) set_window set_map by (simp only: image_Un[symmetric] Un_commute)
  qed
  have "snd ` ?win \<subseteq> set packets" by (auto dest: set_zip_rightD)
  then have surv: "survives Q C net p (set ?A \<union> set ?R)" "survives Q C net p (set ?A \<union> set [])"
    using records_survives[OF assms(4)] unfolding win[symmetric] by (blast, simp add: image_Un)
  have inv1: "streaming_inv K L Q C net rtp p ?A [] s1"
    by (rule session_channels.run_from_start[OF assms(2,3,10) _ refl _ surv(2) assms(12)]) simp_all
  obtain del os where "del \<in> shuffles ?A []" and run: "task_loop (player_body Q C) p (packet_events net del) = (os, player_task s1)"
    and wire: "wire s1 = map (retransmit_request Q) (gap_requests os)"
    using session_channels.drained_result[OF assms(2) inv1 session_channels.stuck_drained[OF assms(2,3) inv1 assms(13)]]
    by blast
  have del: "del = map (\<lambda>k. (seq_plus Q s k, packets ! k)) (0 # is)"
    using \<open>del \<in> shuffles ?A []\<close> assms(11) by simp
  have last: "last (0 # is) \<le> 32768" and packets: "\<forall>k \<in> set (0 # is). packets ! k \<in> set packets"
    using assms(7) below unfolding assms(9) by auto
  obtain os' p' where "task_loop (player_body Q C) p (packet_events net del) = (os', Waiting p')"
    "requested Q (gap_requests os') = map (seq_plus Q s) (filter (\<lambda>k. k \<notin> set (0 # is)) [0..<last (0 # is)])"
    using stream_requests[OF assms(1,4,5,8) last packets, of net] unfolding del by blast
  then have "requested Q (gap_requests os) = map (seq_plus Q s) (filter (\<lambda>k. k \<notin> set (0 # is)) [0..<last (0 # is)])"
    using run by simp
  moreover have "filter (\<lambda>k. k \<notin> set (0 # is)) [0..<length packets] = filter (\<lambda>k. k \<notin> set (0 # is)) [0..<last (0 # is)]"
  proof -
    have "[0..<length packets] = [0..<last (0 # is)] @ [last (0 # is)]" using assms(6,9) by (cases packets) simp_all
    moreover have "last (0 # is) \<in> set (0 # is)" by (rule last_in_set) simp
    ultimately show ?thesis by (simp only: filter_append filter.simps simp_thms if_False append_Nil2)
  qed
  ultimately show "\<exists>reqs. wire s1 = map (retransmit_request Q) reqs \<and>
        requested Q reqs = map (seq_plus Q s) (filter (\<lambda>k. k \<notin> set (0 # is)) [0..<length packets])"
    using wire by metis
  have "streaming_inv K L Q C net rtp p ?A ?R (deliver_control cs s1)"
    using deliver_inv[OF inv1 assms(14)] by simp
  from session_channels.run_inv[OF assms(2,3) surv(1) this assms(16)]
  have "streaming_inv K L Q C net rtp p ?A ?R s2" by blast
  from session_channels.window_completed[OF assms(2,1,3,4,5) this assms(17) win _ assms(18)] assms(7)
  show "\<exists>p2. player_task s2 = Waiting p2 \<and> source_play (pop_front Q) 0 n src (buffers p2 ! r) =
        map Some (take n (concat (map (voiced 0 \<circ> pcm16 pcm) packets) @ replicate n 0))"
    by fastforce
qed

lemma demo_records: "records byte_codec (\<lambda>_. True) demo_pcm (set [[5], [7, 8], [6]]) 0 demo_player"
  by (simp add: records_def demo_player_def player_new_def demo_decoded)

theorem lost_packets_recovered_witness:
  "\<exists>ts s1 reqs ts2 s2 p2.
     run_turns (list_channel 4) (list_channel 4) word_seq byte_codec up rtp_decode ts
       (streaming_start (list_channel 4) (list_channel 4) demo_player demo_audio []) = Some (s1 :: demo_streaming) \<and>
     wire s1 = map (retransmit_request word_seq) reqs \<and> requested word_seq reqs = [8] \<and>
     run_turns (list_channel 4) (list_channel 4) word_seq byte_codec up rtp_decode ts2
       (deliver_control demo_answers s1) = Some s2 \<and> player_task s2 = Waiting p2 \<and>
     source_play (pop_front word_seq) 0 3 \<lparr>channels = 2, sample_rate = 44100, current = None\<rparr> (buffers p2 ! 0) =
       map Some [5, 254, 254]"
proof -
  let ?K = "list_channel 4" and ?L = "list_channel 4"
  let ?src = "\<lparr>channels = 2, sample_rate = 44100, current = None\<rparr>"
  let ?ps = "[[5], [7, 8], [6]] :: bytes list"
  let ?A = "List.map_filter (audio_packet rtp_decode) demo_audio"
  have surv: "survives word_seq byte_codec up demo_player (set ?A \<union> set [])"
    "survives word_seq byte_codec up demo_player (set ?A \<union> set ([] @ List.map_filter (control_packet word_seq rtp_decode) demo_answers))"
    by (rule demo_survives, simp add: demo_packets)+
  have inv: "streaming_inv ?K ?L word_seq byte_codec up rtp_decode demo_player ?A []
      (streaming_start ?K ?L demo_player demo_audio [])"
    using list_session.streaming_inv_start[OF demo_packets(3), of rtp_decode "[]" word_seq byte_codec up demo_player]
    by (simp add: map_filter_simps)
  obtain ts and s1 :: demo_streaming where run1: "run_turns ?K ?L word_seq byte_codec up rtp_decode ts
      (streaming_start ?K ?L demo_player demo_audio []) = Some s1" "stuck ?K ?L word_seq byte_codec up rtp_decode s1"
    using list_session.schedule_completes[OF rtp_decode.rtp_reader_axioms surv(1) inv] by blast
  have inv1: "streaming_inv ?K ?L word_seq byte_codec up rtp_decode demo_player ?A [] s1"
    using list_session.run_inv[OF rtp_decode.rtp_reader_axioms surv(1) inv run1(1)] by blast
  obtain ts2 s2 where run2: "run_turns ?K ?L word_seq byte_codec up rtp_decode ts2 (deliver_control demo_answers s1) = Some s2"
    "stuck ?K ?L word_seq byte_codec up rtp_decode s2"
    using list_session.schedule_completes[OF rtp_decode.rtp_reader_axioms surv(2) deliver_inv[OF inv1 demo_packets(4)]]
    by blast
  have lost: "{k. k < length ?ps \<and> k \<notin> set (0 # [2])} = {1}" by auto
  have answers: "set (List.map_filter (control_packet word_seq rtp_decode) demo_answers) =
      (\<lambda>k. (seq_plus word_seq 7 k, ?ps ! k)) ` {k. k < length ?ps \<and> k \<notin> set (0 # [2])}"
    unfolding lost by (simp add: demo_packets codec_simps)
  have samples: "take 3 (concat (map (voiced 0 \<circ> pcm16 demo_pcm) ?ps) @ replicate 3 0) = [5, 254, 254]" by code_simp
  have "(\<exists>reqs. wire s1 = map (retransmit_request word_seq) reqs \<and>
        requested word_seq reqs = map (seq_plus word_seq 7) (filter (\<lambda>k. k \<notin> set (0 # [2])) [0..<length ?ps])) \<and>
     (\<exists>p2. player_task s2 = Waiting p2 \<and> source_play (pop_front word_seq) 0 3 ?src (buffers p2 ! 0) =
        map Some (take 3 (concat (map (voiced 0 \<circ> pcm16 demo_pcm) ?ps) @ replicate 3 0)))"
    by (rule lost_packets_recovered[OF word_seq.seq_api_axioms list_session.session_channels_axioms
          rtp_decode.rtp_reader_axioms demo_records _ _ _ _ _ demo_packets(3) _ run1 demo_packets(4) answers run2])
      (simp_all add: demo_packets demo_player_def codec_simps)
  moreover have "map (seq_plus word_seq 7) (filter (\<lambda>k. k \<notin> set (0 # [2])) [0..<length ?ps]) = [8]"
    by (simp add: upt_rec codec_simps)
  ultimately show ?thesis using run1(1) run2(1) unfolding samples by metis
qed

end
