(* ===== verification/Jitter.thy ===== *)
theory Jitter
  imports Frame_Buffer
begin

text \<open>
  What the frame buffer promises, as an abstract jitter buffer over unbounded packet indices, and the refinement:
  as long as every packet lies less than half the number space ahead of the playback position, and every FLUSH
  less than one cycle, the wrap-around of the 16-bit sequence numbers is invisible. It follows that a stream of
  any length is played in order. Beyond that window the tree behind the buffer loses packets.
\<close>

section \<open>The abstract buffer\<close>

text \<open>Packets are numbered from the start of the recording; \<open>base\<close> is the next one to play.\<close>

record 's jitter =
  base :: nat
  store :: "nat \<Rightarrow> 's list option"

definition jitter_new :: "'s jitter" where
  "jitter_new = \<lparr>base = 0, store = Map.empty\<rparr>"

datatype 's buffer_op = Arrive nat "'s list" | Take | Skip nat

text \<open>Only taking a packet has a result: the packet, or none yet.\<close>

fun jitter_step :: "'s buffer_op \<Rightarrow> 's jitter \<Rightarrow> 's list option list \<times> 's jitter" where
  "jitter_step (Arrive i p) j = ([], j\<lparr>store := (store j)(i \<mapsto> p)\<rparr>)"
| "jitter_step Take j =
     (case store j (base j) of
        None \<Rightarrow> ([None], j)
      | Some p \<Rightarrow> ([Some p], j\<lparr>base := Suc (base j), store := (store j)(base j := None)\<rparr>))"
| "jitter_step (Skip n) j = ([], j\<lparr>base := n, store := (\<lambda>i. if i < n then None else store j i)\<rparr>)"

text \<open>The operations that stay within the window of the buffer: packets within half the number space, in which the
  order of the sequence numbers is total, and flushes within one cycle of it.\<close>

fun in_window :: "'s buffer_op \<Rightarrow> 's jitter \<Rightarrow> bool" where
  "in_window (Arrive i p) j \<longleftrightarrow> base j \<le> i \<and> i < base j + 2 ^ 15"
| "in_window Take j \<longleftrightarrow> True"
| "in_window (Skip n) j \<longleftrightarrow> base j \<le> n \<and> n < base j + 65536"

fun jitter_run :: "'s buffer_op list \<Rightarrow> 's jitter \<Rightarrow> 's list option list \<times> 's jitter" where
  "jitter_run [] j = ([], j)"
| "jitter_run (op # ops) j =
     (let (out, j1) = jitter_step op j; (outs, j2) = jitter_run ops j1 in (out @ outs, j2))"

fun all_in_window :: "'s buffer_op list \<Rightarrow> 's jitter \<Rightarrow> bool" where
  "all_in_window [] j \<longleftrightarrow> True"
| "all_in_window (op # ops) j \<longleftrightarrow> in_window op j \<and> all_in_window ops (snd (jitter_step op j))"

section \<open>The same operations on the frame buffer\<close>

definition buffer_step ::
  "'q seq_ops \<Rightarrow> 'q \<Rightarrow> 's buffer_op \<Rightarrow> ('q, 's) frame_buffer \<Rightarrow>
   ('s list option list \<times> ('q, 's) frame_buffer) option" where
  "buffer_step Q s0 op fb =
     (case op of
        Arrive i p \<Rightarrow> Some ([], fst (add_packet Q fb (seq_plus Q s0 i) p))
      | Take \<Rightarrow> (let (data, fb') = pop_front Q fb in Some ([data], fb'))
      | Skip n \<Rightarrow> map_option (Pair []) (flush_fb Q fb (seq_plus Q s0 n)))"

fun buffer_run ::
  "'q seq_ops \<Rightarrow> 'q \<Rightarrow> 's buffer_op list \<Rightarrow> ('q, 's) frame_buffer \<Rightarrow>
   ('s list option list \<times> ('q, 's) frame_buffer) option" where
  "buffer_run Q s0 [] fb = Some ([], fb)"
| "buffer_run Q s0 (op # ops) fb =
     Option.bind (buffer_step Q s0 op fb) (\<lambda>(out, fb1).
       map_option (apfst ((@) out)) (buffer_run Q s0 ops fb1))"

section \<open>Refinement\<close>

definition refines ::
  "'q seq_ops \<Rightarrow> 'q \<Rightarrow> ('q, 's) frame_buffer \<Rightarrow> 's jitter \<Rightarrow> bool" where
  "refines Q s0 fb j \<longleftrightarrow>
     read_marker fb = seq_plus Q s0 (base j) \<and> well_ordered Q fb \<and>
     (\<forall>i. store j i \<noteq> None \<longrightarrow> base j \<le> i \<and> i < base j + 2 ^ 15) \<and>
     (\<forall>i. base j \<le> i \<and> i < base j + 65536 \<longrightarrow> stored fb (seq_plus Q s0 i) = store j i)"

context seq_api
begin

lemma plus_cycle: "seq_plus Q s (n + 65536) = seq_plus Q s n"
  using to_inj[of "seq_plus Q s (n + 65536)" "seq_plus Q s n"] by (simp add: to_plus)

lemma plus_window_inj:
  assumes "b \<le> i" "i < b + 65536" "b \<le> k" "k < b + 65536"
  shows "seq_plus Q s i = seq_plus Q s k \<longleftrightarrow> i = k"
  using plus_eq_iff[of "i - b" "k - b" "seq_plus Q s b"] assms by (auto simp: plus_add)

lemma refines_new: "refines Q s0 (frame_buffer_new s0) jitter_new"
  by (simp add: refines_def jitter_new_def)

lemma refines_arrive:
  assumes "refines Q s0 fb j" "in_window (Arrive i p) j"
  shows "refines Q s0 (fst (add_packet Q fb (seq_plus Q s0 i) p)) (snd (jitter_step (Arrive i p) j))"
proof -
  have "seq_plus Q s0 i = seq_plus Q (read_marker fb) (i - base j)"
    using assms by (simp add: refines_def plus_add)
  then have "seq_dist Q (read_marker fb) (seq_plus Q s0 i) < 2 ^ 15"
    using assms dist_plus[of "i - base j" "read_marker fb"] by auto
  moreover have "well_ordered Q fb" using assms(1) by (simp add: refines_def)
  ultimately show ?thesis
    using assms plus_window_inj[of "base j"] add_packet_ordered[of fb "seq_plus Q s0 i" p] by (auto simp: refines_def)
qed

lemma refines_take:
  assumes "refines Q s0 fb j"
  shows "\<exists>fb'. pop_front Q fb = (hd (fst (jitter_step Take j)), fb') \<and> refines Q s0 fb' (snd (jitter_step Take j))"
proof (cases "store j (base j)")
  case None
  then have "stored fb (read_marker fb) = None" using assms by (simp add: refines_def)
  then show ?thesis using None assms by (simp add: pop_front_None)
next
  case (Some p)
  let ?rm = "seq_plus Q s0 (base j)"
  have rm: "read_marker fb = ?rm" "stored fb (read_marker fb) = Some p" and ord: "well_ordered Q fb"
    using assms Some by (simp_all add: refines_def)
  obtain fb' where fb': "pop_front Q fb = (Some p, fb')" "stored fb' = (stored fb)(?rm := None)"
    "read_marker fb' = seq_next Q ?rm" "well_ordered Q fb'"
    using pop_front_Some[OF ord rm(2)] unfolding rm(1) by blast
  have data: "stored fb' (seq_plus Q s0 i) = ((store j)(base j := None)) i"
    if "Suc (base j) \<le> i" "i < Suc (base j) + 65536" for i
  proof (cases "i = base j + 65536")
    case True
    then have "store j i = None" using assms by (fastforce simp: refines_def)
    then show ?thesis using True by (simp add: fb'(2) plus_cycle)
  next
    case False
    then have "seq_plus Q s0 i \<noteq> ?rm" using that plus_window_inj[of "base j" i "base j"] by simp
    then show ?thesis using that False assms by (simp add: fb'(2) refines_def)
  qed
  have bounds: "Suc (base j) \<le> i \<and> i < Suc (base j) + 2 ^ 15" if "store j i \<noteq> None" "i \<noteq> base j" for i
  proof -
    have "base j \<le> i \<and> i < base j + 2 ^ 15" using assms that(1) unfolding refines_def by blast
    then show ?thesis using that(2) by simp
  qed
  have "refines Q s0 fb' (j\<lparr>base := Suc (base j), store := (store j)(base j := None)\<rparr>)"
    using data bounds fb'(3,4) by (auto simp: refines_def plus_Suc')
  then show ?thesis using fb'(1) by (simp add: Some)
qed

lemma refines_skip:
  assumes "refines Q s0 fb j" "in_window (Skip n) j"
  shows "\<exists>fb'. flush_fb Q fb (seq_plus Q s0 n) = Some fb' \<and> refines Q s0 fb' (snd (jitter_step (Skip n) j))"
proof -
  let ?rm = "read_marker fb" and ?d = "n - base j"
  have rm: "?rm = seq_plus Q s0 (base j)" and ord: "well_ordered Q fb" and d: "base j \<le> n" "?d < 65536"
    using assms by (auto simp: refines_def)
  have n: "seq_plus Q s0 n = seq_plus Q ?rm ?d" using d rm by (simp add: plus_add)
  have key: "seq_plus Q s0 i = seq_plus Q ?rm (i - base j)" if "n \<le> i" for i
    using that d rm by (simp add: plus_add)
  have data: "(if seq_dist Q ?rm (seq_plus Q s0 i) < ?d then None else stored fb (seq_plus Q s0 i)) = store j i"
    if i: "n \<le> i" "i < n + 65536" for i
  proof (cases "i < base j + 65536")
    case True
    then have "seq_dist Q ?rm (seq_plus Q s0 i) = i - base j"
      using i d key[OF i(1)] dist_plus[of "i - base j" ?rm] by simp
    moreover have "\<not> i - base j < ?d" "base j \<le> i" using i d by linarith+
    ultimately show ?thesis using True assms by (simp add: refines_def)
  next
    case False
    then obtain m where m: "i - base j = m + 65536" using d i by (metis add.commute le_Suc_ex diff_le_mono
        le_add_diff_inverse linorder_not_less add_diff_cancel_left')
    have "seq_plus Q s0 i = seq_plus Q ?rm m"
      unfolding key[OF i(1)] m by (rule plus_cycle)
    moreover have "m < ?d" using i d m by linarith
    ultimately have "seq_dist Q ?rm (seq_plus Q s0 i) < ?d" using d dist_plus[of m ?rm] by simp
    moreover have "store j i = None" using False assms by (fastforce simp: refines_def)
    ultimately show ?thesis by simp
  qed
  have bounds: "n \<le> i \<Longrightarrow> store j i \<noteq> None \<Longrightarrow> i < n + 2 ^ 15" for i
    using assms(1) d(1) unfolding refines_def by (meson add_le_mono1 less_le_trans)
  have dist: "seq_dist Q ?rm (seq_plus Q s0 n) = ?d" using n d dist_plus by simp
  obtain rest where rest: "flush_fb Q fb (seq_plus Q s0 n) = Some (fb\<lparr>fb_data := rest, read_marker := seq_plus Q s0 n\<rparr>)"
    "map_of (entries rest) = (\<lambda>k. if seq_dist Q ?rm k < ?d then None else stored fb k)"
    "well_ordered Q (fb\<lparr>fb_data := rest, read_marker := seq_plus Q s0 n\<rparr>)"
    using flush_steps[of fb "seq_plus Q s0 n"] ord dist by auto
  have "refines Q s0 (fb\<lparr>fb_data := rest, read_marker := seq_plus Q s0 n\<rparr>) (snd (jitter_step (Skip n) j))"
    using data bounds rest(2,3) by (auto simp: refines_def stored_def contents_def linorder_not_less split: if_splits)
  then show ?thesis using rest(1) by blast
qed

text \<open>An empty buffer is only moved.\<close>

lemma flush_empty:
  "fb_data fb = btree_new \<Longrightarrow> flush_fb Q fb seq = Some (fb\<lparr>read_marker := seq\<rparr>)"
proof (induction "seq_dist Q (read_marker fb) seq" arbitrary: fb)
  case 0
  then show ?case by (simp add: flush_fb.simps)
next
  case (Suc n)
  let ?fb = "fb\<lparr>read_marker := seq_next Q (read_marker fb)\<rparr>"
  from Suc.hyps(2) have neq: "read_marker fb \<noteq> seq" by auto
  then have "n = seq_dist Q (read_marker ?fb) seq" using Suc.hyps(2) by (simp add: dist_next)
  then have "flush_fb Q ?fb seq = Some (?fb\<lparr>read_marker := seq\<rparr>)" using Suc.prems by (intro Suc.hyps(1)) simp_all
  moreover have "fb\<lparr>fb_data := snd (btree_remove (seq_lt Q) (read_marker fb) (fb_data fb)),
      read_marker := seq_next Q (read_marker fb)\<rparr> = ?fb"
    using Suc.prems by (cases fb) (simp add: btree_new_def btree_remove_def delete_in.simps)
  ultimately show ?case using neq by (subst flush_fb.simps) simp
qed

lemma refines_step:
  assumes "refines Q s0 fb j" "in_window op j"
  shows "\<exists>fb'. buffer_step Q s0 op fb = Some (fst (jitter_step op j), fb') \<and> refines Q s0 fb' (snd (jitter_step op j))"
proof (cases op)
  case (Arrive i p)
  then show ?thesis using refines_arrive[OF assms(1)] assms(2) by (simp add: buffer_step_def)
next
  case Take
  moreover have "fst (jitter_step Take j) = [hd (fst (jitter_step Take j))]"
    by (simp split: option.splits)
  ultimately show ?thesis using refines_take[OF assms(1)] by (auto simp: buffer_step_def)
next
  case (Skip n)
  then show ?thesis using refines_skip[OF assms(1)] assms(2) by (auto simp: buffer_step_def)
qed

lemma refines_run:
  "refines Q s0 fb j \<Longrightarrow> all_in_window ops j \<Longrightarrow>
   \<exists>fb'. buffer_run Q s0 ops fb = Some (fst (jitter_run ops j), fb') \<and> refines Q s0 fb' (snd (jitter_run ops j))"
proof (induction ops arbitrary: fb j)
  case Nil
  then show ?case by simp
next
  case (Cons op ops)
  obtain fb1 where "buffer_step Q s0 op fb = Some (fst (jitter_step op j), fb1)"
    "refines Q s0 fb1 (snd (jitter_step op j))"
    using refines_step[OF Cons.prems(1)] Cons.prems(2) by auto
  then show ?case
    using Cons.IH[of fb1 "snd (jitter_step op j)"] Cons.prems(2)
    by (auto simp: Let_def case_prod_unfold)
qed

end

section \<open>What the abstract buffer plays\<close>

text \<open>The packets taken, without the moments at which none was there.\<close>

definition played :: "'s list option list \<Rightarrow> 's list list" where
  "played outs = List.map_filter (\<lambda>x. x) outs"

lemma played_simps [simp]:
  "played [] = []" "played (None # outs) = played outs" "played (Some p # outs) = p # played outs"
  by (simp_all add: played_def map_filter_simps)

text \<open>All arrivals are packets of one stream \<open>pk\<close>, possibly duplicated and in any order.\<close>

definition of_stream :: "(nat \<Rightarrow> 's list) \<Rightarrow> 's buffer_op \<Rightarrow> bool" where
  "of_stream pk op = (case op of Arrive i p \<Rightarrow> p = pk i | _ \<Rightarrow> True)"

definition is_skip :: "'s buffer_op \<Rightarrow> bool" where
  "is_skip op = (case op of Skip n \<Rightarrow> True | _ \<Rightarrow> False)"

lemma jitter_plays:
  assumes "all_in_window ops j" "list_all (of_stream pk) ops"
    and "\<forall>i p. store j i = Some p \<longrightarrow> p = pk i"
  shows "\<exists>is. played (fst (jitter_run ops j)) = map pk is \<and> sorted_wrt (<) is \<and>
     (\<forall>i \<in> set is. base j \<le> i \<and> i < base (snd (jitter_run ops j))) \<and>
     base j \<le> base (snd (jitter_run ops j)) \<and>
     (list_all (\<lambda>op. \<not> is_skip op) ops \<longrightarrow> is = [base j..<base (snd (jitter_run ops j))])"
  using assms
proof (induction ops arbitrary: j)
  case Nil
  then show ?case by (intro exI[of _ "[]"]) simp
next
  case (Cons op ops)
  let ?j1 = "snd (jitter_step op j)"
  have "\<forall>i p. store ?j1 i = Some p \<longrightarrow> p = pk i"
    using Cons.prems(2,3) by (cases op) (auto simp: of_stream_def split: option.splits if_splits)
  then obtain "is" where IH: "played (fst (jitter_run ops ?j1)) = map pk is" "sorted_wrt (<) is"
    "\<forall>i \<in> set is. base ?j1 \<le> i \<and> i < base (snd (jitter_run ops ?j1))"
    "base ?j1 \<le> base (snd (jitter_run ops ?j1))"
    "list_all (\<lambda>op. \<not> is_skip op) ops \<longrightarrow> is = [base ?j1..<base (snd (jitter_run ops ?j1))]"
    using Cons.IH[of ?j1] Cons.prems by auto
  have run: "fst (jitter_run (op # ops) j) = fst (jitter_step op j) @ fst (jitter_run ops ?j1)"
    "snd (jitter_run (op # ops) j) = snd (jitter_run ops ?j1)"
    by (simp_all add: case_prod_unfold Let_def)
  show ?case
  proof (cases "\<exists>p. op = Take \<and> store j (base j) = Some p")
    case True
    then obtain p where p: "op = Take" "store j (base j) = Some p" by blast
    then have "p = pk (base j)" using Cons.prems(3) by blast
    with p have j1: "base ?j1 = Suc (base j)" "fst (jitter_step op j) = [Some (pk (base j))]" by simp_all
    then have "played (fst (jitter_run (op # ops) j)) = map pk (base j # is)"
      using IH(1) unfolding run by simp
    moreover have "\<forall>i \<in> set is. base j < i" using IH(3) j1(1) by (simp add: Suc_le_eq)
    moreover have "base j < base (snd (jitter_run ops ?j1))" using IH(4) j1(1) by simp
    moreover have "list_all (\<lambda>op. \<not> is_skip op) (op # ops) \<longrightarrow>
        base j # is = [base j..<base (snd (jitter_run ops ?j1))]"
      using IH(4,5) j1(1) by (simp add: upt_conv_Cons)
    ultimately show ?thesis
      using IH(2,3) unfolding run(2) by (intro exI[of _ "base j # is"]) (simp add: less_imp_le)
  next
    case False
    then have "played (fst (jitter_step op j) @ outs) = played outs" for outs
      by (cases op) (auto split: option.splits)
    then have "played (fst (jitter_run (op # ops) j)) = map pk is" using IH(1) unfolding run by simp
    moreover have le: "base j \<le> base ?j1"
      using Cons.prems(1) by (cases op) (auto split: option.splits)
    moreover have "\<forall>i \<in> set is. base j \<le> i \<and> i < base (snd (jitter_run ops ?j1))"
      using IH(3) le by (auto intro: order_trans)
    moreover have "base ?j1 = base j" if "\<not> is_skip op"
      using that False by (cases op) (auto simp: is_skip_def split: option.splits)
    ultimately show ?thesis
      using IH(2,4,5) unfolding run(2) by (intro exI[of _ "is"]) simp
  qed
qed

section \<open>Properties\<close>

text \<open>C7. The frame buffer refines the abstract jitter buffer: for every sequence of arrivals, takes and
  flushes in which packets arrive less than half the number space ahead of the playback position, and flushes go forward by
  less than one cycle, the operations of the frame buffer all return, hand out the same packets as the abstract buffer, and end in a state
  that represents its state, however often the 16-bit numbers wrapped around on the way.\<close>

theorem frame_buffer_refines_jitter:
  assumes "seq_api Q" and "all_in_window ops jitter_new"
  shows "\<exists>fb. buffer_run Q s0 ops (frame_buffer_new s0) = Some (fst (jitter_run ops jitter_new), fb) \<and>
     refines Q s0 fb (snd (jitter_run ops jitter_new))"
  using seq_api.refines_run[OF assms(1) seq_api.refines_new[OF assms(1)] assms(2)] .

theorem frame_buffer_refines_jitter_witness:
  "\<exists>fb. buffer_run word_seq 65534 [Arrive 1 ''b'', Take, Arrive 0 ''a'', Take, Take, Skip 5, Take, Arrive 5 ''f'', Take]
     (frame_buffer_new 65534) = Some ([None, Some ''a'', Some ''b'', None, Some ''f''], fb) \<and> read_marker fb = 4"
proof -
  have "\<exists>fb. buffer_run word_seq 65534 ops (frame_buffer_new 65534) = Some (fst (jitter_run ops jitter_new), fb) \<and>
     refines word_seq 65534 fb (snd (jitter_run ops jitter_new))"
    if "ops = [Arrive 1 ''b'', Take, Arrive 0 ''a'', Take, Take, Skip 5, Take, Arrive 5 ''f'', Take]" for ops
    by (rule frame_buffer_refines_jitter) (simp_all add: word_seq.seq_api_axioms that jitter_new_def)
  then show ?thesis by (auto simp: jitter_new_def refines_def codec_simps)
qed

text \<open>C20. A stream of any length is played in order: when the packets of one stream arrive less than half the
  number space ahead of the playback position, in any order and any number of times each, between takes and flushes, then every packet the
  buffer hands out is the right one, the packets come in strictly ascending order without repetition,
  and without a FLUSH none is left out.\<close>

theorem long_stream_in_order:
  assumes "seq_api Q" and "all_in_window ops jitter_new" and "list_all (of_stream pk) ops"
  shows "\<exists>fb outs is. buffer_run Q s0 ops (frame_buffer_new s0) = Some (outs, fb) \<and>
     played outs = map pk is \<and> sorted_wrt (<) is \<and>
     (list_all (\<lambda>op. \<not> is_skip op) ops \<longrightarrow> is = [0..<length is])"
proof -
  obtain fb where fb: "buffer_run Q s0 ops (frame_buffer_new s0) = Some (fst (jitter_run ops jitter_new), fb)"
    using seq_api.refines_run[OF assms(1) seq_api.refines_new[OF assms(1)] assms(2)] by blast
  obtain "is" where "played (fst (jitter_run ops jitter_new)) = map pk is" "sorted_wrt (<) is"
    "list_all (\<lambda>op. \<not> is_skip op) ops \<longrightarrow> is = [0..<base (snd (jitter_run ops jitter_new))]"
    using jitter_plays[OF assms(2,3)] by (auto simp: jitter_new_def)
  moreover from this(3) have "list_all (\<lambda>op. \<not> is_skip op) ops \<longrightarrow> is = [0..<length is]" by auto
  ultimately show ?thesis using fb by blast
qed

theorem long_stream_in_order_witness:
  "\<exists>fb outs is. buffer_run word_seq 65535 [Arrive 1 [1], Arrive 0 [0], Take, Arrive 1 [1], Take, Take :: nat buffer_op]
     (frame_buffer_new 65535) = Some (outs, fb) \<and> played outs = map (\<lambda>i. [i]) is \<and> is = [0..<length is]"
proof -
  let ?ops = "[Arrive 1 [1], Arrive 0 [0], Take, Arrive 1 [1], Take, Take :: nat buffer_op]"
  have "\<exists>fb outs is. buffer_run word_seq 65535 ?ops (frame_buffer_new 65535) = Some (outs, fb) \<and>
     played outs = map (\<lambda>i. [i]) is \<and> sorted_wrt (<) is \<and>
     (list_all (\<lambda>op. \<not> is_skip op) ?ops \<longrightarrow> is = [0..<length is])"
    by (rule long_stream_in_order)
      (simp_all add: word_seq.seq_api_axioms jitter_new_def of_stream_def)
  moreover have "list_all (\<lambda>op. \<not> is_skip op) ?ops" by (simp add: is_skip_def)
  ultimately show ?thesis by blast
qed



end
