(* ===== verification/Playback.thy ===== *)
theory Playback
  imports Recovery Jitter
begin

text \<open>
  The audio thread beside the tasks of a session: while the receivers, the player and the control sender run
  (src/src/player/mod.rs, server_receiver.rs, control_receiver.rs, control_sender.rs), rodio asks the source of the
  recording for one sample after another (\<open>FrameBufferSource::next\<close> in frame_buffer.rs). Both sides
  share the frame buffer behind a mutex. The player keeps the guard of the mutex while it waits for room in the
  channel to the control sender, so a source that needs the buffer waits meanwhile.
\<close>

section \<open>The audio thread\<close>

record ('q, 'k, 'd, 'f, 'c, 'e) playback =
  tasks :: "('q, 'k, 'd, 'f, 'c, 'e) streaming"
  ear :: "i16 source"
  heard :: "i16 option list"

text \<open>The player holds the mutex of buffer \<open>r\<close>: it waits in \<open>send().await\<close> below \<open>lock()\<close>.\<close>

definition lock_held :: "nat \<Rightarrow> ('q, 'k, 'd, 'f) player \<Rightarrow> ('q \<times> 'q) option \<Rightarrow> bool" where
  "lock_held r p uns \<longleftrightarrow> uns \<noteq> None \<and> frame_buf p = Some r"

text \<open>A source takes the mutex only when its current packet has no sample left.\<close>

definition needs_buffer :: "'s source \<Rightarrow> bool" where
  "needs_buffer src \<longleftrightarrow> fst (take_sample (current src)) = None"

definition listen ::
  "'q seq_ops \<Rightarrow> nat \<Rightarrow> ('q, 'k, 'd, 'f, 'c, 'e) playback \<Rightarrow> ('q, 'k, 'd, 'f, 'c, 'e) playback option" where
  "listen Q r s =
     (case player_task (tasks s) of
        Finished _ \<Rightarrow> None
      | Waiting p \<Rightarrow>
          if needs_buffer (ear s) \<and> lock_held r p (unsent (tasks s)) then None
          else (case source_next (pop_front Q) 0 (ear s) (buffers p ! r) of
                  (v, src, fb) \<Rightarrow>
                    Some (s\<lparr>tasks := (tasks s)\<lparr>player_task := Waiting (p\<lparr>buffers := (buffers p)[r := fb]\<rparr>)\<rparr>,
                            ear := src, heard := heard s @ [v]\<rparr>)))"

datatype play_turn = Task turn | Listen

fun play_step ::
  "('c, 'q \<times> bytes) chan_ops \<Rightarrow> ('e, 'q \<times> 'q) chan_ops \<Rightarrow> 'q seq_ops \<Rightarrow> ('k, 'd) codec_ops \<Rightarrow> setup_net \<Rightarrow>
   (bytes \<Rightarrow> 'q rtp_view option) \<Rightarrow> nat \<Rightarrow> play_turn \<Rightarrow> ('q, 'k, 'd, 'f, 'c, 'e) playback \<Rightarrow>
   ('q, 'k, 'd, 'f, 'c, 'e) playback option" where
  "play_step K L Q C net rtp r (Task t) s =
     map_option (\<lambda>st. s\<lparr>tasks := st\<rparr>) (take_turn K L Q C net rtp t (tasks s))"
| "play_step K L Q C net rtp r Listen s = listen Q r s"

fun play_run ::
  "('c, 'q \<times> bytes) chan_ops \<Rightarrow> ('e, 'q \<times> 'q) chan_ops \<Rightarrow> 'q seq_ops \<Rightarrow> ('k, 'd) codec_ops \<Rightarrow> setup_net \<Rightarrow>
   (bytes \<Rightarrow> 'q rtp_view option) \<Rightarrow> nat \<Rightarrow> play_turn list \<Rightarrow> ('q, 'k, 'd, 'f, 'c, 'e) playback \<Rightarrow>
   ('q, 'k, 'd, 'f, 'c, 'e) playback option" where
  "play_run K L Q C net rtp r [] s = Some s"
| "play_run K L Q C net rtp r (t # ts) s =
     Option.bind (play_step K L Q C net rtp r t s) (play_run K L Q C net rtp r ts)"

definition playback_start ::
  "('c, 'q \<times> bytes) chan_ops \<Rightarrow> ('e, 'q \<times> 'q) chan_ops \<Rightarrow> ('q, 'k, 'd, 'f) player \<Rightarrow> bytes list \<Rightarrow> bytes list \<Rightarrow>
   i16 source \<Rightarrow> ('q, 'k, 'd, 'f, 'c, 'e) playback" where
  "playback_start K L p ds cs src = \<lparr>tasks = streaming_start K L p ds cs, ear = src, heard = []\<rparr>"

section \<open>Packets with pauses\<close>

text \<open>What is heard of the packets \<open>ps\<close> when \<open>ns ! i\<close> samples of silence come before packet \<open>i\<close>.\<close>

definition paused :: "'s \<Rightarrow> nat list \<Rightarrow> 's list list \<Rightarrow> 's list" where
  "paused z ns ps = concat (map2 (\<lambda>n p. replicate n z @ voiced z p) ns ps)"

lemma paused_Nil [simp]: "paused z [] ps = []"
  by (simp add: paused_def)

lemma paused_snoc:
  "length ns < length ps \<Longrightarrow>
   paused z (ns @ [n]) ps = paused z ns ps @ replicate n z @ voiced z (ps ! length ns)"
proof (induction ns arbitrary: ps)
  case Nil
  then show ?case by (cases ps) (simp_all add: paused_def)
next
  case (Cons k ns)
  then show ?case by (cases ps) (simp_all add: paused_def)
qed

lemma paused_flush:
  "length ns \<le> length ps \<Longrightarrow>
   paused z (ns @ replicate (length ps - length ns) 0) ps = paused z ns ps @ concat (map (voiced z) (drop (length ns) ps))"
proof (induction ns arbitrary: ps)
  case Nil
  have "paused z (replicate (length ps) 0) ps = concat (map (voiced z) ps)"
    by (induction ps) (simp_all add: paused_def)
  then show ?case by simp
next
  case (Cons k ns)
  then show ?case by (cases ps) (simp_all add: paused_def)
qed

text \<open>What is left of the current packet.\<close>

definition rest_of :: "'s list option \<Rightarrow> 's list" where
  "rest_of cur = (case cur of None \<Rightarrow> [] | Some xs \<Rightarrow> xs)"

lemma rest_of_simps [simp]: "rest_of None = []" "rest_of (Some xs) = xs"
  by (simp_all add: rest_of_def)

lemma needs_buffer_iff: "needs_buffer src \<longleftrightarrow> rest_of (current src) = []"
  by (cases "current src") (auto simp: needs_buffer_def rest_of_def take_sample_def)

section \<open>The invariant\<close>

text \<open>The packets that have not reached the player yet.\<close>

definition awaiting ::
  "('c, 'q \<times> bytes) chan_ops \<Rightarrow> 'q seq_ops \<Rightarrow> (bytes \<Rightarrow> 'q rtp_view option) \<Rightarrow>
   ('q, 'k, 'd, 'f, 'c, 'e) streaming \<Rightarrow> ('q \<times> bytes) list" where
  "awaiting K Q rtp st =
     inbound (audio_packet rtp) (audio st) @ inbound (control_packet Q rtp) (control st) @ chan_items K (queue st)"

definition tasks_run :: "(bytes \<Rightarrow> 'q rtp_view option) \<Rightarrow> ('q, 'k, 'd, 'f, 'c, 'e) streaming \<Rightarrow> bool" where
  "tasks_run rtp st \<longleftrightarrow>
     rx_ok fits (audio st) \<and> rx_ok (fits_control rtp) (control st) \<and>
     (\<exists>sd. sender_task st = Waiting sd \<and> \<not> is_shutdown sd)"

text \<open>The packets with the indices \<open>del\<close> have reached the player; the first \<open>base j\<close> of them have been taken.\<close>

definition holds :: "'s list list \<Rightarrow> nat set \<Rightarrow> 's jitter \<Rightarrow> bool" where
  "holds ps del j \<longleftrightarrow>
     base j \<le> length ps \<and> {..<base j} \<subseteq> del \<and> del \<subseteq> {..<length ps} \<and>
     store j = (\<lambda>i. if base j \<le> i \<and> i \<in> del then Some (ps ! i) else None)"

text \<open>What was heard, and the rest of the current packet, are the first \<open>b\<close> packets with pauses before them, and
  the silence since.\<close>

definition hears :: "'s \<Rightarrow> 's list list \<Rightarrow> nat \<Rightarrow> 's source \<Rightarrow> 's list \<Rightarrow> bool" where
  "hears z ps b src hs \<longleftrightarrow>
     (\<exists>ns m. length ns = b \<and> hs @ rest_of (current src) = paused z ns ps @ replicate m z \<and>
        (m = 0 \<or> rest_of (current src) = []))"

definition window :: "'q seq_ops \<Rightarrow> 'q \<Rightarrow> bytes list \<Rightarrow> nat \<Rightarrow> 'q \<times> bytes" where
  "window Q s packets i = (seq_plus Q s i, packets ! i)"

definition playing ::
  "('c, 'q \<times> bytes) chan_ops \<Rightarrow> 'q seq_ops \<Rightarrow> ('k, 'd) codec_ops \<Rightarrow> (bytes \<Rightarrow> 'q rtp_view option) \<Rightarrow>
   ('d \<Rightarrow> bool) \<Rightarrow> (bytes \<Rightarrow> i32 list) \<Rightarrow> nat \<Rightarrow> 'q \<Rightarrow> bytes list \<Rightarrow> ('q, 'k, 'd, 'f, 'c, 'e) playback \<Rightarrow> bool" where
  "playing K Q C rtp D pcm r s packets S \<longleftrightarrow>
     tasks_run rtp (tasks S) \<and>
     (\<exists>p del j hs. player_task (tasks S) = Waiting p \<and> records C D pcm (set packets) r p \<and>
        distinct (awaiting K Q rtp (tasks S)) \<and>
        set (awaiting K Q rtp (tasks S)) = window Q s packets ` ({..<length packets} - del) \<and>
        refines Q s (buffers p ! r) j \<and> holds (map (pcm16 pcm) packets) del j \<and>
        heard S = map Some hs \<and> hears 0 (map (pcm16 pcm) packets) (base j) (ear S) hs)"

lemma playingI:
  assumes "tasks_run rtp (tasks S)" "player_task (tasks S) = Waiting p" "records C D pcm (set packets) r p"
    and "distinct (awaiting K Q rtp (tasks S))"
    and "set (awaiting K Q rtp (tasks S)) = window Q s packets ` ({..<length packets} - del)"
    and "refines Q s (buffers p ! r) j" "holds (map (pcm16 pcm) packets) del j"
    and "heard S = map Some hs" "hears 0 (map (pcm16 pcm) packets) (base j) (ear S) hs"
  shows "playing K Q C rtp D pcm r s packets S"
  using assms unfolding playing_def by blast

lemma playingE:
  assumes "playing K Q C rtp D pcm r s packets S"
  obtains p del j hs where "tasks_run rtp (tasks S)" "player_task (tasks S) = Waiting p"
    and "records C D pcm (set packets) r p" "distinct (awaiting K Q rtp (tasks S))"
    and "set (awaiting K Q rtp (tasks S)) = window Q s packets ` ({..<length packets} - del)"
    and "refines Q s (buffers p ! r) j" "holds (map (pcm16 pcm) packets) del j"
    and "heard S = map Some hs" "hears 0 (map (pcm16 pcm) packets) (base j) (ear S) hs"
  using assms unfolding playing_def by blast

lemma holds_arrive:
  assumes "holds ps del j" "i < length ps" "i \<notin> del" "length ps \<le> 32768"
  shows "in_window (Arrive i (ps ! i)) j \<and> holds ps (insert i del) (snd (jitter_step (Arrive i (ps ! i)) j))"
proof -
  have "\<not> i < base j" using assms(1,3) by (auto simp: holds_def)
  then show ?thesis using assms by (auto simp: holds_def fun_eq_iff)
qed

lemma hears_sample:
  assumes "hears z ps b src hs" "rest_of (current src) = x # xs"
  shows "hears z ps b (src\<lparr>current := Some xs\<rparr>) (hs @ [x])"
  using assms by (auto simp: hears_def)

lemma hears_silence:
  assumes "hears z ps b src hs" "rest_of (current src) = []"
  shows "hears z ps b (src\<lparr>current := None\<rparr>) (hs @ [z])"
proof -
  obtain ns m where "length ns = b" "hs = paused z ns ps @ replicate m z" using assms by (auto simp: hears_def)
  then have "length ns = b \<and> (hs @ [z]) @ rest_of None = paused z ns ps @ replicate (Suc m) z"
    by (simp add: replicate_append_same)
  then show ?thesis unfolding hears_def by (intro exI[of _ ns] exI[of _ "Suc m"]) simp
qed

lemma hears_packet:
  assumes "hears z ps b src hs" "rest_of (current src) = []" "b < length ps"
  shows "hears z ps (Suc b) (src\<lparr>current := if ps ! b = [] then None else Some (tl (ps ! b))\<rparr>)
     (hs @ [hd (voiced z (ps ! b))])"
proof -
  obtain ns m where ns: "length ns = b" "hs = paused z ns ps @ replicate m z" using assms by (auto simp: hears_def)
  let ?cur = "if ps ! b = [] then None else Some (tl (ps ! b))"
  have "(hs @ [hd (voiced z (ps ! b))]) @ rest_of ?cur = paused z (ns @ [m]) ps"
    using ns assms(3) by (simp add: paused_snoc voiced_def)
  then show ?thesis using ns unfolding hears_def by (intro exI[of _ "ns @ [m]"] exI[of _ 0]) simp
qed

context seq_api
begin

text \<open>One sample.\<close>

lemma source_hears:
  assumes fb: "refines Q s fb j" "holds ps del j" and src: "hears z ps (base j) src hs"
  shows "\<exists>v src' fb' j'. source_next (pop_front Q) z src fb = (Some v, src', fb') \<and>
     refines Q s fb' j' \<and> holds ps del j' \<and> hears z ps (base j') src' (hs @ [v])"
proof (cases "rest_of (current src)")
  case (Cons x xs)
  then have "source_next (pop_front Q) z src fb = (Some x, src\<lparr>current := Some xs\<rparr>, fb)"
    by (cases "current src") (simp_all add: source_next_def)
  then show ?thesis using fb hears_sample[OF src Cons] by blast
next
  case Nil
  then have none: "take_sample (current src) = (None, None)" by (cases "current src") simp_all
  obtain fb' where pop: "pop_front Q fb = (hd (fst (jitter_step Take j)), fb')"
    and fb': "refines Q s fb' (snd (jitter_step Take j))" using refines_take[OF fb(1)] by blast
  show ?thesis
  proof (cases "store j (base j)")
    case None
    then have "source_next (pop_front Q) z src fb = (Some z, src\<lparr>current := None\<rparr>, fb')"
      using pop none by (simp add: source_next_def)
    moreover have "refines Q s fb' j" using fb' None by simp
    ultimately show ?thesis using fb(2) hears_silence[OF src Nil] by blast
  next
    case (Some p)
    then have b: "base j \<in> del" "base j < length ps" "p = ps ! base j"
      using fb(2) by (auto simp: holds_def split: if_splits)
    let ?j = "snd (jitter_step Take j)"
    have "source_next (pop_front Q) z src fb =
        (Some (hd (voiced z p)), src\<lparr>current := if p = [] then None else Some (tl p)\<rparr>, fb')"
      using pop none Some by (cases p) (simp_all add: source_next_def voiced_def)
    moreover have "base ?j = Suc (base j)" "holds ps del ?j"
      using fb(2) Some b by (auto simp: holds_def fun_eq_iff less_Suc_eq)
    ultimately show ?thesis using fb' hears_packet[OF src Nil b(2)] unfolding b(3) by metis
  qed
qed

end

lemma window_inj:
  "seq_api Q \<Longrightarrow> length packets \<le> 32768 \<Longrightarrow> inj_on (window Q s packets) {..<length packets}"
  using seq_api.plus_window_inj[of Q 0 _ _ s] by (auto simp: inj_on_def window_def)

section \<open>The turns of the tasks\<close>

lemma listen_step:
  assumes "seq_api Q" "playing K Q C rtp D pcm r s packets S" "listen Q r S = Some S'"
  shows "playing K Q C rtp D pcm r s packets S' \<and> weight K L (tasks S') = weight K L (tasks S)"
  using assms(2)
proof (rule playingE)
  fix p del j hs
  assume h: "tasks_run rtp (tasks S)" "player_task (tasks S) = Waiting p" "records C D pcm (set packets) r p"
    "distinct (awaiting K Q rtp (tasks S))"
    "set (awaiting K Q rtp (tasks S)) = window Q s packets ` ({..<length packets} - del)"
    "refines Q s (buffers p ! r) j" "holds (map (pcm16 pcm) packets) del j"
    "heard S = map Some hs" "hears 0 (map (pcm16 pcm) packets) (base j) (ear S) hs"
  obtain v src fb j' where next_sample: "source_next (pop_front Q) 0 (ear S) (buffers p ! r) = (Some v, src, fb)"
    and j': "refines Q s fb j'" "holds (map (pcm16 pcm) packets) del j'"
      "hears 0 (map (pcm16 pcm) packets) (base j') src (hs @ [v])"
    using seq_api.source_hears[OF assms(1) h(6,7,9)] by blast
  let ?p = "p\<lparr>buffers := (buffers p)[r := fb]\<rparr>"
  have S': "S' = S\<lparr>tasks := (tasks S)\<lparr>player_task := Waiting ?p\<rparr>, ear := src, heard := heard S @ [Some v]\<rparr>"
    using assms(3) h(2) next_sample by (simp add: listen_def split: if_splits)
  have rec: "records C D pcm (set packets) r ?p" "buffers ?p ! r = fb" using h(3) by (auto simp: records_def)
  have "playing K Q C rtp D pcm r s packets S'"
    by (rule playingI[where p = ?p and del = del and j = j' and hs = "hs @ [v]"])
      (use h(1,4,5,8) rec j' in \<open>simp_all add: S' tasks_run_def awaiting_def\<close>)
  then show ?thesis by (simp add: S' weight_def)
qed

context session_channels
begin

text \<open>A receiver moves packets towards the player; the player and the rest of the session are as before.\<close>

lemma receiver_moves:
  assumes "receiver_turn K body True r c = Some (r', c')" "reads body D dec" "rx_ok D r"
  shows "mset (inbound dec r' @ chan_items K c') = mset (inbound dec r @ chan_items K c)"
  using receiver_turn_ok[OF assms] by auto

lemma moved_playing:
  assumes "playing K Q C rtp D pcm r s packets S" "tasks_run rtp st" "player_task st = player_task (tasks S)"
    and "mset (awaiting K Q rtp st) = mset (awaiting K Q rtp (tasks S))"
  shows "playing K Q C rtp D pcm r s packets (S\<lparr>tasks := st\<rparr>)"
  using assms(1)
proof (rule playingE)
  fix p del j hs
  assume h: "tasks_run rtp (tasks S)" "player_task (tasks S) = Waiting p" "records C D pcm (set packets) r p"
    "distinct (awaiting K Q rtp (tasks S))"
    "set (awaiting K Q rtp (tasks S)) = window Q s packets ` ({..<length packets} - del)"
    "refines Q s (buffers p ! r) j" "holds (map (pcm16 pcm) packets) del j"
    "heard S = map Some hs" "hears 0 (map (pcm16 pcm) packets) (base j) (ear S) hs"
  have "distinct (awaiting K Q rtp st)" using mset_eq_imp_distinct_iff[OF assms(4)] h(4) by blast
  then show ?thesis
    by (intro playingI[where p = p and del = del and j = j and hs = hs])
      (use h assms(2,3) mset_eq_setD[OF assms(4)] in simp_all)
qed

lemma audio_plays:
  assumes "playing K Q C rtp D pcm r s packets S"
    and "take_turn K L Q C net rtp AudioReceives (tasks S) = Some st"
  shows "playing K Q C rtp D pcm r s packets (S\<lparr>tasks := st\<rparr>) \<and> weight K L st < weight K L (tasks S)"
proof -
  obtain p where p: "player_task (tasks S) = Waiting p" and ok: "tasks_run rtp (tasks S)"
    using assms(1) by (auto simp: playing_def)
  obtain r' c' where turn: "receiver_turn K (server_receiver_body rtp) True (audio (tasks S)) (queue (tasks S)) = Some (r', c')"
    and st: "st = (tasks S)\<lparr>audio := r', queue := c'\<rparr>"
    using assms(2) p by (auto simp: running_def)
  have rx: "rx_ok fits (audio (tasks S))" using ok by (simp add: tasks_run_def)
  note step = receiver_turn_ok[OF turn audio_reads rx] receiver_moves[OF turn audio_reads rx]
  have "playing K Q C rtp D pcm r s packets (S\<lparr>tasks := st\<rparr>)"
    by (rule moved_playing[OF assms(1)]) (use ok step in \<open>simp_all add: st tasks_run_def awaiting_def\<close>)
  then show ?thesis using step by (simp add: weight_def st)
qed

lemma control_plays:
  assumes "rtp_reader rtp" "playing K Q C rtp D pcm r s packets S"
    and "take_turn K L Q C net rtp ControlReceives (tasks S) = Some st"
  shows "playing K Q C rtp D pcm r s packets (S\<lparr>tasks := st\<rparr>) \<and> weight K L st < weight K L (tasks S)"
proof -
  obtain p where p: "player_task (tasks S) = Waiting p" and ok: "tasks_run rtp (tasks S)"
    using assms(2) by (auto simp: playing_def)
  obtain r' c' where turn: "receiver_turn K (control_receiver_body Q rtp) True (control (tasks S)) (queue (tasks S)) = Some (r', c')"
    and st: "st = (tasks S)\<lparr>control := r', queue := c'\<rparr>"
    using assms(3) p by (auto simp: running_def)
  have rx: "rx_ok (fits_control rtp) (control (tasks S))" using ok by (simp add: tasks_run_def)
  note reads = rtp_reader.control_reads[OF assms(1), of Q]
  note step = receiver_turn_ok[OF turn reads rx] receiver_moves[OF turn reads rx]
  have "playing K Q C rtp D pcm r s packets (S\<lparr>tasks := st\<rparr>)"
    by (rule moved_playing[OF assms(2)]) (use ok step in \<open>simp_all add: st tasks_run_def awaiting_def\<close>)
  then show ?thesis using step by (simp add: weight_def st)
qed

lemma sender_plays:
  assumes "playing K Q C rtp D pcm r s packets S" "take_turn K L Q C net rtp SenderSends (tasks S) = Some st"
  shows "playing K Q C rtp D pcm r s packets (S\<lparr>tasks := st\<rparr>) \<and> weight K L st < weight K L (tasks S)"
proof -
  obtain sd where ok: "tasks_run rtp (tasks S)" and sd: "sender_task (tasks S) = Waiting sd" "\<not> is_shutdown sd"
    using assms(1) by (auto simp: playing_def tasks_run_def)
  obtain g gs where recv: "chan_recv L (gaps (tasks S)) = Some (g, gs)"
    using assms(2) sd by (auto simp: sender_turn_def split: option.splits)
  have st: "st = (tasks S)\<lparr>gaps := gs, sender_task := Waiting sd, wire := wire (tasks S) @ [retransmit_request Q g]\<rparr>"
    using assms(2) sd recv by (simp add: sender_turn_def control_sender_body_def to_peer_def)
  have "playing K Q C rtp D pcm r s packets (S\<lparr>tasks := st\<rparr>)"
    by (rule moved_playing[OF assms(1)]) (use ok sd in \<open>simp_all add: st tasks_run_def awaiting_def\<close>)
  then show ?thesis using ranges.recv_takes[OF recv] by (simp add: weight_def st)
qed

end

context session_channels
begin

lemma packet_plays:
  assumes "seq_api Q" "length packets \<le> 32768" "playing K Q C rtp D pcm r s packets S"
    and idle: "unsent (tasks S) = None"
    and turn: "take_turn K L Q C net rtp PlayerPlays (tasks S) = Some st"
  shows "playing K Q C rtp D pcm r s packets (S\<lparr>tasks := st\<rparr>) \<and> weight K L st < weight K L (tasks S)"
  using assms(3)
proof (rule playingE)
  fix p del j hs
  assume h: "tasks_run rtp (tasks S)" "player_task (tasks S) = Waiting p" "records C D pcm (set packets) r p"
    "distinct (awaiting K Q rtp (tasks S))"
    "set (awaiting K Q rtp (tasks S)) = window Q s packets ` ({..<length packets} - del)"
    "refines Q s (buffers p ! r) j" "holds (map (pcm16 pcm) packets) del j"
    "heard S = map Some hs" "hears 0 (map (pcm16 pcm) packets) (base j) (ear S) hs"
  obtain sq pk c where recv: "chan_recv K (queue (tasks S)) = Some ((sq, pk), c)"
    using turn h(2) idle by (auto simp: player_turn_def split: option.splits)
  have items: "chan_items K (queue (tasks S)) = (sq, pk) # chan_items K c" by (rule packets.recv_takes[OF recv])
  then have "(sq, pk) \<in> window Q s packets ` ({..<length packets} - del)" using h(5) by (auto simp: awaiting_def)
  then obtain i where i: "i < length packets" "i \<notin> del" and win: "(sq, pk) = window Q s packets i" by auto
  then have sq: "sq = seq_plus Q s i" and pk: "pk = packets ! i" by (simp_all add: window_def)
  let ?data = "pcm16 pcm pk" and ?fb = "fst (add_packet Q (buffers p ! r) sq (pcm16 pcm pk))"
  have "pk \<in> set packets" using i(1) pk by simp
  then obtain n d' os where step: "player_body Q C p (Request (PutPacket sq pk) net True) =
      Continue (p\<lparr>alac := Some d', buffers := (buffers p)[r := ?fb]\<rparr>) os" (is "_ = Continue ?p _")
    and rec: "records C D pcm (set packets) r (p\<lparr>alac := Some d', buffers := (buffers p)[r := ?fb]\<rparr>)"
    using packet_recorded[OF h(3), of pk Q sq net] by blast
  have st: "st = (tasks S)\<lparr>queue := c, player_task := Waiting ?p, unsent := to_sender os\<rparr>"
    using turn h(2) idle recv step by (simp add: player_turn_def)
  have arrive: "in_window (Arrive i ?data) j"
    "holds (map (pcm16 pcm) packets) (insert i del) (snd (jitter_step (Arrive i ?data) j))"
    using holds_arrive[OF h(7), of i] i assms(2) pk by simp_all
  have fb: "refines Q s (buffers ?p ! r) (snd (jitter_step (Arrive i ?data) j))"
    using seq_api.refines_arrive[OF assms(1) h(6) arrive(1)] h(3) sq by (simp add: records_def)
  have dist: "distinct (awaiting K Q rtp st)"
    and set_st: "set (awaiting K Q rtp st) = set (awaiting K Q rtp (tasks S)) - {(sq, pk)}"
    using h(4) items by (auto simp: awaiting_def st)
  have "window Q s packets ` ({..<length packets} - del) - {window Q s packets i} =
      window Q s packets ` ({..<length packets} - insert i del)"
    using window_inj[OF assms(1,2), of s] i unfolding inj_on_def by auto
  then have set_st: "set (awaiting K Q rtp st) = window Q s packets ` ({..<length packets} - insert i del)"
    using set_st h(5) win by simp
  have "playing K Q C rtp D pcm r s packets (S\<lparr>tasks := st\<rparr>)"
    by (rule playingI[where p = ?p and del = "insert i del" and hs = hs
          and j = "snd (jitter_step (Arrive i ?data) j)"])
      (use h(1,8,9) rec dist set_st fb arrive(2) in \<open>simp_all add: st tasks_run_def\<close>)
  moreover have "length (as_list (to_sender os)) \<le> 1" by (simp add: as_list_def split: option.splits)
  then have "weight K L st < weight K L (tasks S)" using items idle unfolding weight_def st by simp
  ultimately show ?thesis by simp
qed

lemma player_plays:
  assumes "seq_api Q" "length packets \<le> 32768" "playing K Q C rtp D pcm r s packets S"
    and turn: "take_turn K L Q C net rtp PlayerPlays (tasks S) = Some st"
  shows "playing K Q C rtp D pcm r s packets (S\<lparr>tasks := st\<rparr>) \<and> weight K L st < weight K L (tasks S)"
proof (cases "unsent (tasks S)")
  case None
  then show ?thesis by (rule packet_plays[OF assms(1-3) _ turn])
next
  case (Some g)
  obtain p sd where p: "player_task (tasks S) = Waiting p" and ok: "tasks_run rtp (tasks S)"
    and sd: "sender_task (tasks S) = Waiting sd" using assms(3) by (auto simp: playing_def tasks_run_def)
  obtain gs where sent: "chan_send L (gaps (tasks S)) g = Some gs"
    and st: "st = (tasks S)\<lparr>unsent := None, gaps := gs\<rparr>"
    using turn Some p sd by (auto simp: player_turn_def running_def)
  have "playing K Q C rtp D pcm r s packets (S\<lparr>tasks := st\<rparr>)"
    by (rule moved_playing[OF assms(3)]) (use ok in \<open>simp_all add: st tasks_run_def awaiting_def\<close>)
  then show ?thesis using ranges.send_appends[OF sent] Some by (simp add: weight_def st)
qed

lemma task_plays:
  assumes "seq_api Q" "rtp_reader rtp" "length packets \<le> 32768" "playing K Q C rtp D pcm r s packets S"
    and "take_turn K L Q C net rtp t (tasks S) = Some st"
  shows "playing K Q C rtp D pcm r s packets (S\<lparr>tasks := st\<rparr>) \<and> weight K L st < weight K L (tasks S)"
proof (cases t)
  case AudioReceives
  then show ?thesis using audio_plays[OF assms(4)] assms(5) by blast
next
  case ControlReceives
  then show ?thesis using control_plays[OF assms(2,4)] assms(5) by blast
next
  case PlayerPlays
  then show ?thesis using player_plays[OF assms(1,3,4)] assms(5) by blast
next
  case SenderSends
  then show ?thesis using sender_plays[OF assms(4)] assms(5) by blast
qed

text \<open>The turns of the tasks in a schedule.\<close>

lemma play_run_inv:
  assumes "seq_api Q" "rtp_reader rtp" "length packets \<le> 32768"
  shows "playing K Q C rtp D pcm r s packets S \<Longrightarrow> play_run K L Q C net rtp r ts S = Some S' \<Longrightarrow>
     playing K Q C rtp D pcm r s packets S' \<and>
     length (filter (\<lambda>t. t \<noteq> Listen) ts) + weight K L (tasks S') \<le> weight K L (tasks S)"
proof (induction ts arbitrary: S)
  case Nil
  then show ?case by simp
next
  case (Cons t ts)
  obtain S1 where S1: "play_step K L Q C net rtp r t S = Some S1" "play_run K L Q C net rtp r ts S1 = Some S'"
    using Cons.prems(2) by (auto simp: bind_eq_Some_conv)
  have "playing K Q C rtp D pcm r s packets S1 \<and>
      (if t = Listen then weight K L (tasks S1) = weight K L (tasks S) else weight K L (tasks S1) < weight K L (tasks S))"
  proof (cases t)
    case (Task u)
    then show ?thesis using S1(1) task_plays[OF assms Cons.prems(1)] by auto
  next
    case Listen
    then show ?thesis using S1(1) listen_step[OF assms(1) Cons.prems(1)] by auto
  qed
  then show ?case using Cons.IH[OF _ S1(2)] by (auto split: if_splits)
qed

lemma playing_start:
  assumes "seq_api Q" "length packets \<le> 32768" "list_all fits ds" "list_all (fits_control rtp) cs"
    and "records C D pcm (set packets) r p" "buffers p ! r = frame_buffer_new s" "current src = None"
    and "mset (List.map_filter (audio_packet rtp) ds) + mset (List.map_filter (control_packet Q rtp) cs) =
      mset (zip (map (seq_plus Q s) [0..<length packets]) packets)"
  shows "playing K Q C rtp D pcm r s packets (playback_start K L p ds cs src)"
proof -
  let ?st = "streaming_start K L p ds cs"
  have zip: "zip (map (seq_plus Q s) [0..<length packets]) packets = map (window Q s packets) [0..<length packets]"
    by (rule nth_equalityI) (simp_all add: window_def)
  have "mset (awaiting K Q rtp ?st) = mset (map (window Q s packets) [0..<length packets])"
    using assms(8) unfolding zip
    by (simp add: awaiting_def streaming_start_def inbound_start packets.new_empty)
  note all = mset_eq_imp_distinct_iff[OF this] mset_eq_setD[OF this]
  have "tasks_run rtp ?st"
    using rx_start_ok[OF assms(3)] rx_start_ok[OF assms(4)]
    by (simp add: tasks_run_def streaming_start_def shutdown_new_def is_shutdown_def)
  then show ?thesis
    by (intro playingI[where p = p and del = "{}" and j = jitter_new and hs = "[]"])
      (use assms(5-7) all window_inj[OF assms(1,2), of s] seq_api.refines_new[OF assms(1)]
        in \<open>simp_all add: playback_start_def streaming_start_def distinct_map atLeast0LessThan
          holds_def jitter_new_def hears_def\<close>)
qed

end

section \<open>What was heard, and what will be\<close>

lemma hears_prefix:
  assumes "hears z ps b src hs" "b \<le> length ps"
  shows "\<exists>ns m. length ns \<le> length ps \<and> hs = take (length hs) (paused z ns ps @ replicate m z)"
proof -
  obtain ns m where "length ns = b" "hs @ rest_of (current src) = paused z ns ps @ replicate m z"
    using assms(1) by (auto simp: hears_def)
  moreover have "take (length hs) (hs @ rest_of (current src)) = hs" by simp
  ultimately show ?thesis using assms(2) by metis
qed

lemma take_padding:
  "k \<le> length ys + a \<Longrightarrow> k \<le> length ys + b \<Longrightarrow> take k (ys @ replicate a z) = take k (ys @ replicate b z)"
proof -
  assume "k \<le> length ys + a" "k \<le> length ys + b"
  then have "k - length ys \<le> a" "k - length ys \<le> b" by linarith+
  then show ?thesis by (simp add: min_absorb1)
qed

text \<open>When nothing more arrives, the rest comes without a pause.\<close>

lemma hears_rest:
  assumes "hears z ps b src hs" "b \<le> length ps"
  shows "\<exists>ns. length ns = length ps \<and>
     (\<forall>n. hs @ take n (stream_of z (current src) (drop b ps) @ replicate n z) =
        take (length hs + n) (paused z ns ps @ replicate (length hs + n) z))"
proof -
  obtain ns m where ns: "length ns = b" and eq: "hs @ rest_of (current src) = paused z ns ps @ replicate m z"
    using assms(1) by (auto simp: hears_def)
  let ?X = "concat (map (voiced z) (drop b ps))"
  have all: "hs @ take n (stream_of z (current src) (drop b ps) @ replicate n z) =
      take (length hs + n) (paused z ns ps @ replicate m z @ ?X @ replicate n z)" for n
  proof -
    have "stream_of z (current src) (drop b ps) = rest_of (current src) @ ?X"
      by (simp add: stream_of_def rest_of_def)
    then have "hs @ take n (stream_of z (current src) (drop b ps) @ replicate n z) =
        take (length hs + n) ((hs @ rest_of (current src)) @ ?X @ replicate n z)" by simp
    then show ?thesis unfolding eq by simp
  qed
  have len: "length hs \<le> length (paused z ns ps) + m"
    using arg_cong[OF eq, of length] by simp
  show ?thesis
  proof (cases "b < length ps")
    case True
    let ?ns = "ns @ m # replicate (length ps - Suc b) 0"
    have "paused z ?ns ps = paused z ns ps @ replicate m z @ ?X"
      using True ns paused_flush[of "ns @ [m]" ps z] paused_snoc[of ns ps z m]
      by (simp add: Cons_nth_drop_Suc[symmetric])
    then have "take (length hs + n) (paused z ns ps @ replicate m z @ ?X @ replicate n z) =
        take (length hs + n) (paused z ?ns ps @ replicate (length hs + n) z)" for n
      using len take_padding[of "length hs + n" "paused z ?ns ps" n "length hs + n" z] by simp
    then show ?thesis using all ns True by (intro exI[of _ ?ns]) simp
  next
    case False
    then have X: "drop b ps = []" and "length ns = length ps" using assms(2) ns by simp_all
    moreover have "take (length hs + n) (paused z ns ps @ replicate (m + n) z) =
        take (length hs + n) (paused z ns ps @ replicate (length hs + n) z)" for n
      using len by (intro take_padding) simp_all
    ultimately show ?thesis using all unfolding X
      by (intro exI[of _ ns]) (simp add: replicate_add del: take_append)
  qed
qed

context seq_api
begin

lemma pending_of_jitter:
  assumes "refines Q s fb j" "holds ps {..<length ps} j" "length ps \<le> 32768"
  shows "pending Q fb = drop (base j) ps"
proof -
  let ?b = "base j" and ?n = "length ps - base j"
  have b: "?b \<le> length ps" and store: "store j = (\<lambda>i. if ?b \<le> i \<and> i < length ps then Some (ps ! i) else None)"
    using assms(2) by (auto simp: holds_def)
  have data: "stored fb (seq_plus Q (read_marker fb) i) = store j (?b + i)" if "i < 65536" for i
    using assms(1) that by (simp add: refines_def plus_add)
  have "pending Q fb = map (\<lambda>i. ps ! (?b + i)) [0..<?n]"
  proof (rule pending_consecutive)
    show "well_ordered Q fb" using assms(1) by (simp add: refines_def)
    show "stored fb (seq_plus Q (read_marker fb) i) = Some (ps ! (?b + i))" if "i < ?n" for i
      using data[of i] that assms(3) by (simp add: store)
    show "stored fb (seq_plus Q (read_marker fb) ?n) = None" using data[of ?n] assms(3) b by (simp add: store)
  qed (use assms(3) in simp)
  then show ?thesis using b by (simp add: list_eq_iff_nth_eq)
qed

lemma play_of_jitter:
  assumes "refines Q s fb j" "holds ps {..<length ps} j" "length ps \<le> 32768"
  shows "source_play (pop_front Q) z n src fb =
     map Some (take n (stream_of z (current src) (drop (base j) ps) @ replicate n z))"
  using play_frames[of Q z n src fb] unfolding pending_of_jitter[OF assms] .

end

context session_channels
begin

lemma playing_completes:
  assumes "seq_api Q" "rtp_reader rtp" "length packets \<le> 32768"
  shows "playing K Q C rtp D pcm r s packets S \<Longrightarrow>
     \<exists>ts S'. play_run K L Q C net rtp r (map Task ts) S = Some S' \<and> stuck K L Q C net rtp (tasks S')"
proof (induction "weight K L (tasks S)" arbitrary: S rule: less_induct)
  case less
  show ?case
  proof (cases "stuck K L Q C net rtp (tasks S)")
    case True
    then show ?thesis by (intro exI[of _ "[]"] exI[of _ S]) simp
  next
    case False
    then obtain t st where turn: "take_turn K L Q C net rtp t (tasks S) = Some st"
      by (auto simp: stuck_def simp del: take_turn.simps)
    note next_state = task_plays[OF assms less.prems turn]
    then obtain ts S' where "play_run K L Q C net rtp r (map Task ts) (S\<lparr>tasks := st\<rparr>) = Some S'"
      "stuck K L Q C net rtp (tasks S')"
      using less.hyps[of "S\<lparr>tasks := st\<rparr>"] by auto
    then show ?thesis using turn by (intro exI[of _ "t # ts"] exI[of _ S']) (simp del: take_turn.simps)
  qed
qed

lemma playing_rest:
  assumes "seq_api Q" "rtp_reader rtp" "length packets \<le> 32768" "playing K Q C rtp D pcm r s packets S"
    and "stuck K L Q C net rtp (tasks S)"
  shows "\<exists>p pauses. player_task (tasks S) = Waiting p \<and> length pauses = length packets \<and>
     (\<forall>n. heard S @ source_play (pop_front Q) 0 n (ear S) (buffers p ! r) =
        map Some (take (length (heard S) + n)
          (paused 0 pauses (map (pcm16 pcm) packets) @ replicate (length (heard S) + n) 0)))"
  using assms(4)
proof (rule playingE)
  fix p del j hs
  assume h: "tasks_run rtp (tasks S)" "player_task (tasks S) = Waiting p"
    "set (awaiting K Q rtp (tasks S)) = window Q s packets ` ({..<length packets} - del)"
    "refines Q s (buffers p ! r) j" "holds (map (pcm16 pcm) packets) del j"
    "heard S = map Some hs" "hears 0 (map (pcm16 pcm) packets) (base j) (ear S) hs"
  let ?pcms = "map (pcm16 pcm) packets"
  have "drained K L (tasks S)" using stuck_empty[OF assms(2,5)] h(1,2) by (auto simp: tasks_run_def)
  then have "awaiting K Q rtp (tasks S) = []" by (simp add: awaiting_def drained_def inbound_def map_filter_simps)
  then have "holds ?pcms {..<length ?pcms} j" and b: "base j \<le> length ?pcms"
    using h(3,5) by (auto simp: holds_def subset_antisym)
  note play = seq_api.play_of_jitter[OF assms(1) h(4) this(1)]
  obtain pauses where "length pauses = length ?pcms"
    "\<forall>n. hs @ take n (stream_of 0 (current (ear S)) (drop (base j) ?pcms) @ replicate n 0) =
        take (length hs + n) (paused 0 pauses ?pcms @ replicate (length hs + n) 0)"
    using hears_rest[OF h(7) b] by blast
  then have "length pauses = length packets \<and>
     (\<forall>n. heard S @ source_play (pop_front Q) 0 n (ear S) (buffers p ! r) =
        map Some (take (length (heard S) + n) (paused 0 pauses ?pcms @ replicate (length (heard S) + n) 0)))"
    using assms(3) by (simp add: play h(6) flip: map_append)
  then show ?thesis using h(2) by blast
qed

end

section \<open>Properties\<close>

text \<open>C3. Playback while the stream arrives: the audio thread asks for samples at any time, between any two turns of
  the session tasks. When the datagrams carry each of the at most 32768 packets of a recording once, on either socket
  and in any order, then what was heard so far is the decoded packets in sequence order, unaltered, with
  silence only before a packet and at the end; the tasks come to rest after at most five turns per datagram
  from wherever they are; and once they have, the audio thread gets all that is left without a further pause.\<close>

theorem concurrent_playback:
  assumes "seq_api Q" and "session_channels K L" and "rtp_reader rtp"
    and "records C D pcm (set packets) r p" and "buffers p ! r = frame_buffer_new s" and "length packets \<le> 32768"
    and "list_all fits ds" and "list_all (fits_control rtp) cs"
    and "mset (List.map_filter (audio_packet rtp) ds) + mset (List.map_filter (control_packet Q rtp) cs) =
      mset (zip (map (seq_plus Q s) [0..<length packets]) packets)"
    and "current src = None" and "pcms = map (pcm16 pcm) packets"
    and "play_run K L Q C net rtp r ts (playback_start K L p ds cs src) = Some S"
  shows "(\<exists>pauses m. length pauses \<le> length pcms \<and>
       heard S = map Some (take (length (heard S)) (paused 0 pauses pcms @ replicate m 0))) \<and>
     length (filter (\<lambda>t. t \<noteq> Listen) ts) \<le> 5 * (length ds + length cs) \<and>
     (\<exists>ts' S'. play_run K L Q C net rtp r (map Task ts') S = Some S' \<and> stuck K L Q C net rtp (tasks S')) \<and>
     (stuck K L Q C net rtp (tasks S) \<longrightarrow>
       (\<exists>p' pauses. player_task (tasks S) = Waiting p' \<and> length pauses = length pcms \<and>
          (\<forall>n. heard S @ source_play (pop_front Q) 0 n (ear S) (buffers p' ! r) =
             map Some (take (length (heard S) + n) (paused 0 pauses pcms @ replicate (length (heard S) + n) 0)))))"
proof (intro conjI impI)
  note inv = session_channels.play_run_inv[OF assms(2,1,3,6)
      session_channels.playing_start[OF assms(2,1,6,7,8,4,5,10,9)] assms(12)]
  obtain hs b where "heard S = map Some hs" "hears 0 pcms b (ear S) hs" "b \<le> length pcms"
    using conjunct1[OF inv] assms(11) by (auto simp: playing_def holds_def)
  then show "\<exists>pauses m. length pauses \<le> length pcms \<and>
      heard S = map Some (take (length (heard S)) (paused 0 pauses pcms @ replicate m 0))"
    using hears_prefix by (metis length_map)
  show "length (filter (\<lambda>t. t \<noteq> Listen) ts) \<le> 5 * (length ds + length cs)"
    using inv session_channels.weight_start[OF assms(2), of p ds cs] by (simp add: playback_start_def)
  show "\<exists>ts' S'. play_run K L Q C net rtp r (map Task ts') S = Some S' \<and> stuck K L Q C net rtp (tasks S')"
    by (rule session_channels.playing_completes[OF assms(2,1,3,6) conjunct1[OF inv]])
  show "\<exists>p' pauses. player_task (tasks S) = Waiting p' \<and> length pauses = length pcms \<and>
      (\<forall>n. heard S @ source_play (pop_front Q) 0 n (ear S) (buffers p' ! r) =
         map Some (take (length (heard S) + n) (paused 0 pauses pcms @ replicate (length (heard S) + n) 0)))"
    if "stuck K L Q C net rtp (tasks S)"
    using session_channels.playing_rest[OF assms(2,1,3,6) conjunct1[OF inv] that] assms(11) by simp
qed

lemma play_run_append:
  "play_run K L Q C net rtp r (ts @ us) S = Option.bind (play_run K L Q C net rtp r ts S) (play_run K L Q C net rtp r us)"
  by (induction ts arbitrary: S) (simp_all split: Option.bind_split)

theorem concurrent_playback_witness:
  "\<exists>ts (S :: (u16, bytes, unit, nat, (u16 \<times> bytes) list, (u16 \<times> u16) list) playback) p pauses.
     play_run (list_channel 4) (list_channel 4) word_seq byte_codec up rtp_decode 0 (Listen # map Task ts)
       (playback_start (list_channel 4) (list_channel 4) demo_player demo_audio demo_answers
         \<lparr>channels = 2, sample_rate = 44100, current = None\<rparr>) = Some S \<and>
     heard S = [Some 0] \<and> player_task (tasks S) = Waiting p \<and> length pauses = 3 \<and>
     Some 0 # source_play (pop_front word_seq) 0 3 (ear S) (buffers p ! 0) =
       map Some (take 4 (paused 0 pauses (map (pcm16 demo_pcm) [[5], [7, 8], [6]]) @ replicate 4 0))"
proof -
  let ?K = "list_channel 4" and ?src = "\<lparr>channels = 2, sample_rate = 44100, current = None\<rparr>"
  let ?ps = "[[5], [7, 8], [6]] :: bytes list"
  let ?start = "playback_start ?K ?K demo_player demo_audio demo_answers ?src ::
    (u16, bytes, unit, nat, (u16 \<times> bytes) list, (u16 \<times> u16) list) playback"
  have once: "mset (List.map_filter (audio_packet rtp_decode) demo_audio) +
      mset (List.map_filter (control_packet word_seq rtp_decode) demo_answers) =
      mset (zip (map (seq_plus word_seq 7) [0..<length ?ps]) ?ps)"
    by (simp add: demo_packets codec_simps upt_rec)
  have fb: "buffers demo_player ! 0 = frame_buffer_new 7" by (simp add: demo_player_def)
  have len: "length ?ps \<le> 32768" and cur: "current ?src = None" by simp_all
  note holds = concurrent_playback[OF word_seq.seq_api_axioms list_session.session_channels_axioms
    rtp_decode.rtp_reader_axioms demo_records fb len demo_packets(3,4) once cur refl, where net = up]
  have "\<exists>S. play_run ?K ?K word_seq byte_codec up rtp_decode 0 [Listen] ?start = Some S \<and> heard S = [Some 0]"
    by (simp add: playback_start_def streaming_start_def listen_def demo_player_def player_new_def lock_held_def
        source_next_def pop_front_None)
  then obtain S1 where S1: "play_run ?K ?K word_seq byte_codec up rtp_decode 0 [Listen] ?start = Some S1"
    and h1: "heard S1 = [Some 0]" by blast
  obtain ts S where S: "play_run ?K ?K word_seq byte_codec up rtp_decode 0 (map Task ts) S1 = Some S"
    and quiet: "stuck ?K ?K word_seq byte_codec up rtp_decode (tasks S)"
    using holds[OF S1] by blast
  have heard_tasks: "play_run ?K ?K word_seq byte_codec up rtp_decode 0 (map Task us) A = Some B \<Longrightarrow> heard B = heard A"
    for us and A B :: "(u16, bytes, unit, nat, (u16 \<times> bytes) list, (u16 \<times> u16) list) playback"
    by (induction us arbitrary: A) (auto simp: bind_eq_Some_conv simp del: take_turn.simps)
  have run: "play_run ?K ?K word_seq byte_codec up rtp_decode 0 (Listen # map Task ts) ?start = Some S"
    using play_run_append[of ?K ?K word_seq byte_codec up rtp_decode 0 "[Listen]" "map Task ts" ?start]
    by (simp add: S1 S del: play_run.simps)
  have "heard S = [Some 0]" using heard_tasks[OF S] h1 by simp
  moreover obtain p pauses where p: "player_task (tasks S) = Waiting p"
    and pauses: "length pauses = length (map (pcm16 demo_pcm) ?ps)"
    and play: "\<forall>n. heard S @ source_play (pop_front word_seq) 0 n (ear S) (buffers p ! 0) =
       map Some (take (length (heard S) + n) (paused 0 pauses (map (pcm16 demo_pcm) ?ps) @ replicate (length (heard S) + n) 0))"
    using mp[OF conjunct2[OF conjunct2[OF conjunct2[OF holds[OF run]]]] quiet] by blast
  ultimately have "Some 0 # source_play (pop_front word_seq) 0 3 (ear S) (buffers p ! 0) =
      map Some (take 4 (paused 0 pauses (map (pcm16 demo_pcm) ?ps) @ replicate 4 0))"
    using spec[OF play, of 3] by (simp del: take_append replicate.simps list.map)
  then show ?thesis using run p pauses \<open>heard S = [Some 0]\<close>
    by (intro exI[of _ ts] exI[of _ S] exI[of _ p] exI[of _ pauses]) (simp del: take_append replicate.simps)
qed

end
