(* ===== verification/Live_Session.thy ===== *)
theory Live_Session
  imports Recovery
begin

text \<open>
  A session with its commands: while the receivers forward packets, a request handler sends commands to the player
  (src/src/rtsp/handler.rs) through the same channel (the \<open>player_tx\<close> of src/src/server.rs) and waits for each reply.
  TEARDOWN drops the notice of the session (src/src/player/mod.rs), whereupon the tasks of the session stop at their next
  \<open>select!\<close> (server_receiver.rs, control_receiver.rs, control_sender.rs). The turns of \<open>Streaming\<close> are
  reused over a channel of commands. SETUP opens another session, whose tasks are not in this state.
\<close>

section \<open>The state\<close>

text \<open>The tasks of session \<open>number\<close>; the commands that the handler has yet to send, and whether it waits for a reply.\<close>

record ('q, 'k, 'd, 'f, 'c, 'e) live =
  session :: "('q, 'k, 'd, 'f, 'c, 'e) streaming"
  number :: nat
  asking :: "('q, 'f) command list"
  awaiting_reply :: bool

text \<open>The end of the channel that the receivers have: they only send.\<close>

definition packet_side :: "('c, ('q, 'f) command) chan_ops \<Rightarrow> ('c, 'q \<times> bytes) chan_ops" where
  "packet_side K =
     \<lparr>chan_new = chan_new K, chan_send = (\<lambda>c (sq, pk). chan_send K c (PutPacket sq pk)),
      chan_recv = (\<lambda>c. None), chan_items = (\<lambda>c. [])\<rparr>"

definition live_start ::
  "('c, ('q, 'f) command) chan_ops \<Rightarrow> ('e, 'q \<times> 'q) chan_ops \<Rightarrow> ('q, 'k, 'd, 'f) player \<Rightarrow> nat \<Rightarrow> bytes list \<Rightarrow> bytes list \<Rightarrow>
   ('q, 'f) command list \<Rightarrow> ('q, 'k, 'd, 'f, 'c, 'e) live" where
  "live_start K L p n ds cs cmds =
     \<lparr>session = streaming_start (packet_side K) L p ds cs, number = n, asking = cmds, awaiting_reply = False\<rparr>"

text \<open>The tasks are told to stop when the player has dropped their notice, or is gone with all it had.\<close>

definition told :: "('q, 'k, 'd, 'f, 'c, 'e) live \<Rightarrow> bool" where
  "told s = (case player_task (session s) of Waiting p \<Rightarrow> notify_shutdown p \<noteq> Some (number s) | Finished _ \<Rightarrow> True)"

section \<open>Turns\<close>

text \<open>The player waits in the \<open>send\<close> of a missing range, or takes the next command.\<close>

definition player_takes ::
  "('c, ('q, 'f) command) chan_ops \<Rightarrow> ('e, 'q \<times> 'q) chan_ops \<Rightarrow> 'q seq_ops \<Rightarrow> ('k, 'd) codec_ops \<Rightarrow> setup_net \<Rightarrow>
   ('q, 'k, 'd, 'f, 'c, 'e) live \<Rightarrow> ('q, 'k, 'd, 'f, 'c, 'e) live option" where
  "player_takes K L Q C net s =
     (let st = session s in
      case player_task st of
        Finished _ \<Rightarrow> None
      | Waiting p \<Rightarrow>
          (case unsent st of
             Some _ \<Rightarrow> map_option (\<lambda>st'. s\<lparr>session := st'\<rparr>) (player_turn (packet_side K) L Q C net st)
           | None \<Rightarrow>
               (case chan_recv K (queue st) of
                  None \<Rightarrow> None
                | Some (cmd, c) \<Rightarrow>
                    (case player_body Q C p (Request cmd net True) of
                       Continue p' os \<Rightarrow>
                         Some (s\<lparr>session := st\<lparr>queue := c, player_task := Waiting p', unsent := to_sender os\<rparr>,
                                 awaiting_reply := awaiting_reply s \<and> is_packet cmd\<rparr>)
                     | Return e os \<Rightarrow> Some (s\<lparr>session := st\<lparr>queue := c, player_task := Finished e\<rparr>\<rparr>)))))"

text \<open>The handler sends its next command when the last one is answered; with the player gone, its call fails.\<close>

definition handler_asks ::
  "('c, ('q, 'f) command) chan_ops \<Rightarrow> ('q, 'k, 'd, 'f, 'c, 'e) live \<Rightarrow> ('q, 'k, 'd, 'f, 'c, 'e) live option" where
  "handler_asks K s =
     (if running (player_task (session s))
      then (if awaiting_reply s then None
            else (case asking s of
                    [] \<Rightarrow> None
                  | cmd # cmds \<Rightarrow>
                      map_option (\<lambda>c. s\<lparr>session := (session s)\<lparr>queue := c\<rparr>, asking := cmds, awaiting_reply := True\<rparr>)
                        (chan_send K (queue (session s)) cmd)))
      else if awaiting_reply s \<or> asking s \<noteq> [] then Some (s\<lparr>asking := [], awaiting_reply := False\<rparr>) else None)"

text \<open>A receiver that is not in a \<open>send\<close> takes the notice.\<close>

definition receiver_told ::
  "(receiver \<Rightarrow> recv_event \<Rightarrow> (receiver, 'q net_effect) step) \<Rightarrow> 'q rx_side \<Rightarrow> 'q rx_side option" where
  "receiver_told body r =
     (case (rx_task r, held r) of
        (Waiting st, None) \<Rightarrow>
          (case body st StopReceiver of
             Continue st' os \<Rightarrow> Some (r\<lparr>rx_task := Waiting st'\<rparr>)
           | Return e os \<Rightarrow> Some (r\<lparr>rx_task := Finished e\<rparr>))
      | _ \<Rightarrow> None)"

definition sender_told :: "'q seq_ops \<Rightarrow> shutdown_state status \<Rightarrow> shutdown_state status option" where
  "sender_told Q t =
     (case t of
        Finished _ \<Rightarrow> None
      | Waiting sd \<Rightarrow>
          (case control_sender_body Q sd StopSender of
             Continue sd' os \<Rightarrow> Some (Waiting sd')
           | Return e os \<Rightarrow> Some (Finished e)))"

datatype live_turn = Takes turn | HandlerAsks | AudioTold | ControlTold | SenderTold

fun live_step ::
  "('c, ('q, 'f) command) chan_ops \<Rightarrow> ('e, 'q \<times> 'q) chan_ops \<Rightarrow> 'q seq_ops \<Rightarrow> ('k, 'd) codec_ops \<Rightarrow> setup_net \<Rightarrow>
   (bytes \<Rightarrow> 'q rtp_view option) \<Rightarrow> live_turn \<Rightarrow> ('q, 'k, 'd, 'f, 'c, 'e) live \<Rightarrow> ('q, 'k, 'd, 'f, 'c, 'e) live option" where
  "live_step K L Q C net rtp (Takes t) s =
     (if t = PlayerPlays then player_takes K L Q C net s
      else map_option (\<lambda>st. s\<lparr>session := st\<rparr>) (take_turn (packet_side K) L Q C net rtp t (session s)))"
| "live_step K L Q C net rtp HandlerAsks s = handler_asks K s"
| "live_step K L Q C net rtp AudioTold s =
     (if told s then map_option (\<lambda>r. s\<lparr>session := (session s)\<lparr>audio := r\<rparr>\<rparr>)
        (receiver_told (server_receiver_body rtp) (audio (session s))) else None)"
| "live_step K L Q C net rtp ControlTold s =
     (if told s then map_option (\<lambda>r. s\<lparr>session := (session s)\<lparr>control := r\<rparr>\<rparr>)
        (receiver_told (control_receiver_body Q rtp) (control (session s))) else None)"
| "live_step K L Q C net rtp SenderTold s =
     (if told s then map_option (\<lambda>t. s\<lparr>session := (session s)\<lparr>sender_task := t\<rparr>\<rparr>)
        (sender_told Q (sender_task (session s))) else None)"

fun live_run ::
  "('c, ('q, 'f) command) chan_ops \<Rightarrow> ('e, 'q \<times> 'q) chan_ops \<Rightarrow> 'q seq_ops \<Rightarrow> ('k, 'd) codec_ops \<Rightarrow> setup_net \<Rightarrow>
   (bytes \<Rightarrow> 'q rtp_view option) \<Rightarrow> live_turn list \<Rightarrow> ('q, 'k, 'd, 'f, 'c, 'e) live \<Rightarrow> ('q, 'k, 'd, 'f, 'c, 'e) live option" where
  "live_run K L Q C net rtp [] s = Some s"
| "live_run K L Q C net rtp (t # ts) s = Option.bind (live_step K L Q C net rtp t s) (live_run K L Q C net rtp ts)"

definition at_rest ::
  "('c, ('q, 'f) command) chan_ops \<Rightarrow> ('e, 'q \<times> 'q) chan_ops \<Rightarrow> 'q seq_ops \<Rightarrow> ('k, 'd) codec_ops \<Rightarrow> setup_net \<Rightarrow>
   (bytes \<Rightarrow> 'q rtp_view option) \<Rightarrow> ('q, 'k, 'd, 'f, 'c, 'e) live \<Rightarrow> bool" where
  "at_rest K L Q C net rtp s \<longleftrightarrow>
     list_all (\<lambda>t. live_step K L Q C net rtp t s = None)
       (map Takes [AudioReceives, ControlReceives, PlayerPlays, SenderSends] @ [HandlerAsks, AudioTold, ControlTold, SenderTold])"

lemma at_rest_iff: "at_rest K L Q C net rtp s \<longleftrightarrow> (\<forall>t. live_step K L Q C net rtp t s = None)"
proof
  assume h: "at_rest K L Q C net rtp s"
  show "\<forall>t. live_step K L Q C net rtp t s = None"
  proof
    show "live_step K L Q C net rtp t s = None" for t
    proof (cases t)
      case (Takes u)
      then show ?thesis using h by (cases u) (simp_all add: at_rest_def del: live_step.simps)
    qed (use h in \<open>simp_all add: at_rest_def del: live_step.simps\<close>)
  qed
qed (simp add: at_rest_def del: live_step.simps)

lemma live_run_append:
  "live_run K L Q C net rtp (ts @ us) s = Option.bind (live_run K L Q C net rtp ts s) (live_run K L Q C net rtp us)"
  by (induction ts arbitrary: s) (simp_all del: live_step.simps split: Option.bind_split)

section \<open>Every run ends\<close>

text \<open>The weight of what is left to do.\<close>

definition live_weight ::
  "('c, ('q, 'f) command) chan_ops \<Rightarrow> ('e, 'q \<times> 'q) chan_ops \<Rightarrow> ('q, 'k, 'd, 'f, 'c, 'e) live \<Rightarrow> nat" where
  "live_weight K L s = (let st = session s in
     rx_weight (audio st) + rx_weight (control st) + 3 * length (chan_items K (queue st)) +
     2 * length (as_list (unsent st)) + length (chan_items L (gaps st)) + 5 * length (asking s) + of_bool (awaiting_reply s) +
     of_bool (running (rx_task (audio st))) + of_bool (running (rx_task (control st))) + of_bool (running (sender_task st)))"

lemma running_simps [simp]: "running (Waiting x)" "\<not> running (Finished e)"
  by (simp_all add: running_def)

lemma receiver_told_ends:
  assumes "receiver_told body r = Some r'" "\<And>st. \<exists>e os. body st StopReceiver = Return e os"
  shows "\<exists>e. r' = r\<lparr>rx_task := Finished e\<rparr> \<and> running (rx_task r) \<and> held r = None"
proof -
  obtain st where "rx_task r = Waiting st" "held r = None"
    using assms(1) by (auto simp: receiver_told_def split: status.splits option.splits)
  then show ?thesis using assms(1) assms(2)[of st] by (auto simp: receiver_told_def)
qed

lemma stop_returns:
  "\<exists>e os. server_receiver_body rtp st StopReceiver = Return e os"
  "\<exists>e os. control_receiver_body Q rtp st StopReceiver = Return e os"
  "\<exists>e os. control_sender_body Q sd StopSender = Return e os"
  by (simp_all add: body_defs recv_select_def)

lemma sender_told_ends: "sender_told Q t = Some t' \<Longrightarrow> (\<exists>e. t' = Finished e) \<and> running t"
  by (cases t) (auto simp: sender_told_def control_sender_body_def split: if_splits)

lemma handler_asksE:
  assumes "handler_asks K s = Some s'"
  obtains (sent) cmd cmds c where "running (player_task (session s))" "\<not> awaiting_reply s" "asking s = cmd # cmds"
      "chan_send K (queue (session s)) cmd = Some c"
      "s' = s\<lparr>session := (session s)\<lparr>queue := c\<rparr>, asking := cmds, awaiting_reply := True\<rparr>"
    | (failed) "\<not> running (player_task (session s))" "awaiting_reply s \<or> asking s \<noteq> []"
      "s' = s\<lparr>asking := [], awaiting_reply := False\<rparr>"
proof (cases "running (player_task (session s))")
  case True
  then show ?thesis using assms sent by (cases "asking s") (auto simp: handler_asks_def split: if_splits)
next
  case False
  then show ?thesis using assms failed by (simp add: handler_asks_def split: if_splits)
qed

lemma player_takesE:
  assumes "player_takes K L Q C net s = Some s'"
  obtains (sent) p r g where "player_task (session s) = Waiting p" "unsent (session s) = Some r"
      "running (sender_task (session s))" "chan_send L (gaps (session s)) r = Some g"
      "s' = s\<lparr>session := (session s)\<lparr>unsent := None, gaps := g\<rparr>\<rparr>"
    | (refused) p r where "player_task (session s) = Waiting p" "unsent (session s) = Some r"
      "\<not> running (sender_task (session s))"
      "s' = s\<lparr>session := (session s)\<lparr>player_task := Finished (Err SendError), unsent := None\<rparr>\<rparr>"
    | (handled) p cmd c p' os where "player_task (session s) = Waiting p" "unsent (session s) = None"
      "chan_recv K (queue (session s)) = Some (cmd, c)" "player_body Q C p (Request cmd net True) = Continue p' os"
      "s' = s\<lparr>session := (session s)\<lparr>queue := c, player_task := Waiting p', unsent := to_sender os\<rparr>,
          awaiting_reply := awaiting_reply s \<and> is_packet cmd\<rparr>"
    | (ended) p cmd c e os where "player_task (session s) = Waiting p" "unsent (session s) = None"
      "chan_recv K (queue (session s)) = Some (cmd, c)" "player_body Q C p (Request cmd net True) = Return e os"
      "s' = s\<lparr>session := (session s)\<lparr>queue := c, player_task := Finished e\<rparr>\<rparr>"
proof -
  obtain p where p: "player_task (session s) = Waiting p"
    using assms by (auto simp: player_takes_def Let_def split: status.splits)
  show ?thesis
  proof (cases "unsent (session s)")
    case (Some r)
    then have "map_option (\<lambda>st'. s\<lparr>session := st'\<rparr>) (player_turn (packet_side K) L Q C net (session s)) = Some s'"
      using assms p by (simp add: player_takes_def)
    then consider g where "running (sender_task (session s))" "chan_send L (gaps (session s)) r = Some g"
        "s' = s\<lparr>session := (session s)\<lparr>unsent := None, gaps := g\<rparr>\<rparr>"
      | "\<not> running (sender_task (session s))"
        "s' = s\<lparr>session := (session s)\<lparr>player_task := Finished (Err SendError), unsent := None\<rparr>\<rparr>"
      using p Some by (auto simp: player_turn_def split: if_splits)
    then show ?thesis using sent[OF p Some] refused[OF p Some] by cases
  next
    case None
    then obtain cmd c where c: "chan_recv K (queue (session s)) = Some (cmd, c)"
      using assms p by (auto simp: player_takes_def Let_def split: option.splits)
    show ?thesis
    proof (cases "player_body Q C p (Request cmd net True)")
      case (Continue p' os)
      then show ?thesis using assms p None c by (intro handled) (auto simp: player_takes_def)
    next
      case (Return e os)
      then show ?thesis using assms p None c by (intro ended) (auto simp: player_takes_def)
    qed
  qed
qed

lemma sender_turnE:
  assumes "sender_turn L Q st = Some st'"
  obtains sd r g where "sender_task st = Waiting sd" "chan_recv L (gaps st) = Some (r, g)"
    "st' = (if is_shutdown sd then st\<lparr>gaps := g, sender_task := Finished (Ok ())\<rparr>
            else st\<lparr>gaps := g, sender_task := Waiting sd, wire := wire st @ [retransmit_request Q r]\<rparr>)"
proof (cases "sender_task st")
  case (Waiting sd)
  then obtain r g where "chan_recv L (gaps st) = Some (r, g)"
    using assms by (auto simp: sender_turn_def split: option.splits)
  then show ?thesis using assms Waiting by (intro that) (auto simp: sender_turn_def control_sender_body_def to_peer_def)
next
  case (Finished e)
  then show ?thesis using assms by (simp add: sender_turn_def)
qed

text \<open>Both channels have room for four values.\<close>

locale live_channels = cmds: bounded_channel K 4 + ranges: bounded_channel L 4
  for K :: "('c, ('q, 'f) command) chan_ops" and L :: "('e, 'q \<times> 'q) chan_ops"
begin

lemma receiver_lighter:
  assumes "receiver_turn (packet_side K) body alive r c = Some (r', c')"
  shows "rx_weight r' + 3 * length (chan_items K c') < rx_weight r + 3 * length (chan_items K c) \<and>
     of_bool (running (rx_task r')) \<le> (of_bool (running (rx_task r)) :: nat)"
proof -
  obtain st where st: "rx_task r = Waiting st"
    using assms by (auto simp: receiver_turn_def split: status.splits)
  show ?thesis
  proof (cases "held r")
    case (Some x)
    then show ?thesis using assms st
      by (auto simp: receiver_turn_def packet_side_def rx_weight_def dest!: cmds.send_appends split: if_splits prod.splits)
  next
    case None
    then show ?thesis using assms st
      by (auto simp: receiver_turn_def rx_weight_def split: list.splits step.splits option.splits)
  qed
qed

lemma player_lighter:
  assumes "player_takes K L Q C net s = Some s'"
  shows "live_weight K L s' < live_weight K L s"
  using assms
proof (cases rule: player_takesE)
  case (sent p r g)
  then show ?thesis using ranges.send_appends[OF sent(4)] by (simp add: live_weight_def Let_def)
next
  case (refused p r)
  then show ?thesis by (simp add: live_weight_def Let_def)
next
  case (handled p cmd c p' os)
  then show ?thesis using cmds.recv_takes[OF handled(3)]
    by (cases "to_sender os") (auto simp: live_weight_def Let_def)
next
  case (ended p cmd c e os)
  then show ?thesis using cmds.recv_takes[OF ended(3)] by (simp add: live_weight_def Let_def)
qed

lemma step_lighter:
  assumes "live_step K L Q C net rtp t s = Some s'"
  shows "live_weight K L s' < live_weight K L s"
proof (cases t)
  case (Takes u)
  show ?thesis
  proof (cases u)
    case AudioReceives
    then obtain r c where "receiver_turn (packet_side K) (server_receiver_body rtp) (running (player_task (session s)))
        (audio (session s)) (queue (session s)) = Some (r, c)" "s' = s\<lparr>session := (session s)\<lparr>audio := r, queue := c\<rparr>\<rparr>"
      using assms Takes by auto
    then show ?thesis using receiver_lighter by (fastforce simp: live_weight_def Let_def)
  next
    case ControlReceives
    then obtain r c where "receiver_turn (packet_side K) (control_receiver_body Q rtp) (running (player_task (session s)))
        (control (session s)) (queue (session s)) = Some (r, c)" "s' = s\<lparr>session := (session s)\<lparr>control := r, queue := c\<rparr>\<rparr>"
      using assms Takes by auto
    then show ?thesis using receiver_lighter by (fastforce simp: live_weight_def Let_def)
  next
    case PlayerPlays
    then show ?thesis using assms Takes player_lighter by simp
  next
    case SenderSends
    then obtain st where "sender_turn L Q (session s) = Some st" and s': "s' = s\<lparr>session := st\<rparr>"
      using assms Takes by auto
    from this(1) show ?thesis
      by (rule sender_turnE) (auto simp: s' live_weight_def Let_def dest!: ranges.recv_takes)
  qed
next
  case HandlerAsks
  then have "handler_asks K s = Some s'" using assms by simp
  then show ?thesis
  proof (cases rule: handler_asksE)
    case (sent cmd cmds c)
    then show ?thesis using cmds.send_appends[OF sent(4)] by (simp add: live_weight_def Let_def)
  next
    case failed
    then show ?thesis by (cases "asking s"; cases "awaiting_reply s") (simp_all add: live_weight_def Let_def)
  qed
next
  case AudioTold
  then obtain r where r: "receiver_told (server_receiver_body rtp) (audio (session s)) = Some r"
    and s': "s' = s\<lparr>session := (session s)\<lparr>audio := r\<rparr>\<rparr>" using assms by (auto split: if_splits)
  have "\<exists>e. r = audio (session s)\<lparr>rx_task := Finished e\<rparr> \<and> running (rx_task (audio (session s))) \<and> held (audio (session s)) = None"
    by (rule receiver_told_ends[OF r]) (rule stop_returns)
  then show ?thesis by (auto simp: s' live_weight_def Let_def rx_weight_def)
next
  case ControlTold
  then obtain r where r: "receiver_told (control_receiver_body Q rtp) (control (session s)) = Some r"
    and s': "s' = s\<lparr>session := (session s)\<lparr>control := r\<rparr>\<rparr>" using assms by (auto split: if_splits)
  have "\<exists>e. r = control (session s)\<lparr>rx_task := Finished e\<rparr> \<and> running (rx_task (control (session s))) \<and> held (control (session s)) = None"
    by (rule receiver_told_ends[OF r]) (rule stop_returns)
  then show ?thesis by (auto simp: s' live_weight_def Let_def rx_weight_def)
next
  case SenderTold
  then show ?thesis using assms by (auto simp: live_weight_def Let_def dest!: sender_told_ends split: if_splits)
qed

lemma run_lighter: "live_run K L Q C net rtp ts s = Some s' \<Longrightarrow> length ts + live_weight K L s' \<le> live_weight K L s"
proof (induction ts arbitrary: s)
  case Nil
  then show ?case by simp
next
  case (Cons t ts)
  then obtain s1 where "live_step K L Q C net rtp t s = Some s1" "live_run K L Q C net rtp ts s1 = Some s'"
    by (auto simp: bind_eq_Some_conv simp del: live_step.simps)
  then show ?case using Cons.IH step_lighter by fastforce
qed

lemma run_completes: "\<exists>ts s'. live_run K L Q C net rtp ts s = Some s' \<and> at_rest K L Q C net rtp s'"
proof (induction "live_weight K L s" arbitrary: s rule: less_induct)
  case less
  show ?case
  proof (cases "at_rest K L Q C net rtp s")
    case True
    then show ?thesis by (intro exI[of _ "[]"] exI[of _ s]) simp
  next
    case False
    then obtain t s1 where s1: "live_step K L Q C net rtp t s = Some s1" by (auto simp: at_rest_iff simp del: live_step.simps)
    then obtain ts s' where "live_run K L Q C net rtp ts s1 = Some s'" "at_rest K L Q C net rtp s'"
      using less.hyps[OF step_lighter[OF s1]] by blast
    then show ?thesis using s1 by (intro exI[of _ "t # ts"] exI[of _ s']) (simp del: live_step.simps)
  qed
qed

lemma weight_live_start:
  "live_weight K L (live_start K L p n ds cs cmds) = 5 * (length ds + length cs + length cmds) + 3"
  by (simp add: live_weight_def live_start_def streaming_start_def rx_weight_def rx_start_def packet_side_def Let_def
      cmds.new_empty ranges.new_empty)

end

section \<open>What the player does with the commands of a session\<close>

text \<open>While it records, and after TEARDOWN.\<close>

definition recording ::
  "('k, 'd) codec_ops \<Rightarrow> ('d \<Rightarrow> bool) \<Rightarrow> (bytes \<Rightarrow> i32 list) \<Rightarrow> bytes set \<Rightarrow> nat \<Rightarrow> nat \<Rightarrow> ('q, 'k, 'd, 'f) player \<Rightarrow> bool" where
  "recording C D pcm P r n p \<longleftrightarrow> records C D pcm P r p \<and> notify_shutdown p = Some n"

definition torn_down :: "('q, 'k, 'd, 'f) player \<Rightarrow> bool" where
  "torn_down p \<longleftrightarrow> encryption p = None \<and> cipher p = None \<and> alac p = None \<and> notify_shutdown p = None \<and>
     \<not> is_shutdown (player_shutdown p)"

definition steady :: "('q, 'f) command \<Rightarrow> bool" where
  "steady cmd = (case cmd of SetParameter _ \<Rightarrow> True | GetParameter \<Rightarrow> True | Flush _ \<Rightarrow> True | _ \<Rightarrow> False)"

text \<open>The commands of a handler in a session, with or without its end.\<close>

definition session_commands :: "('q, 'f) command list \<Rightarrow> bool" where
  "session_commands B \<longleftrightarrow> (\<exists>cmds. list_all steady cmds \<and> (B = cmds \<or> B = cmds @ [Teardown]))"

lemma steady_simps [simp]:
  "steady (SetParameter v)" "steady GetParameter" "steady (Flush i)" "\<not> steady Teardown" "\<not> steady (PutPacket sq pk)"
  by (simp_all add: steady_def)

lemma steady_not_packet: "steady cmd \<Longrightarrow> \<not> is_packet cmd"
  by (cases cmd) (simp_all add: steady_def is_packet_def)

lemma is_packet_simps [simp]: "is_packet (PutPacket sq pk)" "\<not> is_packet Teardown"
  by (simp_all add: is_packet_def)

lemma session_commands_member: "session_commands B \<Longrightarrow> cmd \<in> set B \<Longrightarrow> steady cmd \<or> cmd = Teardown"
  by (auto simp: session_commands_def list_all_iff)

lemma session_commands_last:
  assumes "session_commands B" "B = xs @ Teardown # ys"
  shows "ys = []"
proof -
  obtain cmds where "list_all steady cmds" "B = cmds \<or> B = cmds @ [Teardown]"
    using assms(1) by (auto simp: session_commands_def)
  moreover from this have "Teardown \<notin> set cmds" by (auto simp: list_all_iff)
  ultimately show ?thesis using assms(2) by (cases ys rule: rev_cases) (auto simp: append_eq_append_conv2)
qed

lemma recording_keeps:
  assumes "seq_api Q" "recording C D pcm P r n p" "steady cmd \<or> cmd = PutPacket sq pk \<and> pk \<in> P"
  shows "\<exists>p' os. player_body Q C p (Request cmd net True) = Continue p' os \<and> recording C D pcm P r n p' \<and>
     gap_requests os = as_list (to_sender os) \<and> (steady cmd \<longrightarrow> to_sender os = None)"
proof (cases "cmd = PutPacket sq pk \<and> pk \<in> P")
  case True
  have "records C D pcm P r p" using assms(2) by (simp add: recording_def)
  from packet_recorded[OF this conjunct2[OF True], of Q sq net] show ?thesis
    using assms(2) True put_packet_requests by (fastforce simp: recording_def)
next
  case False
  have p: "records C D pcm P r p" "notify_shutdown p = Some n" "\<not> is_shutdown (player_shutdown p)"
    using assms(2) by (auto simp: recording_def records_def)
  have steady: "steady cmd" using assms(3) False by blast
  show ?thesis
  proof (cases cmd)
    case (Flush info)
    have fb: "frame_buf p = Some r" "r < length (buffers p)" using p(1) by (simp_all add: records_def)
    obtain fb where "flush_fb Q (buffers p ! r) (seq_of_u16 Q (rtp_seq info)) = Some fb"
      using seq_api.flush_steps[OF assms(1)] by blast
    then have "player_body Q C p (Request cmd net True) = Continue (p\<lparr>buffers := (buffers p)[r := fb]\<rparr>) [Reply (Done (Ok ()))]"
      using p(3) fb(1) Flush by (simp add: player_body_def player_flush_def)
    then show ?thesis using p fb by (simp add: recording_def records_def gap_requests_def to_sender_def map_filter_simps)
  qed (use steady p in \<open>auto simp: player_body_def player_set_parameter_def player_get_parameter_def steady_def recording_def
    records_def gap_requests_def to_sender_def map_filter_simps\<close>)
qed

lemma recording_torn_down:
  assumes "recording C D pcm P r n p"
  shows "\<exists>p' os. player_body Q C p (Request Teardown net True) = Continue p' os \<and> torn_down p' \<and>
     gap_requests os = [] \<and> to_sender os = None"
  using assms by (simp add: player_body_def player_teardown_def recording_def records_def torn_down_def gap_requests_def
      to_sender_def map_filter_simps)

lemma torn_down_panics:
  "torn_down p \<Longrightarrow> player_body Q C p (Request (PutPacket sq pk) net True) = Return Panic []"
  by (simp add: torn_down_def player_body_def player_put_packet_def)

end
