(* ===== verification/Session_History.thy ===== *)
theory Session_History
  imports Live_Session
begin

text \<open>
  The history of a session with commands: what the player has handled and what waits in its channel is a merge of what the
  two receivers and the handler have sent, until a packet behind TEARDOWN ends it. The locale \<open>live_session\<close> collects
  what a session rests on (the channels, the sequence numbers, the RTP reader, a player that records); every turn of
  \<open>Live_Session\<close> keeps its invariant.
\<close>

section \<open>The invariant of a session\<close>

definition put :: "'q \<times> bytes \<Rightarrow> ('q, 'f) command" where
  "put x = PutPacket (fst x) (snd x)"

definition command_list :: "('q, 'f) command list \<Rightarrow> ('q, 'f) command list" where
  "command_list cmds = filter (\<lambda>cmd. \<not> is_packet cmd) cmds"

definition requested_of :: "setup_net \<Rightarrow> ('q, 'f) command list \<Rightarrow> ('q, 'f) player_event list" where
  "requested_of net cmds = map (\<lambda>cmd. Request cmd net True) cmds"

lemma put_packet [simp]: "is_packet (put x)"
  by (simp add: put_def)

lemma command_list_simps [simp]:
  "command_list [] = []" "command_list (xs @ ys) = command_list xs @ command_list ys"
  "command_list (map put ps) = []" "command_list (cmd # xs) = (if is_packet cmd then [] else [cmd]) @ command_list xs"
  by (induction ps) (simp_all add: command_list_def)

lemma command_list_merge:
  assumes "zs \<in> shuffles (map put ps) bs" "list_all (\<lambda>cmd. \<not> is_packet cmd) bs"
  shows "command_list zs = bs"
proof -
  have "command_list zs \<in> command_list ` shuffles (map put ps) bs" using assms(1) by blast
  also have "\<dots> = shuffles (command_list (map put ps)) (command_list bs)"
    unfolding command_list_def by (rule filter_shuffles)
  also have "command_list bs = bs" using assms(2) by (simp add: command_list_def list_all_iff)
  finally show ?thesis by simp
qed

text \<open>A receiver runs with its buffer, or has stopped because it was told.\<close>

definition rx_live :: "(bytes \<Rightarrow> bool) \<Rightarrow> bool \<Rightarrow> 'q rx_side \<Rightarrow> bool" where
  "rx_live D b r \<longleftrightarrow> list_all D (inbox r) \<and>
     (case rx_task r of Waiting st \<Rightarrow> receiver_inv 4096 st | Finished _ \<Rightarrow> held r = None \<and> b)"

definition sender_live :: "bool \<Rightarrow> shutdown_state status \<Rightarrow> bool" where
  "sender_live b t \<longleftrightarrow> (case t of Waiting sd \<Rightarrow> \<not> is_shutdown sd | Finished _ \<Rightarrow> b)"

lemma rx_live_mono: "rx_live D b r \<Longrightarrow> (b \<Longrightarrow> b') \<Longrightarrow> rx_live D b' r"
  by (auto simp: rx_live_def split: status.splits)

lemma sender_live_mono: "sender_live b t \<Longrightarrow> (b \<Longrightarrow> b') \<Longrightarrow> sender_live b' t"
  by (auto simp: sender_live_def split: status.splits)

lemma rx_live_told: "rx_live D b r \<Longrightarrow> b \<Longrightarrow> held r = None \<Longrightarrow> rx_live D b (r\<lparr>rx_task := Finished e\<rparr>)"
  by (simp add: rx_live_def)

lemma inbound_rx_task [simp]: "inbound dec (r\<lparr>rx_task := t\<rparr>) = inbound dec r"
  by (simp add: inbound_def)

context live_channels
begin

lemma receiver_turn_live:
  assumes turn: "receiver_turn (packet_side K) body alive r c = Some (r', c')" and body: "reads body D dec"
    and live: "rx_live D b r" and gone: "\<not> alive \<Longrightarrow> b"
  shows "rx_live D b r' \<and>
     (alive \<longrightarrow> (\<exists>xs. chan_items K c' = chan_items K c @ map put xs \<and> inbound dec r = xs @ inbound dec r'))"
proof -
  obtain st where st: "rx_task r = Waiting st" using turn by (auto simp: receiver_turn_def split: status.splits)
  then have inv: "receiver_inv 4096 st" using live by (simp add: rx_live_def)
  show ?thesis
  proof (cases "held r")
    case (Some x)
    show ?thesis
    proof (cases alive)
      case True
      then have "chan_send K c (put x) = Some c'" "r' = r\<lparr>held := None\<rparr>"
        using turn st Some by (auto simp: receiver_turn_def packet_side_def put_def split: prod.splits)
      then show ?thesis using cmds.send_appends live st Some
        by (fastforce simp: rx_live_def inbound_def intro: exI[of _ "[x]"])
    next
      case False
      then show ?thesis using turn st Some gone live by (auto simp: receiver_turn_def rx_live_def)
    qed
  next
    case None
    then obtain d ds where box: "inbox r = d # ds" using turn st by (auto simp: receiver_turn_def split: list.splits)
    then have "D d" using live by (simp add: rx_live_def)
    then obtain st' os where step: "body st (Received d True) = Continue st' os" "receiver_inv 4096 st'"
      "to_player os = dec d" using body inv unfolding reads_def by blast
    then have "c' = c" "r' = r\<lparr>inbox := ds, rx_task := Waiting st', held := dec d\<rparr>"
      using turn st None box by (simp_all add: receiver_turn_def)
    then show ?thesis
      using live step(2) None box by (auto simp: rx_live_def inbound_def map_filter_simps split: option.splits)
  qed
qed

lemma receiver_waits:
  assumes "receiver_turn (packet_side K) body alive r c = None" "rx_task r = Waiting st" "chan_items K c = []"
  shows "held r = None \<and> inbox r = []"
proof (cases "held r")
  case (Some x)
  then show ?thesis using assms cmds.send_waits[of c "put x"]
    by (auto simp: receiver_turn_def packet_side_def put_def split: if_splits prod.splits)
next
  case None
  then show ?thesis using assms by (auto simp: receiver_turn_def split: list.splits step.splits)
qed

end

text \<open>A session over the interfaces of the program: a player \<open>p0\<close> that records into buffer \<open>r\<close>, packets \<open>A\<close> and \<open>R\<close>
  from the two sockets, commands \<open>B\<close> from the handler.\<close>

locale live_session = live_channels K L + numbers: seq_api Q + reader: rtp_reader rtp
  for K :: "('c, ('q, 'f) command) chan_ops" and L :: "('e, 'q \<times> 'q) chan_ops" and Q :: "'q seq_ops"
    and rtp :: "bytes \<Rightarrow> 'q rtp_view option" +
  fixes C :: "('k, 'd) codec_ops" and D :: "'d \<Rightarrow> bool" and pcm :: "bytes \<Rightarrow> i32 list" and P :: "bytes set"
    and r n :: nat and net :: setup_net and p0 :: "('q, 'k, 'd, 'f) player" and A R :: "('q \<times> bytes) list"
    and B :: "('q, 'f) command list"
  assumes recorder: "recording C D pcm P r n p0" and packets: "snd ` (set A \<union> set R) \<subseteq> P"
    and commands: "session_commands B"
begin

text \<open>While the player runs, what it has handled and what is queued is a merge of what the three have sent; it has
  asked the control sender for what is on the wire or still on the way.\<close>

definition going_on :: "('q, 'k, 'd, 'f, 'c, 'e) live \<Rightarrow> ('q, 'k, 'd, 'f) player \<Rightarrow> bool" where
  "going_on s p \<longleftrightarrow>
     (\<exists>as cs bs ps del os rs.
        A = as @ inbound (audio_packet rtp) (audio (session s)) \<and>
        R = cs @ inbound (control_packet Q rtp) (control (session s)) \<and> B = bs @ asking s \<and>
        ps \<in> shuffles as cs \<and> del @ chan_items K (queue (session s)) \<in> shuffles (map put ps) bs \<and>
        length (command_list (chan_items K (queue (session s)))) = of_bool (awaiting_reply s) \<and>
        task_loop (player_body Q C) p0 (requested_of net del) = (os, Waiting p) \<and>
        (recording C D pcm P r n p \<and> Teardown \<notin> set del \<or>
         torn_down p \<and> unsent (session s) = None \<and> (\<exists>xs. del = xs @ [Teardown])) \<and>
        gap_requests os = rs @ chan_items L (gaps (session s)) @ as_list (unsent (session s)) \<and>
        wire (session s) = map (retransmit_request Q) rs)"

text \<open>What ends the player is a packet behind TEARDOWN.\<close>

definition crashed :: "unit outcome \<Rightarrow> bool" where
  "crashed e \<longleftrightarrow> e = Panic \<and>
     (\<exists>as cs as' cs' ps xs x ys os. A = as @ as' \<and> R = cs @ cs' \<and> ps \<in> shuffles as cs \<and>
        (xs @ [Teardown, put x]) @ ys \<in> shuffles (map put ps) B \<and>
        task_loop (player_body Q C) p0 (requested_of net (xs @ [Teardown, put x])) = (os, Finished Panic))"

definition live_inv :: "('q, 'k, 'd, 'f, 'c, 'e) live \<Rightarrow> bool" where
  "live_inv s \<longleftrightarrow> number s = n \<and> rx_live fits (told s) (audio (session s)) \<and>
     rx_live (fits_control rtp) (told s) (control (session s)) \<and> sender_live (told s) (sender_task (session s)) \<and>
     (case player_task (session s) of Waiting p \<Rightarrow> going_on s p | Finished e \<Rightarrow> crashed e)"

lemma going_onI:
  assumes "A = as @ inbound (audio_packet rtp) (audio (session s))"
    and "R = cs @ inbound (control_packet Q rtp) (control (session s))" and "B = bs @ asking s"
    and "ps \<in> shuffles as cs" and "del @ chan_items K (queue (session s)) \<in> shuffles (map put ps) bs"
    and "length (command_list (chan_items K (queue (session s)))) = of_bool (awaiting_reply s)"
    and "task_loop (player_body Q C) p0 (requested_of net del) = (os, Waiting p)"
    and "recording C D pcm P r n p \<and> Teardown \<notin> set del \<or>
       torn_down p \<and> unsent (session s) = None \<and> (\<exists>xs. del = xs @ [Teardown])"
    and "gap_requests os = rs @ chan_items L (gaps (session s)) @ as_list (unsent (session s))"
    and "wire (session s) = map (retransmit_request Q) rs"
  shows "going_on s p"
  using assms unfolding going_on_def by blast

lemma going_onE:
  assumes "going_on s p"
  obtains as cs bs ps del os rs where "A = as @ inbound (audio_packet rtp) (audio (session s))"
    and "R = cs @ inbound (control_packet Q rtp) (control (session s))" and "B = bs @ asking s"
    and "ps \<in> shuffles as cs" and "del @ chan_items K (queue (session s)) \<in> shuffles (map put ps) bs"
    and "length (command_list (chan_items K (queue (session s)))) = of_bool (awaiting_reply s)"
    and "task_loop (player_body Q C) p0 (requested_of net del) = (os, Waiting p)"
    and "recording C D pcm P r n p \<and> Teardown \<notin> set del \<or>
       torn_down p \<and> unsent (session s) = None \<and> (\<exists>xs. del = xs @ [Teardown])"
    and "gap_requests os = rs @ chan_items L (gaps (session s)) @ as_list (unsent (session s))"
    and "wire (session s) = map (retransmit_request Q) rs"
  using assms unfolding going_on_def by blast

lemma live_inv_start:
  assumes "A = List.map_filter (audio_packet rtp) ds" "R = List.map_filter (control_packet Q rtp) cs"
    and "list_all fits ds" "list_all (fits_control rtp) cs"
  shows "live_inv (live_start K L p0 n ds cs B)"
proof -
  have "going_on (live_start K L p0 n ds cs B) p0"
    by (rule going_onI[where as = "[]" and cs = "[]" and bs = "[]" and ps = "[]" and del = "[]" and os = "[]" and rs = "[]"])
      (use recorder assms(1,2) in \<open>simp_all add: live_start_def streaming_start_def inbound_start packet_side_def
        requested_of_def gap_requests_def map_filter_simps cmds.new_empty ranges.new_empty\<close>)
  then show ?thesis using assms(3,4) receiver_inv_new[of 4096]
    by (simp add: live_inv_def live_start_def streaming_start_def rx_start_def rx_live_def sender_live_def shutdown_new_def
        is_shutdown_def)
qed

text \<open>What keeps the player and what it deals with keeps the history.\<close>

lemma going_on_frame:
  assumes "going_on s p" and "asking s' = asking s" "awaiting_reply s' = awaiting_reply s"
    and "inbound (audio_packet rtp) (audio (session s')) = inbound (audio_packet rtp) (audio (session s))"
    and "inbound (control_packet Q rtp) (control (session s')) = inbound (control_packet Q rtp) (control (session s))"
    and "queue (session s') = queue (session s)" "gaps (session s') = gaps (session s)"
    and "unsent (session s') = unsent (session s)" "wire (session s') = wire (session s)"
  shows "going_on s' p"
  using assms unfolding going_on_def by simp

lemma told_phase:
  assumes "number s = n" "going_on s p" "player_task (session s) = Waiting p"
  shows "told s \<longleftrightarrow> torn_down p" and "torn_down p \<Longrightarrow> unsent (session s) = None"
    and "\<not> torn_down p \<Longrightarrow> recording C D pcm P r n p"
  using assms by (auto simp: told_def going_on_def recording_def torn_down_def records_def)

section \<open>Turns keep the invariant\<close>

lemma audio_live:
  assumes inv: "live_inv s" and step: "live_step K L Q C net rtp (Takes AudioReceives) s = Some s'"
  shows "live_inv s'"
proof -
  obtain rx c where turn: "receiver_turn (packet_side K) (server_receiver_body rtp) (running (player_task (session s)))
      (audio (session s)) (queue (session s)) = Some (rx, c)" and s': "s' = s\<lparr>session := (session s)\<lparr>audio := rx, queue := c\<rparr>\<rparr>"
    using step by auto
  have "\<not> running (player_task (session s)) \<Longrightarrow> told s" by (auto simp: told_def running_def split: status.splits)
  note rx = receiver_turn_live[OF turn audio_reads _ this] and told = inv[unfolded live_inv_def]
  have same: "told s' = told s" by (simp add: told_def s' split: status.split)
  show ?thesis
  proof (cases "player_task (session s)")
    case (Waiting p)
    then have "going_on s p" using told by simp
    then show ?thesis
    proof (rule going_onE)
      fix as cs bs ps del os rs
      assume h: "A = as @ inbound (audio_packet rtp) (audio (session s))"
        "R = cs @ inbound (control_packet Q rtp) (control (session s))" "B = bs @ asking s"
        "ps \<in> shuffles as cs" "del @ chan_items K (queue (session s)) \<in> shuffles (map put ps) bs"
        "length (command_list (chan_items K (queue (session s)))) = of_bool (awaiting_reply s)"
        "task_loop (player_body Q C) p0 (requested_of net del) = (os, Waiting p)"
        "recording C D pcm P r n p \<and> Teardown \<notin> set del \<or>
           torn_down p \<and> unsent (session s) = None \<and> (\<exists>xs. del = xs @ [Teardown])"
        "gap_requests os = rs @ chan_items L (gaps (session s)) @ as_list (unsent (session s))"
        "wire (session s) = map (retransmit_request Q) rs"
      obtain xs where xs: "chan_items K c = chan_items K (queue (session s)) @ map put xs"
        "inbound (audio_packet rtp) (audio (session s)) = xs @ inbound (audio_packet rtp) rx"
        using rx told Waiting by auto
      have "going_on s' p"
        by (rule going_onI[where as = "as @ xs" and cs = cs and bs = bs and ps = "ps @ xs" and del = del and os = os and rs = rs])
          (use h xs shuffles_append_left[OF h(4)] shuffles_append_left[OF h(5), of "map put xs"] in \<open>simp_all add: s'\<close>)
      then show ?thesis using told Waiting rx by (simp add: live_inv_def same) (simp add: s')
    qed
  next
    case (Finished e)
    then show ?thesis using told rx by (simp add: live_inv_def same) (simp add: s')
  qed
qed

lemma control_live:
  assumes inv: "live_inv s" and step: "live_step K L Q C net rtp (Takes ControlReceives) s = Some s'"
  shows "live_inv s'"
proof -
  obtain rx c where turn: "receiver_turn (packet_side K) (control_receiver_body Q rtp) (running (player_task (session s)))
      (control (session s)) (queue (session s)) = Some (rx, c)" and s': "s' = s\<lparr>session := (session s)\<lparr>control := rx, queue := c\<rparr>\<rparr>"
    using step by auto
  have "\<not> running (player_task (session s)) \<Longrightarrow> told s" by (auto simp: told_def running_def split: status.splits)
  note rx = receiver_turn_live[OF turn reader.control_reads _ this] and told = inv[unfolded live_inv_def]
  have same: "told s' = told s" by (simp add: told_def s' split: status.split)
  show ?thesis
  proof (cases "player_task (session s)")
    case (Waiting p)
    then have "going_on s p" using told by simp
    then show ?thesis
    proof (rule going_onE)
      fix as cs bs ps del os rs
      assume h: "A = as @ inbound (audio_packet rtp) (audio (session s))"
        "R = cs @ inbound (control_packet Q rtp) (control (session s))" "B = bs @ asking s"
        "ps \<in> shuffles as cs" "del @ chan_items K (queue (session s)) \<in> shuffles (map put ps) bs"
        "length (command_list (chan_items K (queue (session s)))) = of_bool (awaiting_reply s)"
        "task_loop (player_body Q C) p0 (requested_of net del) = (os, Waiting p)"
        "recording C D pcm P r n p \<and> Teardown \<notin> set del \<or>
           torn_down p \<and> unsent (session s) = None \<and> (\<exists>xs. del = xs @ [Teardown])"
        "gap_requests os = rs @ chan_items L (gaps (session s)) @ as_list (unsent (session s))"
        "wire (session s) = map (retransmit_request Q) rs"
      obtain xs where xs: "chan_items K c = chan_items K (queue (session s)) @ map put xs"
        "inbound (control_packet Q rtp) (control (session s)) = xs @ inbound (control_packet Q rtp) rx"
        using rx told Waiting by auto
      have "going_on s' p"
        by (rule going_onI[where as = as and cs = "cs @ xs" and bs = bs and ps = "ps @ xs" and del = del and os = os and rs = rs])
          (use h xs shuffles_append_right[OF h(4)] shuffles_append_left[OF h(5), of "map put xs"] in \<open>simp_all add: s'\<close>)
      then show ?thesis using told Waiting rx by (simp add: live_inv_def same) (simp add: s')
    qed
  next
    case (Finished e)
    then show ?thesis using told rx by (simp add: live_inv_def same) (simp add: s')
  qed
qed

lemma sender_keeps:
  assumes inv: "live_inv s" and step: "live_step K L Q C net rtp (Takes SenderSends) s = Some s'"
  shows "live_inv s'"
proof -
  obtain st where turn: "sender_turn L Q (session s) = Some st" and s': "s' = s\<lparr>session := st\<rparr>"
    using step by auto
  note told = inv[unfolded live_inv_def]
  from turn show ?thesis
  proof (rule sender_turnE)
    fix sd rg g
    assume sd: "sender_task (session s) = Waiting sd" and recv: "chan_recv L (gaps (session s)) = Some (rg, g)"
      and "st = (if is_shutdown sd then (session s)\<lparr>gaps := g, sender_task := Finished (Ok ())\<rparr>
        else (session s)\<lparr>gaps := g, sender_task := Waiting sd, wire := wire (session s) @ [retransmit_request Q rg]\<rparr>)"
    moreover have "\<not> is_shutdown sd" using told sd by (simp add: sender_live_def)
    ultimately have st: "st = (session s)\<lparr>gaps := g, sender_task := Waiting sd,
        wire := wire (session s) @ [retransmit_request Q rg]\<rparr>" by simp
    have same: "told s' = told s" by (simp add: told_def s' st split: status.split)
    have items: "chan_items L (gaps (session s)) = rg # chan_items L g" by (rule ranges.recv_takes[OF recv])
    show ?thesis
    proof (cases "player_task (session s)")
      case (Waiting p)
      then have "going_on s p" using told by simp
      then have "going_on s' p"
      proof (rule going_onE)
        fix as cs bs ps del os rs
        assume h: "A = as @ inbound (audio_packet rtp) (audio (session s))"
          "R = cs @ inbound (control_packet Q rtp) (control (session s))" "B = bs @ asking s"
          "ps \<in> shuffles as cs" "del @ chan_items K (queue (session s)) \<in> shuffles (map put ps) bs"
          "length (command_list (chan_items K (queue (session s)))) = of_bool (awaiting_reply s)"
          "task_loop (player_body Q C) p0 (requested_of net del) = (os, Waiting p)"
          "recording C D pcm P r n p \<and> Teardown \<notin> set del \<or>
             torn_down p \<and> unsent (session s) = None \<and> (\<exists>xs. del = xs @ [Teardown])"
          "gap_requests os = rs @ chan_items L (gaps (session s)) @ as_list (unsent (session s))"
          "wire (session s) = map (retransmit_request Q) rs"
        show ?thesis
          by (rule going_onI[where as = as and cs = cs and bs = bs and ps = ps and del = del and os = os and rs = "rs @ [rg]"])
            (use h items in \<open>simp_all add: s' st\<close>)
      qed
      then show ?thesis using told Waiting sd by (simp add: live_inv_def same) (simp add: s' st)
    next
      case (Finished e)
      then show ?thesis using told sd by (simp add: live_inv_def same) (simp add: s' st)
    qed
  qed
qed

lemma stopped_keeps:
  assumes inv: "live_inv s" and s': "s' = s\<lparr>session := st\<rparr>"
    and sides: "rx_live fits (told s) (audio st)" "rx_live (fits_control rtp) (told s) (control st)"
      "sender_live (told s) (sender_task st)"
    and same: "player_task st = player_task (session s)" "queue st = queue (session s)" "gaps st = gaps (session s)"
      "unsent st = unsent (session s)" "wire st = wire (session s)"
      "inbound (audio_packet rtp) (audio st) = inbound (audio_packet rtp) (audio (session s))"
      "inbound (control_packet Q rtp) (control st) = inbound (control_packet Q rtp) (control (session s))"
  shows "live_inv s'"
proof -
  note told = inv[unfolded live_inv_def]
  have same_told: "told s' = told s" using same(1) by (simp add: told_def s' split: status.split)
  show ?thesis
  proof (cases "player_task (session s)")
    case (Waiting p)
    then have "going_on s p" using told by simp
    then have "going_on s' p" by (rule going_on_frame) (use same in \<open>simp_all add: s'\<close>)
    then show ?thesis using told sides same(1) Waiting by (simp add: live_inv_def same_told) (simp add: s')
  next
    case (Finished x)
    then show ?thesis using told sides same(1) by (simp add: live_inv_def same_told) (simp add: s')
  qed
qed

lemma told_live:
  assumes inv: "live_inv s" and step: "live_step K L Q C net rtp t s = Some s'" and "t \<in> {AudioTold, ControlTold, SenderTold}"
  shows "live_inv s'"
proof -
  have told: "told s" using step assms(3) by (auto split: if_splits)
  note sides = inv[unfolded live_inv_def]
  consider rx where "t = AudioTold" "receiver_told (server_receiver_body rtp) (audio (session s)) = Some rx"
      "s' = s\<lparr>session := (session s)\<lparr>audio := rx\<rparr>\<rparr>"
    | rx where "t = ControlTold" "receiver_told (control_receiver_body Q rtp) (control (session s)) = Some rx"
      "s' = s\<lparr>session := (session s)\<lparr>control := rx\<rparr>\<rparr>"
    | st where "t = SenderTold" "sender_told Q (sender_task (session s)) = Some st"
      "s' = s\<lparr>session := (session s)\<lparr>sender_task := st\<rparr>\<rparr>"
    using step assms(3) told by auto
  then show ?thesis
  proof cases
    case 1
    then obtain e where "rx = audio (session s)\<lparr>rx_task := Finished e\<rparr>" "held (audio (session s)) = None"
      using receiver_told_ends[OF 1(2)] stop_returns(1) by blast
    then show ?thesis by (intro stopped_keeps[OF inv 1(3)]) (use sides told in \<open>simp_all add: rx_live_told\<close>)
  next
    case 2
    then obtain e where "rx = control (session s)\<lparr>rx_task := Finished e\<rparr>" "held (control (session s)) = None"
      using receiver_told_ends[OF 2(2)] stop_returns(2) by blast
    then show ?thesis by (intro stopped_keeps[OF inv 2(3)]) (use sides told in \<open>simp_all add: rx_live_told\<close>)
  next
    case 3
    then obtain e where "st = Finished e" using sender_told_ends by blast
    then show ?thesis by (intro stopped_keeps[OF inv 3(3)]) (use sides told in \<open>simp_all add: sender_live_def\<close>)
  qed
qed

lemma handler_live:
  assumes inv: "live_inv s" and step: "live_step K L Q C net rtp HandlerAsks s = Some s'"
  shows "live_inv s'"
proof -
  note told = inv[unfolded live_inv_def]
  have "handler_asks K s = Some s'" using step by simp
  then show ?thesis
  proof (cases rule: handler_asksE)
    case (sent cmd cmds c)
    obtain p where p: "player_task (session s) = Waiting p" using sent(1) by (cases "player_task (session s)") auto
    have same: "told s' = told s" by (simp add: told_def sent(5) split: status.split)
    have items: "chan_items K c = chan_items K (queue (session s)) @ [cmd]" by (rule cmds.send_appends[OF sent(4)])
    have "going_on s p" using told p by simp
    then have "going_on s' p"
    proof (rule going_onE)
      fix as cs bs ps del os rs
      assume h: "A = as @ inbound (audio_packet rtp) (audio (session s))"
        "R = cs @ inbound (control_packet Q rtp) (control (session s))" "B = bs @ asking s"
        "ps \<in> shuffles as cs" "del @ chan_items K (queue (session s)) \<in> shuffles (map put ps) bs"
        "length (command_list (chan_items K (queue (session s)))) = of_bool (awaiting_reply s)"
        "task_loop (player_body Q C) p0 (requested_of net del) = (os, Waiting p)"
        "recording C D pcm P r n p \<and> Teardown \<notin> set del \<or>
           torn_down p \<and> unsent (session s) = None \<and> (\<exists>xs. del = xs @ [Teardown])"
        "gap_requests os = rs @ chan_items L (gaps (session s)) @ as_list (unsent (session s))"
        "wire (session s) = map (retransmit_request Q) rs"
      have "cmd \<in> set B" using h(3) sent(3) by simp
      then have "\<not> is_packet cmd" using session_commands_member[OF commands] steady_not_packet by fastforce
      then show ?thesis
        by (intro going_onI[where as = as and cs = cs and bs = "bs @ [cmd]" and ps = ps and del = del and os = os and rs = rs])
          (use h sent items shuffles_append_right[OF h(5), of "[cmd]"] in \<open>simp_all add: sent(5)\<close>)
    qed
    then show ?thesis using told p by (simp add: live_inv_def same) (simp add: sent(5))
  next
    case failed
    obtain e where e: "player_task (session s) = Finished e" using failed(1) by (cases "player_task (session s)") auto
    have "told s' = told s" by (simp add: told_def failed(3) split: status.split)
    then show ?thesis using told e by (simp add: live_inv_def) (simp add: failed(3))
  qed
qed

lemma merge_commands:
  assumes "zs \<in> shuffles (map put ps) bs" "B = bs @ rest"
  shows "command_list zs = bs"
proof (rule command_list_merge[OF assms(1)])
  have "\<forall>cmd \<in> set B. \<not> is_packet cmd" using session_commands_member[OF commands] steady_not_packet by fastforce
  then show "list_all (\<lambda>cmd. \<not> is_packet cmd) bs" using assms(2) by (simp add: list_all_iff)
qed

lemma behind_teardown:
  assumes "(xs @ [Teardown]) @ zs \<in> shuffles (map put ps) bs" "B = bs @ rest"
  shows "command_list zs = [] \<and> rest = []"
proof -
  have "B = command_list xs @ Teardown # (command_list zs @ rest)"
    using merge_commands[OF assms] assms(2) by simp
  from session_commands_last[OF commands this] show ?thesis by simp
qed

lemma next_command:
  assumes "zs \<in> shuffles (map put ps) bs" "cmd \<in> set zs" "ps \<in> shuffles as cs" "A = as @ as'" "R = cs @ cs'" "B = bs @ rest"
  obtains (packet) sq pk where "cmd = PutPacket sq pk" "pk \<in> P" | (steady) "steady cmd" | (teardown) "cmd = Teardown"
proof -
  have "set zs = put ` set ps \<union> set bs" "set ps = set as \<union> set cs"
    using set_shuffles[OF assms(1)] set_shuffles[OF assms(3)] by simp_all
  then have "cmd \<in> put ` (set A \<union> set R) \<or> cmd \<in> set B" using assms(2,4-6) by auto
  then show ?thesis
  proof
    assume "cmd \<in> put ` (set A \<union> set R)"
    then show ?thesis using packets packet by (fastforce simp: put_def)
  next
    assume "cmd \<in> set B"
    then show ?thesis using session_commands_member[OF commands] steady teardown by blast
  qed
qed

lemma requested_of_snoc: "requested_of net (del @ [cmd]) = requested_of net del @ [Request cmd net True]"
  by (simp add: requested_of_def)

lemma player_live:
  assumes inv: "live_inv s" and step: "live_step K L Q C net rtp (Takes PlayerPlays) s = Some s'"
  shows "live_inv s'"
proof -
  note sides = inv[unfolded live_inv_def]
  have takes: "player_takes K L Q C net s = Some s'" using step by simp
  then obtain p where p: "player_task (session s) = Waiting p" by (cases rule: player_takesE) auto
  then have on: "going_on s p" using sides by simp
  note phase = told_phase[OF conjunct1[OF sides] on p]
  from on show ?thesis
  proof (rule going_onE)
    fix as cs bs ps del os rs
    assume h: "A = as @ inbound (audio_packet rtp) (audio (session s))"
      "R = cs @ inbound (control_packet Q rtp) (control (session s))" "B = bs @ asking s"
      "ps \<in> shuffles as cs" "del @ chan_items K (queue (session s)) \<in> shuffles (map put ps) bs"
      "length (command_list (chan_items K (queue (session s)))) = of_bool (awaiting_reply s)"
      "task_loop (player_body Q C) p0 (requested_of net del) = (os, Waiting p)"
      "recording C D pcm P r n p \<and> Teardown \<notin> set del \<or>
         torn_down p \<and> unsent (session s) = None \<and> (\<exists>xs. del = xs @ [Teardown])"
      "gap_requests os = rs @ chan_items L (gaps (session s)) @ as_list (unsent (session s))"
      "wire (session s) = map (retransmit_request Q) rs"
    from takes show ?thesis
    proof (cases rule: player_takesE)
      case (sent q rg g)
      have "told s' = told s" by (simp add: told_def sent(5) split: status.split)
      moreover have "going_on s' p"
        by (rule going_onI[where as = as and cs = cs and bs = bs and ps = ps and del = del and os = os and rs = rs])
          (use h sent ranges.send_appends[OF sent(4)] in simp_all)
      ultimately show ?thesis using sides p by (simp add: live_inv_def) (simp add: sent(5))
    next
      case (refused q rg)
      then have "told s" using sides by (auto simp: sender_live_def running_def split: status.splits)
      then show ?thesis using phase(1,2) refused(2) by simp
    next
      case (handled q cmd c p' os')
      have body: "player_body Q C p (Request cmd net True) = Continue p' os'" using handled p by simp
      have items: "chan_items K (queue (session s)) = cmd # chan_items K c" by (rule cmds.recv_takes[OF handled(3)])
      have merge: "del @ cmd # chan_items K c \<in> shuffles (map put ps) bs" using h(5) items by simp
      have run: "task_loop (player_body Q C) p0 (requested_of net (del @ [cmd])) = (os @ os', Waiting p')"
        using task_loop_append[OF h(7)] body by (simp add: requested_of_snoc)
      have awaits: "length (command_list (chan_items K c)) = of_bool (awaiting_reply s \<and> is_packet cmd)"
        using h(6) items by (cases "awaiting_reply s") (auto split: if_splits)
      have "(recording C D pcm P r n p' \<and> cmd \<noteq> Teardown \<or> torn_down p' \<and> to_sender os' = None \<and> cmd = Teardown) \<and>
          gap_requests os' = as_list (to_sender os') \<and> Teardown \<notin> set del \<and> recording C D pcm P r n p"
      proof (cases "recording C D pcm P r n p \<and> Teardown \<notin> set del")
        case True
        have "cmd \<in> set (del @ cmd # chan_items K c)" by simp
        from merge this h(4,1,2,3) show ?thesis
        proof (cases rule: next_command)
          case (packet sq pk)
          then show ?thesis using recording_keeps[OF numbers.seq_api_axioms conjunct1[OF True], of cmd sq pk net] body True by auto
        next
          case steady
          then show ?thesis using recording_keeps[OF numbers.seq_api_axioms conjunct1[OF True], of cmd _ _ net] body True by auto
        next
          case teardown
          then show ?thesis using recording_torn_down[OF conjunct1[OF True], of Q net] body True by auto
        qed
      next
        case False
        then obtain xs where torn: "torn_down p" "del = xs @ [Teardown]" using h(8) by blast
        then have "is_packet cmd" using behind_teardown[of xs "cmd # chan_items K c" ps bs] merge h(3) by (auto split: if_splits)
        then show ?thesis using torn_down_panics[OF torn(1)] body by (cases cmd) (auto simp: is_packet_def)
      qed
      then have next': "recording C D pcm P r n p' \<and> Teardown \<notin> set (del @ [cmd]) \<or>
            torn_down p' \<and> to_sender os' = None \<and> (\<exists>xs. del @ [cmd] = xs @ [Teardown])"
        and gaps: "gap_requests os' = as_list (to_sender os')" and rec: "recording C D pcm P r n p" by auto
      have "\<not> told s" using phase(1) rec by (auto simp: recording_def torn_down_def)
      then have more: "rx_live fits (told s') (audio (session s))" "rx_live (fits_control rtp) (told s') (control (session s))"
        "sender_live (told s') (sender_task (session s))"
        using sides by (auto elim: rx_live_mono sender_live_mono)
      have "going_on s' p'"
        by (rule going_onI[where as = as and cs = cs and bs = bs and ps = ps and del = "del @ [cmd]" and os = "os @ os'" and rs = rs])
          (use h(1-4,9,10) merge awaits run next' gaps handled(2,5) in simp_all)
      then show ?thesis using sides more unfolding live_inv_def by (simp add: handled(5))
    next
      case (ended q cmd c e os')
      have body: "player_body Q C p (Request cmd net True) = Return e os'" using ended p by simp
      have items: "chan_items K (queue (session s)) = cmd # chan_items K c" by (rule cmds.recv_takes[OF ended(3)])
      have merge: "del @ cmd # chan_items K c \<in> shuffles (map put ps) bs" using h(5) items by simp
      have "\<not> recording C D pcm P r n p"
      proof
        assume rec: "recording C D pcm P r n p"
        have "cmd \<in> set (del @ cmd # chan_items K c)" by simp
        from merge this h(4,1,2,3) show False
        proof (cases rule: next_command)
          case (packet sq pk)
          then show ?thesis using recording_keeps[OF numbers.seq_api_axioms rec, of cmd sq pk net] body by auto
        next
          case steady
          then show ?thesis using recording_keeps[OF numbers.seq_api_axioms rec, of cmd _ _ net] body by auto
        next
          case teardown
          then show ?thesis using recording_torn_down[OF rec, of Q net] body by auto
        qed
      qed
      then obtain xs where torn: "torn_down p" "del = xs @ [Teardown]" using h(8) by blast
      have behind: "is_packet cmd" "asking s = []"
        using behind_teardown[of xs "cmd # chan_items K c" ps bs] merge h(3) torn(2) by (auto split: if_splits)
      then obtain x where x: "cmd = put x" by (cases cmd) (auto simp: is_packet_def put_def)
      then have e: "e = Panic" "os' = []" using torn_down_panics[OF torn(1)] body by (auto simp: put_def)
      have "task_loop (player_body Q C) p0 (requested_of net (xs @ [Teardown, put x])) = (os, Finished Panic)"
        using task_loop_append[OF h(7), of "[Request cmd net True]"] body torn(2) x e
          requested_of_snoc[of del cmd] by simp
      moreover have "(xs @ [Teardown, put x]) @ chan_items K c \<in> shuffles (map put ps) B"
        using merge torn(2) x behind(2) h(3) by simp
      ultimately have "crashed e" using e h(1,2,4) unfolding crashed_def by blast
      moreover have "told s'" by (simp add: told_def ended(5))
      moreover have "told s" using phase(1) torn(1) by simp
      ultimately show ?thesis using sides by (simp add: live_inv_def) (simp add: ended(5))
    qed
  qed
qed

lemma step_live: "live_inv s \<Longrightarrow> live_step K L Q C net rtp t s = Some s' \<Longrightarrow> live_inv s'"
proof (cases t)
  case (Takes u)
  assume "live_inv s" "live_step K L Q C net rtp t s = Some s'"
  then show ?thesis using Takes by (cases u) (auto intro: audio_live control_live player_live sender_keeps simp del: live_step.simps)
qed (auto intro: handler_live told_live simp del: live_step.simps)

lemma run_live: "live_inv s \<Longrightarrow> live_run K L Q C net rtp ts s = Some s' \<Longrightarrow> live_inv s'"
proof (induction ts arbitrary: s)
  case (Cons t ts)
  then obtain s1 where "live_step K L Q C net rtp t s = Some s1" "live_run K L Q C net rtp ts s1 = Some s'"
    by (auto simp: bind_eq_Some_conv simp del: live_step.simps)
  then show ?case using Cons step_live by blast
qed simp

end

end
