(* ===== verification/Session_End.thy ===== *)
theory Session_End
  imports Session_History
begin

text \<open>
  How a session with commands ends: what is left when no task can act, and schedules to both ends of the race between
  TEARDOWN and the packets that are still on their way.
\<close>

context live_session
begin

section \<open>What is left at rest\<close>

lemma rest_sender:
  assumes "live_inv s" "at_rest K L Q C net rtp s"
  shows "told s \<and> \<not> running (sender_task (session s)) \<or>
     \<not> told s \<and> running (sender_task (session s)) \<and> chan_items L (gaps (session s)) = []"
proof -
  have none: "live_step K L Q C net rtp t s = None" for t using assms(2) by (simp only: at_rest_iff)
  have live: "sender_live (told s) (sender_task (session s))" using assms(1) by (simp add: live_inv_def)
  show ?thesis
  proof (cases "sender_task (session s)")
    case (Waiting sd)
    obtain e os where "control_sender_body Q sd StopSender = Return e os" using stop_returns(3) by blast
    then have "\<not> told s" using none[of SenderTold] Waiting by (auto simp: sender_told_def split: step.splits)
    moreover have "chan_recv L (gaps (session s)) = None"
      using none[of "Takes SenderSends"] Waiting by (auto simp: sender_turn_def split: option.splits step.splits)
    ultimately show ?thesis using Waiting by (simp add: ranges.recv_waits)
  next
    case (Finished e)
    then show ?thesis using live by (simp add: sender_live_def)
  qed
qed

lemma rest_player:
  assumes "live_inv s" "at_rest K L Q C net rtp s" "player_task (session s) = Waiting p"
  shows "unsent (session s) = None \<and> chan_items K (queue (session s)) = [] \<and> asking s = [] \<and> \<not> awaiting_reply s"
proof -
  have none: "live_step K L Q C net rtp t s = None" for t using assms(2) by (simp only: at_rest_iff)
  have on: "going_on s p" using assms(1,3) by (simp add: live_inv_def)
  have num: "number s = n" using assms(1) by (simp add: live_inv_def)
  have unsent: "unsent (session s) = None"
  proof (cases "told s")
    case True
    then show ?thesis using told_phase[OF num on assms(3)] by simp
  next
    case False
    then have snd: "running (sender_task (session s))" "chan_items L (gaps (session s)) = []" using rest_sender[OF assms(1,2)] by auto
    show ?thesis
    proof (cases "unsent (session s)")
      case (Some rg)
      then have "chan_send L (gaps (session s)) rg = None"
        using none[of "Takes PlayerPlays"] assms(3) snd(1) by (simp add: player_takes_def player_turn_def Let_def)
      then show ?thesis using snd(2) by (simp add: ranges.send_waits)
    qed simp
  qed
  then have "chan_recv K (queue (session s)) = None"
    using none[of "Takes PlayerPlays"] assms(3) by (auto simp: player_takes_def Let_def split: option.splits step.splits)
  then have queue: "chan_items K (queue (session s)) = []" by (simp only: cmds.recv_waits)
  then have awaits: "\<not> awaiting_reply s" using on by (auto simp: going_on_def)
  have "handler_asks K s = None" using none[of HandlerAsks] by simp
  then have "asking s = []"
    using assms(3) awaits queue cmds.send_waits[of "queue (session s)"] by (cases "asking s") (auto simp: handler_asks_def)
  then show ?thesis using unsent queue awaits by simp
qed

lemma rest_receiver:
  assumes "receiver_turn (packet_side K) body alive rx c = None" "rx_live Dg b rx"
    and "alive \<Longrightarrow> chan_items K c = []" "b \<Longrightarrow> receiver_told body rx = None" "\<not> alive \<Longrightarrow> b"
    and "\<And>st. \<exists>e os. body st StopReceiver = Return e os"
  shows "if b then \<not> running (rx_task rx) else held rx = None \<and> inbox rx = []"
proof (cases "rx_task rx")
  case (Waiting st)
  have "held rx = None"
  proof (cases "held rx")
    case (Some x)
    then show ?thesis using assms(1,3) Waiting receiver_waits[of body alive rx c st]
      by (cases alive) (auto simp: receiver_turn_def)
  qed simp
  moreover obtain e os where "body st StopReceiver = Return e os" using assms(6) by blast
  ultimately have "\<not> b" using assms(4) Waiting by (auto simp: receiver_told_def)
  then show ?thesis using assms(1,3,5) Waiting receiver_waits[of body alive rx c st] by auto
next
  case (Finished e)
  then show ?thesis using assms(2) by (auto simp: rx_live_def)
qed

lemma rest_receivers:
  assumes "live_inv s" "at_rest K L Q C net rtp s"
  shows "if told s then \<not> running (rx_task (audio (session s))) \<and> \<not> running (rx_task (control (session s)))
     else held (audio (session s)) = None \<and> inbox (audio (session s)) = [] \<and>
       held (control (session s)) = None \<and> inbox (control (session s)) = []"
proof -
  have none: "live_step K L Q C net rtp t s = None" for t using assms(2) by (simp only: at_rest_iff)
  have sides: "rx_live fits (told s) (audio (session s))" "rx_live (fits_control rtp) (told s) (control (session s))"
    using assms(1) by (simp_all add: live_inv_def)
  have queue: "running (player_task (session s)) \<Longrightarrow> chan_items K (queue (session s)) = []"
    using rest_player[OF assms] by (auto simp: running_def split: status.splits)
  have gone: "\<not> running (player_task (session s)) \<Longrightarrow> told s" by (auto simp: told_def running_def split: status.splits)
  have turn1: "receiver_turn (packet_side K) (server_receiver_body rtp) (running (player_task (session s)))
      (audio (session s)) (queue (session s)) = None" using none[of "Takes AudioReceives"] by simp
  have notice1: "told s \<Longrightarrow> receiver_told (server_receiver_body rtp) (audio (session s)) = None" using none[of AudioTold] by simp
  have audio: "if told s then \<not> running (rx_task (audio (session s))) else held (audio (session s)) = None \<and> inbox (audio (session s)) = []"
    by (rule rest_receiver[OF turn1 sides(1) queue notice1 gone]) (assumption | rule stop_returns)+
  have turn2: "receiver_turn (packet_side K) (control_receiver_body Q rtp) (running (player_task (session s)))
      (control (session s)) (queue (session s)) = None" using none[of "Takes ControlReceives"] by simp
  have notice2: "told s \<Longrightarrow> receiver_told (control_receiver_body Q rtp) (control (session s)) = None" using none[of ControlTold] by simp
  have control: "if told s then \<not> running (rx_task (control (session s)))
      else held (control (session s)) = None \<and> inbox (control (session s)) = []"
    by (rule rest_receiver[OF turn2 sides(2) queue notice2 gone]) (assumption | rule stop_returns)+
  show ?thesis using audio control by (simp split: if_splits)
qed

section \<open>Schedules to both ends\<close>

text \<open>The player has nothing else to do than what the handler asks.\<close>

definition quiet :: "('q, 'k, 'd, 'f, 'c, 'e) live \<Rightarrow> bool" where
  "quiet s \<longleftrightarrow> unsent (session s) = None \<and> chan_items K (queue (session s)) = [] \<and> \<not> awaiting_reply s"

definition same_tasks :: "('q, 'k, 'd, 'f, 'c, 'e) live \<Rightarrow> ('q, 'k, 'd, 'f, 'c, 'e) live \<Rightarrow> bool" where
  "same_tasks s s' \<longleftrightarrow> audio (session s') = audio (session s) \<and> control (session s') = control (session s) \<and>
     sender_task (session s') = sender_task (session s) \<and> number s' = number s"

lemma ask_and_take:
  assumes "quiet s" "player_task (session s) = Waiting p" "asking s = cmd # rest" "\<not> is_packet cmd"
    and "player_body Q C p (Request cmd net True) = Continue p' os" "to_sender os = None"
  shows "\<exists>s'. live_run K L Q C net rtp [HandlerAsks, Takes PlayerPlays] s = Some s' \<and> quiet s' \<and>
     player_task (session s') = Waiting p' \<and> asking s' = rest \<and> same_tasks s s'"
proof -
  obtain c where c: "chan_send K (queue (session s)) cmd = Some c"
    using assms(1) cmds.send_waits[of "queue (session s)" cmd] by (cases "chan_send K (queue (session s)) cmd") (auto simp: quiet_def)
  have items: "chan_items K c = [cmd]" using cmds.send_appends[OF c] assms(1) by (simp add: quiet_def)
  then obtain x c' where "chan_recv K c = Some (x, c')"
    using cmds.recv_waits[of c] by (cases "chan_recv K c") auto
  then have "chan_recv K c = Some (cmd, c')" "chan_items K c' = []" using cmds.recv_takes[of c x c'] items by auto
  then show ?thesis using assms c
    by (simp add: handler_asks_def player_takes_def Let_def quiet_def same_tasks_def)
qed

lemma ask_all:
  assumes "quiet s" "player_task (session s) = Waiting p" "recording C D pcm P r n p" "asking s = xs @ rest" "list_all steady xs"
  shows "\<exists>ts s' p'. live_run K L Q C net rtp ts s = Some s' \<and> quiet s' \<and> player_task (session s') = Waiting p' \<and>
     recording C D pcm P r n p' \<and> asking s' = rest \<and> same_tasks s s'"
  using assms
proof (induction xs arbitrary: s p)
  case Nil
  then show ?case by (intro exI[of _ "[]"] exI[of _ s] exI[of _ p]) (simp add: same_tasks_def)
next
  case (Cons cmd xs)
  have steady: "steady cmd" using Cons.prems(5) by simp
  then obtain p1 os where p1: "player_body Q C p (Request cmd net True) = Continue p1 os" "recording C D pcm P r n p1"
    "to_sender os = None" using recording_keeps[OF numbers.seq_api_axioms Cons.prems(3), of cmd] by blast
  obtain s1 where s1: "live_run K L Q C net rtp [HandlerAsks, Takes PlayerPlays] s = Some s1" "quiet s1"
    "player_task (session s1) = Waiting p1" "asking s1 = xs @ rest" "same_tasks s s1"
    using ask_and_take[OF Cons.prems(1,2) _ steady_not_packet[OF steady] p1(1,3)] Cons.prems(4) by auto
  obtain ts s2 p2 where "live_run K L Q C net rtp ts s1 = Some s2" "quiet s2" "player_task (session s2) = Waiting p2"
    "recording C D pcm P r n p2" "asking s2 = rest" "same_tasks s1 s2"
    using Cons.IH[OF s1(2,3) p1(2) s1(4)] Cons.prems(5) by auto
  then show ?case using s1(1,5)
    by (intro exI[of _ "[HandlerAsks, Takes PlayerPlays] @ ts"] exI[of _ s2] exI[of _ p2])
      (simp only: live_run_append, simp add: same_tasks_def)
qed

lemma start_quiet:
  "quiet (live_start K L p0 n ds cs B)" "player_task (session (live_start K L p0 n ds cs B)) = Waiting p0"
  by (simp_all add: quiet_def live_start_def streaming_start_def packet_side_def cmds.new_empty)

text \<open>With nothing in flight the session ends as it should.\<close>

lemma teardown_ends_well:
  assumes "B = steadies @ [Teardown]" "list_all steady steadies"
  shows "\<exists>ts s' p'. live_run K L Q C net rtp ts (live_start K L p0 n ds cs B) = Some s' \<and> at_rest K L Q C net rtp s' \<and>
     player_task (session s') = Waiting p' \<and> torn_down p'"
proof -
  let ?s = "live_start K L p0 n ds cs B :: ('q, 'k, 'd, 'f, 'c, 'e) live"
  have "asking ?s = steadies @ [Teardown]" using assms(1) by (simp add: live_start_def)
  from ask_all[OF start_quiet recorder this assms(2)] obtain ts s1 p1 where s1: "live_run K L Q C net rtp ts ?s = Some s1" "quiet s1"
    "player_task (session s1) = Waiting p1" "recording C D pcm P r n p1" "asking s1 = [Teardown]" "same_tasks ?s s1" by blast
  obtain p2 os where p2: "player_body Q C p1 (Request Teardown net True) = Continue p2 os" "torn_down p2" "to_sender os = None"
    using recording_torn_down[OF s1(4)] by blast
  obtain s2 where s2: "live_run K L Q C net rtp [HandlerAsks, Takes PlayerPlays] s1 = Some s2" "quiet s2"
    "player_task (session s2) = Waiting p2" "asking s2 = []" "same_tasks s1 s2"
    using ask_and_take[OF s1(2,3,5) _ p2(1,3)] by auto
  have told: "told s2" using s2(3) p2(2) by (simp add: told_def torn_down_def)
  have tasks: "audio (session s2) = rx_start ds" "control (session s2) = rx_start cs"
    "sender_task (session s2) = Waiting shutdown_new" "number s2 = n"
    using s1(6) s2(5) by (simp_all add: same_tasks_def live_start_def streaming_start_def)
  define s3 where "s3 = s2\<lparr>session := (session s2)\<lparr>audio := (rx_start ds)\<lparr>rx_task := Finished (Ok ())\<rparr>,
    control := (rx_start cs)\<lparr>rx_task := Finished (Ok ())\<rparr>, sender_task := Finished (Ok ())\<rparr>\<rparr>"
  have run: "live_run K L Q C net rtp [AudioTold, ControlTold, SenderTold] s2 = Some s3"
    using told s2(3) tasks
    by (simp add: told_def receiver_told_def sender_told_def rx_start_def receiver_new_def body_defs recv_select_def
        shutdown_new_def is_shutdown_def s3_def)
  have "chan_recv K (queue (session s2)) = None" using s2(2) by (simp add: quiet_def cmds.recv_waits)
  then have "at_rest K L Q C net rtp s3"
    using s2(2,3,4) told by (simp add: at_rest_def s3_def rx_start_def receiver_turn_def player_takes_def Let_def quiet_def
        sender_turn_def handler_asks_def receiver_told_def sender_told_def)
  moreover have "live_run K L Q C net rtp (ts @ [HandlerAsks, Takes PlayerPlays] @ [AudioTold, ControlTold, SenderTold]) ?s = Some s3"
    using s1(1) s2(1) run by (simp only: live_run_append Option.bind.simps)
  moreover have "player_task (session s3) = Waiting p2" using s2(3) by (simp add: s3_def)
  ultimately show ?thesis using p2(2) by blast
qed

text \<open>With an audio packet in flight the player can crash.\<close>

lemma first_packet:
  assumes "list_all fits (inbox (audio (session s)))" "audio (session s) = \<lparr>inbox = ds, rx_task = Waiting st, held = None\<rparr>"
    and "receiver_inv 4096 st" "List.map_filter (audio_packet rtp) ds \<noteq> []"
  shows "\<exists>ts s' st' ds' x. live_run K L Q C net rtp ts s = Some s' \<and> x \<in> set (List.map_filter (audio_packet rtp) ds) \<and>
     s' = s\<lparr>session := (session s)\<lparr>audio := \<lparr>inbox = ds', rx_task = Waiting st', held = Some x\<rparr>\<rparr>\<rparr>"
  using assms
proof (induction ds arbitrary: s st)
  case Nil
  then show ?case by (simp add: map_filter_simps)
next
  case (Cons d ds)
  have "fits d" using Cons.prems(1,2) by simp
  then obtain st' os where body: "server_receiver_body rtp st (Received d True) = Continue st' os" "receiver_inv 4096 st'"
    "to_player os = audio_packet rtp d" using audio_reads Cons.prems(3) unfolding reads_def by blast
  let ?s = "s\<lparr>session := (session s)\<lparr>audio := \<lparr>inbox = ds, rx_task = Waiting st', held = audio_packet rtp d\<rparr>\<rparr>\<rparr>"
  have step: "live_step K L Q C net rtp (Takes AudioReceives) s = Some ?s"
    using Cons.prems(2) body by (simp add: receiver_turn_def)
  show ?case
  proof (cases "audio_packet rtp d")
    case (Some x)
    then show ?thesis using step
      by (intro exI[of _ "[Takes AudioReceives]"] exI[of _ ?s] exI[of _ st'] exI[of _ ds] exI[of _ x])
        (simp add: map_filter_simps del: live_step.simps)
  next
    case None
    then obtain ts s' st2 ds' x where "live_run K L Q C net rtp ts ?s = Some s'" "x \<in> set (List.map_filter (audio_packet rtp) ds)"
      "s' = ?s\<lparr>session := (session ?s)\<lparr>audio := \<lparr>inbox = ds', rx_task = Waiting st2, held = Some x\<rparr>\<rparr>\<rparr>"
      using Cons.IH[of ?s st'] Cons.prems body(2) by (auto simp: map_filter_simps)
    then show ?thesis using step None
      by (intro exI[of _ "Takes AudioReceives # ts"] exI[of _ s'] exI[of _ st2] exI[of _ ds'] exI[of _ x])
        (simp add: map_filter_simps del: live_step.simps)
  qed
qed

lemma teardown_can_crash:
  assumes "B = steadies @ [Teardown]" "list_all steady steadies" "list_all fits ds"
    and "A = List.map_filter (audio_packet rtp) ds" "A \<noteq> []"
  shows "\<exists>ts s'. live_run K L Q C net rtp ts (live_start K L p0 n ds cs B) = Some s' \<and> player_task (session s') = Finished Panic"
proof -
  let ?s = "live_start K L p0 n ds cs B :: ('q, 'k, 'd, 'f, 'c, 'e) live"
  have "asking ?s = steadies @ [Teardown]" using assms(1) by (simp add: live_start_def)
  from ask_all[OF start_quiet recorder this assms(2)] obtain ts s1 p1 where s1: "live_run K L Q C net rtp ts ?s = Some s1" "quiet s1"
    "player_task (session s1) = Waiting p1" "recording C D pcm P r n p1" "asking s1 = [Teardown]" "same_tasks ?s s1" by blast
  have audio: "audio (session s1) = \<lparr>inbox = ds, rx_task = Waiting (receiver_new (4 * 1024)), held = None\<rparr>"
    using s1(6) by (simp add: same_tasks_def live_start_def streaming_start_def rx_start_def)
  obtain us s2 st' ds' x where us: "live_run K L Q C net rtp us s1 = Some s2"
    and s2: "s2 = s1\<lparr>session := (session s1)\<lparr>audio := \<lparr>inbox = ds', rx_task = Waiting st', held = Some x\<rparr>\<rparr>\<rparr>"
    using first_packet[OF _ audio] assms(3-5) audio receiver_inv_new[of 4096] by (auto simp del: live_step.simps)
  obtain c where c: "chan_send K (queue (session s2)) Teardown = Some c"
    using s1(2) s2 cmds.send_waits[of "queue (session s2)" Teardown]
    by (cases "chan_send K (queue (session s2)) Teardown") (auto simp: quiet_def)
  have i1: "chan_items K c = [Teardown]" using cmds.send_appends[OF c] s1(2) s2 by (simp add: quiet_def)
  obtain c2 where c2: "chan_send K c (put x) = Some c2"
    using i1 cmds.send_waits[of c "put x"] by (cases "chan_send K c (put x)") auto
  have i2: "chan_items K c2 = [Teardown, put x]" using cmds.send_appends[OF c2] i1 by simp
  obtain c3 where c3: "chan_recv K c2 = Some (Teardown, c3)" "chan_items K c3 = [put x]"
  proof (cases "chan_recv K c2")
    case (Some y)
    then show ?thesis using cmds.recv_takes[of c2 "fst y" "snd y"] i2 that[of "snd y"] by (cases y) auto
  qed (use i2 cmds.recv_waits[of c2] in simp)
  obtain c4 where c4: "chan_recv K c3 = Some (put x, c4)"
  proof (cases "chan_recv K c3")
    case (Some y)
    then show ?thesis using cmds.recv_takes[of c3 "fst y" "snd y"] c3(2) that[of "snd y"] by (cases y) auto
  qed (use c3(2) cmds.recv_waits[of c3] in simp)
  obtain p2 os where p2: "player_body Q C p1 (Request Teardown net True) = Continue p2 os" "torn_down p2" "to_sender os = None"
    using recording_torn_down[OF s1(4)] by blast
  have crash: "player_body Q C p2 (Request (put x) net True) = Return Panic []"
    using torn_down_panics[OF p2(2)] by (simp add: put_def)
  have "\<exists>s3. live_run K L Q C net rtp [HandlerAsks, Takes AudioReceives, Takes PlayerPlays, Takes PlayerPlays] s2 = Some s3 \<and>
      player_task (session s3) = Finished Panic"
    using s1(2,3,5) s2 c c2 c3(1) c4 p2(1,3) crash
    by (cases x) (simp add: handler_asks_def receiver_turn_def packet_side_def player_takes_def Let_def quiet_def put_def)
  then obtain s3 where "live_run K L Q C net rtp [HandlerAsks, Takes AudioReceives, Takes PlayerPlays, Takes PlayerPlays] s2 = Some s3"
    "player_task (session s3) = Finished Panic" by blast
  then show ?thesis using s1(1) us
    by (intro exI[of _ "ts @ us @ [HandlerAsks, Takes AudioReceives, Takes PlayerPlays, Takes PlayerPlays]"] exI[of _ s3])
      (simp only: live_run_append Option.bind.simps)
qed

section \<open>The two outcomes\<close>

lemma teardown_not_steady: "list_all steady B \<Longrightarrow> zs \<in> shuffles (map put ps) bs \<Longrightarrow> B = bs @ rest \<Longrightarrow> Teardown \<notin> set zs"
  by (auto simp: list_all_iff set_shuffles put_def dest: bspec[where x = Teardown])

lemma requested_of_count: "command_count (requested_of net del) = length (command_list del)"
  by (induction del) (simp_all add: command_count_def requested_of_def command_list_def)

lemma rest_merges:
  assumes "live_inv s" "at_rest K L Q C net rtp s" "list_all steady B"
  shows "inbox (audio (session s)) = [] \<and> inbox (control (session s)) = [] \<and> asking s = [] \<and> \<not> awaiting_reply s \<and>
     (\<exists>ps del os. ps \<in> shuffles A R \<and> del \<in> shuffles (map put ps) B \<and>
        task_loop (player_body Q C) p0 (requested_of net del) = (os, player_task (session s)) \<and>
        length (replies os) = length B \<and> wire (session s) = map (retransmit_request Q) (gap_requests os))"
proof (cases "player_task (session s)")
  case (Waiting p)
  then have on: "going_on s p" using assms(1) by (simp add: live_inv_def)
  note rest = rest_player[OF assms(1,2) Waiting]
  from on show ?thesis
  proof (rule going_onE)
    fix as cs bs ps del os rs
    assume h: "A = as @ inbound (audio_packet rtp) (audio (session s))"
      "R = cs @ inbound (control_packet Q rtp) (control (session s))" "B = bs @ asking s"
      "ps \<in> shuffles as cs" "del @ chan_items K (queue (session s)) \<in> shuffles (map put ps) bs"
      "task_loop (player_body Q C) p0 (requested_of net del) = (os, Waiting p)"
      "recording C D pcm P r n p \<and> Teardown \<notin> set del \<or>
         torn_down p \<and> unsent (session s) = None \<and> (\<exists>xs. del = xs @ [Teardown])"
      "gap_requests os = rs @ chan_items L (gaps (session s)) @ as_list (unsent (session s))"
      "wire (session s) = map (retransmit_request Q) rs"
    have del: "del \<in> shuffles (map put ps) B" using h(3,5) rest by simp
    then have "recording C D pcm P r n p" using teardown_not_steady[OF assms(3) h(5,3)] h(7) by auto
    then have told: "\<not> told s" using told_phase(1)[OF _ on Waiting] assms(1)
      by (auto simp: live_inv_def recording_def torn_down_def)
    have side: "held (audio (session s)) = None" "inbox (audio (session s)) = []"
      "held (control (session s)) = None" "inbox (control (session s)) = []"
      using rest_receivers[OF assms(1,2)] told by simp_all
    have "chan_items L (gaps (session s)) = []" using rest_sender[OF assms(1,2)] told by simp
    then have "gap_requests os = rs" using h(8) rest by simp
    moreover have "length (replies os) = length B"
      using replies_counted[OF h(6)] merge_commands[OF del, of "[]"] by (simp add: requested_of_count)
    moreover have "ps \<in> shuffles A R" using h(1,2,4) side by (simp add: inbound_def map_filter_simps)
    ultimately show ?thesis using del h(6,9) rest side Waiting by auto
  qed
next
  case (Finished e)
  then have "crashed e" using assms(1) by (simp add: live_inv_def)
  then obtain ps xs x ys where "(xs @ [Teardown, put x]) @ ys \<in> shuffles (map put ps) B" unfolding crashed_def by blast
  then show ?thesis using teardown_not_steady[OF assms(3), of _ ps B "[]"] by fastforce
qed

lemma rest_torn_down:
  assumes "live_inv s" "at_rest K L Q C net rtp s" "B = steadies @ [Teardown]"
  shows "\<not> running (rx_task (audio (session s))) \<and> \<not> running (rx_task (control (session s))) \<and>
     \<not> running (sender_task (session s)) \<and> asking s = [] \<and> \<not> awaiting_reply s \<and>
     (case player_task (session s) of
        Waiting p \<Rightarrow> torn_down p \<and> chan_items K (queue (session s)) = []
      | Finished e \<Rightarrow> e = Panic \<and> (\<exists>del x os. x \<in> set A \<union> set R \<and> command_list del = steadies \<and>
          task_loop (player_body Q C) p0 (requested_of net (del @ [Teardown, put x])) = (os, Finished e)))"
proof (cases "player_task (session s)")
  case (Waiting p)
  then have on: "going_on s p" using assms(1) by (simp add: live_inv_def)
  note rest = rest_player[OF assms(1,2) Waiting]
  have "torn_down p"
    using on
  proof (rule going_onE)
    fix as cs bs ps del os rs
    assume h: "B = bs @ asking s" "del @ chan_items K (queue (session s)) \<in> shuffles (map put ps) bs"
      "recording C D pcm P r n p \<and> Teardown \<notin> set del \<or>
         torn_down p \<and> unsent (session s) = None \<and> (\<exists>xs. del = xs @ [Teardown])"
    have "del \<in> shuffles (map put ps) B" using h(1,2) rest by simp
    then have "Teardown \<in> set del" using assms(3) by (simp add: set_shuffles)
    then show ?thesis using h(3) by blast
  qed
  moreover from this have "told s" using told_phase(1)[OF _ on Waiting] assms(1) by (simp add: live_inv_def)
  ultimately show ?thesis using rest rest_receivers[OF assms(1,2)] rest_sender[OF assms(1,2)] Waiting by simp
next
  case (Finished e)
  have told: "told s" using Finished by (simp add: told_def)
  have "handler_asks K s = None" using assms(2) by (simp add: at_rest_def)
  then have asks: "asking s = []" "\<not> awaiting_reply s" using Finished by (auto simp: handler_asks_def split: if_splits)
  have "crashed e" using assms(1) Finished by (simp add: live_inv_def)
  then obtain as cs as' cs' ps xs x ys os where h: "e = Panic" "A = as @ as'" "R = cs @ cs'" "ps \<in> shuffles as cs"
    "(xs @ [Teardown, put x]) @ ys \<in> shuffles (map put ps) B"
    "task_loop (player_body Q C) p0 (requested_of net (xs @ [Teardown, put x])) = (os, Finished Panic)"
    unfolding crashed_def by blast
  have "command_list ((xs @ [Teardown, put x]) @ ys) = steadies @ [Teardown]"
    using merge_commands[OF h(5), of "[]"] assms(3) by simp
  moreover have "command_list ys = []" using behind_teardown[of xs "put x # ys" ps B "[]"] h(5) by simp
  ultimately have "command_list xs = steadies" by simp
  moreover have "x \<in> set A \<union> set R"
  proof -
    have "put x \<in> put ` set ps \<union> set B" using set_shuffles[OF h(5)] by auto
    moreover have "put x \<notin> set B" using session_commands_member[OF commands, of "put x"] steady_not_packet by (auto simp: put_def)
    ultimately have "x \<in> set ps" by (auto simp: put_def prod_eq_iff)
    then show ?thesis using set_shuffles[OF h(4)] h(2,3) by auto
  qed
  ultimately have "\<exists>del x os. x \<in> set A \<union> set R \<and> command_list del = steadies \<and>
      task_loop (player_body Q C) p0 (requested_of net (del @ [Teardown, put x])) = (os, Finished e)"
    using h(1,6) by blast
  then show ?thesis
    using h(1) asks told rest_receivers[OF assms(1,2)] rest_sender[OF assms(1,2)] Finished by simp
qed

end

section \<open>A concrete session\<close>

definition demo_live_player :: "(u16, bytes, unit, nat) player" where
  "demo_live_player = demo_player\<lparr>notify_shutdown := Some 0\<rparr>"

lemma demo_recording: "recording byte_codec (\<lambda>_. True) demo_pcm {[5], [6], [7, 8]} 0 0 demo_live_player"
  by (simp add: recording_def records_def demo_live_player_def demo_player_def player_new_def demo_decoded)

interpretation list_live: live_channels "list_channel 4" "list_channel 4"
  by unfold_locales

interpretation demo_live: live_session "list_channel 4" "list_channel 4" word_seq rtp_decode byte_codec "\<lambda>_. True" demo_pcm
  "{[5], [6], [7, 8]}" 0 0 up demo_live_player "[(7, [5]), (9, [6])]" "[(8, [7, 8])]" "[SetParameter 20, GetParameter, Teardown]"
  using demo_recording
  by unfold_locales (auto simp: session_commands_def intro: exI[of _ "[SetParameter 20, GetParameter]"])

section \<open>Properties\<close>

text \<open>C4. Commands beside the stream: a handler sends FLUSH, SET_PARAMETER and GET_PARAMETER commands, each after the reply to
  the one before, while the datagrams of a recording arrive, all through the one channel of the player. Every run
  takes at most five turns per datagram and per command, and three more; wherever it is, it can be completed; and when no
  task can act, every datagram is received, every command has its reply, and the player is in the state, and the wire has
  the retransmit requests, that one sequence gives, which keeps the order of each socket and of the handler.\<close>

theorem commands_join_the_stream:
  assumes "live_channels K L" and "seq_api Q" and "rtp_reader rtp" and "recording C D pcm P r n p"
    and "list_all fits ds" and "list_all (fits_control rtp) cs" and "list_all steady cmds"
    and "A = List.map_filter (audio_packet rtp) ds" and "R = List.map_filter (control_packet Q rtp) cs"
    and "snd ` (set A \<union> set R) \<subseteq> P"
    and "live_run K L Q C net rtp ts (live_start K L p n ds cs cmds) = Some S"
  shows "length ts \<le> 5 * (length ds + length cs + length cmds) + 3 \<and>
     (\<exists>ts' S'. live_run K L Q C net rtp ts' S = Some S' \<and> at_rest K L Q C net rtp S') \<and>
     (at_rest K L Q C net rtp S \<longrightarrow>
       inbox (audio (session S)) = [] \<and> inbox (control (session S)) = [] \<and> asking S = [] \<and> \<not> awaiting_reply S \<and>
       (\<exists>ps del os. ps \<in> shuffles A R \<and> del \<in> shuffles (map put ps) cmds \<and>
          task_loop (player_body Q C) p (requested_of net del) = (os, player_task (session S)) \<and>
          length (replies os) = length cmds \<and> wire (session S) = map (retransmit_request Q) (gap_requests os)))"
proof -
  have "session_commands cmds" using assms(7) by (auto simp: session_commands_def)
  then have live: "live_session K L Q rtp C D pcm P r n p A R cmds"
    using assms by (intro live_session.intro live_session_axioms.intro)
  note inv = live_session.run_live[OF live live_session.live_inv_start[OF live assms(8,9,5,6)] assms(11)]
  show ?thesis
    using live_channels.run_lighter[OF assms(1,11)] live_channels.weight_live_start[OF assms(1), of p n ds cs cmds]
      live_channels.run_completes[OF assms(1)] live_session.rest_merges[OF live inv _ assms(7)] by auto
qed

theorem commands_join_the_stream_witness:
  "\<exists>ts (S :: (u16, bytes, unit, nat, (u16, nat) command list, (u16 \<times> u16) list) live) ps del os.
     live_run (list_channel 4) (list_channel 4) word_seq byte_codec up rtp_decode ts
       (live_start (list_channel 4) (list_channel 4) demo_live_player 0 demo_audio demo_answers [SetParameter 20, GetParameter]) =
       Some S \<and> length ts \<le> 28 \<and> ps \<in> shuffles [(7, [5]), (9, [6])] [(8, [7, 8])] \<and>
     del \<in> shuffles (map put ps) [SetParameter 20, GetParameter] \<and>
     task_loop (player_body word_seq byte_codec) demo_live_player (requested_of up del) = (os, player_task (session S)) \<and>
     length (replies os) = 2"
proof -
  let ?K = "list_channel 4" and ?cmds = "[SetParameter 20, GetParameter] :: (u16, nat) command list"
  let ?start = "live_start ?K ?K demo_live_player 0 demo_audio demo_answers ?cmds ::
    (u16, bytes, unit, nat, (u16, nat) command list, (u16 \<times> u16) list) live"
  have packets: "snd ` (set [(7, [5]), (9, [6])] \<union> set [(8, [7, 8])]) \<subseteq> {[5], [6], [7, 8]}" by simp
  have steady: "list_all steady ?cmds" by simp
  note holds = commands_join_the_stream[OF list_live.live_channels_axioms word_seq.seq_api_axioms rtp_decode.rtp_reader_axioms
    demo_recording demo_packets(3,4) steady demo_packets(1,2)[symmetric] packets, where net = up]
  have "live_run ?K ?K word_seq byte_codec up rtp_decode [] ?start = Some ?start" by simp
  then obtain ts S where run: "live_run ?K ?K word_seq byte_codec up rtp_decode ts ?start = Some S"
    and rest: "at_rest ?K ?K word_seq byte_codec up rtp_decode S" using holds by blast
  have "length ts \<le> 28" using conjunct1[OF holds[OF run]] by (simp add: demo_audio_def demo_answers_def)
  moreover obtain ps del os where "ps \<in> shuffles [(7, [5]), (9, [6])] [(8, [7, 8])]" "del \<in> shuffles (map put ps) ?cmds"
    "task_loop (player_body word_seq byte_codec) demo_live_player (requested_of up del) = (os, player_task (session S))"
    "length (replies os) = length ?cmds" using holds[OF run] rest by blast
  moreover have "length ?cmds = 2" by simp
  ultimately show ?thesis using run by metis
qed

text \<open>C5. TEARDOWN while packets arrive: whatever commands come before it, every run ends, and then all tasks of the session
  have stopped and the handler waits for nothing. Either the player runs on with its keys dropped and nothing queued, or it
  has panicked on a packet that a receiver had put behind TEARDOWN in the channel. Both can happen: there is always a
  schedule to the first end, and one to the second as soon as an audio packet is on its way.\<close>

theorem teardown_race:
  assumes "live_channels K L" and "seq_api Q" and "rtp_reader rtp" and "recording C D pcm P r n p"
    and "list_all fits ds" and "list_all (fits_control rtp) cs" and "list_all steady cmds"
    and "A = List.map_filter (audio_packet rtp) ds" and "R = List.map_filter (control_packet Q rtp) cs"
    and "snd ` (set A \<union> set R) \<subseteq> P" and "start = live_start K L p n ds cs (cmds @ [Teardown])"
  shows "(\<forall>ts S. live_run K L Q C net rtp ts start = Some S \<longrightarrow>
       length ts \<le> 5 * (length ds + length cs + length cmds) + 8 \<and>
       (at_rest K L Q C net rtp S \<longrightarrow>
         \<not> running (rx_task (audio (session S))) \<and> \<not> running (rx_task (control (session S))) \<and>
         \<not> running (sender_task (session S)) \<and> asking S = [] \<and> \<not> awaiting_reply S \<and>
         (case player_task (session S) of
            Waiting p' \<Rightarrow> torn_down p' \<and> chan_items K (queue (session S)) = []
          | Finished e \<Rightarrow> e = Panic \<and> (\<exists>del x os. x \<in> set A \<union> set R \<and> command_list del = cmds \<and>
              task_loop (player_body Q C) p (requested_of net (del @ [Teardown, put x])) = (os, Finished e))))) \<and>
     (\<exists>ts S p'. live_run K L Q C net rtp ts start = Some S \<and> at_rest K L Q C net rtp S \<and>
       player_task (session S) = Waiting p' \<and> torn_down p') \<and>
     (A \<noteq> [] \<longrightarrow> (\<exists>ts S. live_run K L Q C net rtp ts start = Some S \<and> player_task (session S) = Finished Panic))"
proof -
  have "session_commands (cmds @ [Teardown])" using assms(7) by (auto simp: session_commands_def)
  then have live: "live_session K L Q rtp C D pcm P r n p A R (cmds @ [Teardown])"
    using assms by (intro live_session.intro live_session_axioms.intro)
  note inv = live_session.run_live[OF live live_session.live_inv_start[OF live assms(8,9,5,6)]]
  show ?thesis unfolding assms(11)
  proof (intro conjI allI impI)
    fix ts S
    assume run: "live_run K L Q C net rtp ts (live_start K L p n ds cs (cmds @ [Teardown])) = Some S"
    show "length ts \<le> 5 * (length ds + length cs + length cmds) + 8"
      using live_channels.run_lighter[OF assms(1) run] live_channels.weight_live_start[OF assms(1), of p n ds cs "cmds @ [Teardown]"]
      by simp
    assume rest: "at_rest K L Q C net rtp S"
    note ends = live_session.rest_torn_down[OF live inv[OF run] rest refl]
    show "\<not> running (rx_task (audio (session S)))" "\<not> running (rx_task (control (session S)))"
      "\<not> running (sender_task (session S))" "asking S = []" "\<not> awaiting_reply S" using ends by blast+
    show "case player_task (session S) of
        Waiting p' \<Rightarrow> torn_down p' \<and> chan_items K (queue (session S)) = []
      | Finished e \<Rightarrow> e = Panic \<and> (\<exists>del x os. x \<in> set A \<union> set R \<and> command_list del = cmds \<and>
          task_loop (player_body Q C) p (requested_of net (del @ [Teardown, put x])) = (os, Finished e))"
      using ends by blast
  next
    show "\<exists>ts S p'. live_run K L Q C net rtp ts (live_start K L p n ds cs (cmds @ [Teardown])) = Some S \<and>
        at_rest K L Q C net rtp S \<and> player_task (session S) = Waiting p' \<and> torn_down p'"
      by (rule live_session.teardown_ends_well[OF live refl assms(7)])
  next
    assume "A \<noteq> []"
    then show "\<exists>ts S. live_run K L Q C net rtp ts (live_start K L p n ds cs (cmds @ [Teardown])) = Some S \<and>
        player_task (session S) = Finished Panic"
      by (rule live_session.teardown_can_crash[OF live refl assms(7,5,8)])
  qed
qed

theorem teardown_race_witness:
  "\<exists>(S :: (u16, bytes, unit, nat, (u16, nat) command list, (u16 \<times> u16) list) live) S' ts ts' p.
     live_run (list_channel 4) (list_channel 4) word_seq byte_codec up rtp_decode ts
       (live_start (list_channel 4) (list_channel 4) demo_live_player 0 demo_audio demo_answers [GetParameter, Teardown]) = Some S \<and>
     player_task (session S) = Finished Panic \<and>
     live_run (list_channel 4) (list_channel 4) word_seq byte_codec up rtp_decode ts'
       (live_start (list_channel 4) (list_channel 4) demo_live_player 0 demo_audio demo_answers [GetParameter, Teardown]) = Some S' \<and>
     player_task (session S') = Waiting p \<and> torn_down p"
proof -
  let ?K = "list_channel 4"
  have packets: "snd ` (set [(7, [5]), (9, [6])] \<union> set [(8, [7, 8])]) \<subseteq> {[5], [6], [7, 8]}" by simp
  have steady: "list_all steady [GetParameter :: (u16, nat) command]" by simp
  note race = teardown_race[OF list_live.live_channels_axioms word_seq.seq_api_axioms rtp_decode.rtp_reader_axioms
    demo_recording demo_packets(3,4) steady demo_packets(1,2)[symmetric] packets refl, where net = up]
  note race' = race[unfolded append.simps]
  from conjunct1[OF conjunct2[OF race']] mp[OF conjunct2[OF conjunct2[OF race']]] show ?thesis by blast
qed

end
