(* ===== verification/Spec2Isabelle.thy ===== *)
theory Spec2Isabelle
  imports Protocol Server_Tasks Playback Session_End Rsa_Key
begin

text \<open>
  A verification development for airguitar, an AirPlay (RAOP) audio receiver in Rust (src/src/).

  The program. \<open>server::run\<close> starts an RTSP listener, an mDNS responder and one player task. A client
  connects to the listener and gets a request handler on its connection; the handler turns requests into
  commands for the player, which it awaits. SETUP makes the player start five UDP tasks for
  the session (audio, control and timing, each receiving or sending); the packets they receive are
  commands to the player as well. The player decrypts and decodes packets into a frame buffer
  keyed by sequence number, asks for the ones that are missing, and the audio thread plays the buffer
  through a sample source.

  The theories, in the order of their dependence, and what they model:

  \<^item> \<open>Prelude\<close>: machine integers as words, results of fallible code (\<open>outcome\<close>: a value, an error, a
    panic, no return), slices, big-endian numbers, UDP receive buffers, and the loop all asynchronous tasks
    share (\<open>task_loop\<close>: what wins a \<open>select!\<close> is an event given by the environment).
  \<^item> \<open>Sequence_Numbers\<close>: the interface to \<open>rtp_rs::Seq\<close> (locale \<open>seq_api\<close>), with 16-bit words as instance; its
    cyclic order is total on numbers within half the number space (\<open>lt_ahead\<close>), and cyclic beyond (\<open>far_apart\<close>).
  \<^item> \<open>BTree_Map\<close>: \<open>insert\<close> and \<open>remove\<close> of \<open>std::collections::BTreeMap\<close> on its tree, for any order; the
    tree keeps its shape, and they are those of a finite map where the order agrees with a rank.
  \<^item> \<open>Frame_Buffer\<close>: player/frame_buffer.rs. \<open>FrameBuffer\<close> is the record \<open>frame_buffer\<close> over such a tree: a finite
    map (\<open>stored\<close>) while its packets lie less than 32768 ahead of the read marker (\<open>well_ordered\<close>).
    \<open>FrameBufferSource\<close> is the record \<open>source\<close>; the locale \<open>packet_queue\<close> is what the source needs of a buffer,
    and \<open>pop_front\<close> on any tree gives it.
  \<^item> \<open>Jitter\<close>: an abstract jitter buffer on unbounded positions with a playback position that only
    grows, and the refinement: the frame buffer, whose numbers wrap after 65536, implements it operation by
    operation, as long as packets arrive less than 32768 ahead; and what a packet from behind does.
  \<^item> \<open>Rust_Strings\<close>: the functions of Rust's \<open>str\<close> that the program calls.
  \<^item> \<open>Shutdown\<close>, \<open>Rtp_Info\<close>, \<open>Base64\<close>, \<open>Mdns\<close>: shutdown.rs, rtp_info.rs, base64.rs, mdns.rs and main.rs up
    to the bound listener.
  \<^item> \<open>Rsa_Key\<close>: the constant \<open>RSA_KEY\<close> of rtsp/handler.rs, its text and an executable decoder for it.
  \<^item> \<open>Net_Tasks\<close>: the UDP tasks in player/: one loop body each.
  \<^item> \<open>Player\<close>: player/mod.rs. The local variables of \<open>Player::run\<close> are the record \<open>player\<close>, with the shared
    frame buffers in a store; one function per command, \<open>player_body\<close> and \<open>player_run\<close> for the loop.
  \<^item> \<open>Channel\<close>: the interface to the bounded channels of tokio (locale \<open>bounded_channel\<close>), with lists as
    instance.
  \<^item> \<open>Streaming\<close>: the tasks of a running session as one record \<open>streaming\<close>: the two receivers with their sockets,
    the player, the control sender and the channels between them. A run is a schedule (\<open>run_turns\<close>); a task
    that waits in \<open>send\<close> keeps its value until there is room. \<open>Recovery\<close>: a recording with losses, the
    requests for what is missing, and the answers to them. \<open>Playback\<close>: the audio thread beside them, which shares
    the frame buffer with the player behind a mutex.
  \<^item> \<open>Live_Session\<close>: the same tasks with a request handler that sends commands through the channel of the
    player and waits for each reply, and with the notice that TEARDOWN gives (record \<open>live\<close>, schedules \<open>live_run\<close>).
    \<open>Session_History\<close> has its invariant, \<open>Session_End\<close> what is left when no task can act.
  \<^item> \<open>Connection\<close>, \<open>Handler\<close>, \<open>Listener\<close>: the files of rtsp/. \<open>Connection\<close> reads messages from the byte stream;
    \<open>Handler\<close> has one function per method over a record of operations (\<open>world_ops\<close>), the locale
    \<open>player_service\<close> states what it relies on; \<open>Listener\<close> is the accept loop with its back-off.
  \<^item> \<open>Player_Service\<close>: that interface implemented by the models of the player and the connection, with
    commands of other connections and packets arriving between any two commands, and the interpretation that discharges
    its laws.
  \<^item> \<open>Session\<close>: requests executed one after another; a session from ANNOUNCE to RECORD.
  \<^item> \<open>Protocol\<close>: the loop of a handler over the byte stream (\<open>serve\<close>), and its relation to the loop over
    messages, by locales that say which state the handler leaves alone and which it only extends.
  \<^item> \<open>Server\<close>: server.rs as a step relation: the \<open>select!\<close>, the drops in their order, the wait for the
    last sender, handlers ending at any time, and the responder task of libmdns, for which nobody waits;
    \<open>main_program\<close> is everything before the \<open>select!\<close>. \<open>Server_Tasks\<close> refines it: each handler is in its \<open>select!\<close>, or
    exchanges the commands of a request, and then writes its response or, if the request fails, ends.

  What is shown. Frame buffer: within half the number space it refines the abstract jitter buffer, so a stream of any
  length plays in order; playback does not depend on the order of arrival, \<open>flush\<close> terminates from every state and, on an
  ordered buffer, removes a window, gaps are reported exactly; what the code does not handle (a lost first packet, a
  stale one, which can silence the recording). Session tasks: no schedule deadlocks,
  every complete schedule is a merge of the two sockets, and lost packets are asked for exactly once and
  recovered. Player: an invariant over all runs, one successful reply per command,
  decryption and sample conversion, the requests for missing packets, and that a recording plays what was sent;
  what ends or crashes it. Playback: whenever the audio thread asks, it hears the packets in order, with silence only
  between them. Commands and packets through one channel: every schedule is a merge, every command is answered; TEARDOWN
  stops all tasks, but races with packets that are on their way, which crash the player. Connection: framing is
  independent of TCP chunks, and so is the loop of the handler; pipelined requests are answered in order, from bytes to
  bytes. Handler: every request is answered
  once with the right status (and, if it is 200, CSeq), the volume and transport round trips, announcements and
  challenges, and the embedded key is consistent; the volume is shared by all connections. Listener and Server: what is
  advertised is what listens, back-off, and a shutdown that terminates and waits only for clients that do not read their
  response. This theory states the properties
  that span components.

  Parameters. Crates are not modelled but are arguments with laws: sequence numbers and the RTP reader (rtp-rs), parser
  combinators (nom), Base64 (base64ct), AES-CBC and ALAC (record \<open>codec_ops\<close>), RTSP messages (rtsp-types),
  SDP, RSA and the text form of \<open>f64\<close> (record \<open>handler_ops\<close>), the bounded channels (tokio), the parser of the
  key (rsa), the parsed command line (clap, record \<open>cli_opts\<close>), MD5 and \<open>bind\<close>. Executable instances are used in
  the witnesses: words, RFC 4648, combinators as functions, RTSP framing by empty line and \<open>Content-Length\<close>,
  and a byte-wise codec.

  Bounds. The number space of RTP has 65536 elements; windows of packets have at most 32768, because beyond that the
  order of the keys is not total and the tree loses packets. \<open>pending\<close> pops at most as many packets as the buffer has,
  which is enough because each step removes one. \<open>flush_fb\<close> is a partial function whose result is shown to exist. No
  other definition uses fuel, except \<open>read_messages\<close> and \<open>serve\<close>, whose number counts the messages asked for: one
  more than the messages of the stream is enough to see its end. The channels hold four values, as in
  the code; a schedule has at most five turns per datagram and per command.

  Not modelled: tracing, what the responder of libmdns does, the resampling and mixing of rodio, the bytes of responses (serialised by rtsp-types)
  and of mDNS packets. A session in \<open>Live_Session\<close> is one from its SETUP on: a second SETUP, whose tasks would run beside the old ones until they have taken their notice, is
  modelled in the player alone, and so are ANNOUNCE and RECORD while packets arrive. The timing tasks, which
  share nothing with the others, are modelled one by one. When the player panics the unwinding of \<open>server::run\<close> is not
  followed further.
\<close>

section \<open>A concrete world\<close>

text \<open>Used to evaluate the model: the executable instances of the parameters, a player that has just
  started, and a client at 10.0.0.2.\<close>

definition demo_media :: media where
  "demo_media =
     [''fmtp'' \<mapsto> Some ''96 352'', ''min-latency'' \<mapsto> Some ''11025'', ''max-latency'' \<mapsto> Some ''88200'',
      ''aesiv'' \<mapsto> Some (encode_base64 rfc4648 (replicate 16 1) @ ''==''),
      ''rsaaeskey'' \<mapsto> Some (encode_base64 rfc4648 (replicate 16 2))]"

definition demo_ops :: "nat handler_ops" where
  "demo_ops = \<lparr>b64 = rfc4648, nom_parsers = nom_fun, sdp_parse = (\<lambda>_. Some [demo_media]),
     rsa_decrypt = Some, rsa_sign = (\<lambda>bs. Some (rev bs)),
     parse_transports = (\<lambda>_. Some [setup_transport
       \<lparr>resp_control_port = 6001, resp_timing_port = 6002, resp_server_port = 6003\<rparr>]),
     parse_f64 = parse_digits 0, show_f64 = show_nat\<rparr>"

definition demo_handler :: handler where
  "demo_handler = \<lparr>config = \<lparr>cfg_port = 5000, cfg_name = ''A'', hw_addr = [1, 2, 3, 4, 5, 6]\<rparr>,
     local_ip = V4 [10, 0, 0, 1], peer_ip = V4 [10, 0, 0, 2]\<rparr>"

definition demo_world :: "(u16, bytes, unit, nat) world" where
  "demo_world = \<lparr>w_player = Some (player_new 0), w_others = [], w_net = up, w_effects = [],
     w_conn = \<lparr>buffer = [], stream_out = [], local_addr = V4 [10, 0, 0, 1], peer_addr = V4 [10, 0, 0, 2]\<rparr>,
     w_stream_ok = True, w_written = []\<rparr>"

definition demo_request :: "rtsp_method \<Rightarrow> (header_name \<Rightarrow> string option) \<Rightarrow> string \<Rightarrow> request" where
  "demo_request m hs body = \<lparr>req_method = m, req_header = hs, req_body = bytes_of_str body\<rparr>"

definition demo_service :: "((u16, bytes, unit, nat) world, nat) world_ops" where
  "demo_service = player_world word_seq byte_codec (\<lambda>_. Some [])"

lemma demo_printed: "show_nat 96 = ''96''" "show_nat 11025 = ''11025''" "show_nat 88200 = ''88200''"
proof -
  have "char_of (48 :: nat) = CHR ''0''" "char_of (49 :: nat) = CHR ''1''" "char_of (50 :: nat) = CHR ''2''"
    "char_of (53 :: nat) = CHR ''5''" "char_of (54 :: nat) = CHR ''6''" "char_of (56 :: nat) = CHR ''8''"
    "char_of (57 :: nat) = CHR ''9''"
    by code_simp+
  then show "show_nat 96 = ''96''" "show_nat 11025 = ''11025''" "show_nat 88200 = ''88200''"
    by (simp_all add: show_nat.simps digit_char_def)
qed

text \<open>The requests of a session as the components see them.\<close>

definition demo_encryption :: encryption where
  "demo_encryption = \<lparr>aesiv = replicate 16 1, aeskey = replicate 16 2\<rparr>"

lemma demo_ready: "ready up (player_new 0) demo_world"
  by (simp add: ready_def demo_world_def player_new_def)

lemma demo_parsed:
  "parse_announce demo_ops (req_body (demo_request ANNOUNCE [CSEQ \<mapsto> ''1''] [])) =
     Ok \<lparr>fmtp = '' 352'', minimum_latency = 11025, maximum_latency = 88200, announced_encryption = Some demo_encryption\<rparr>"
proof -
  have "parse_announce demo_ops (req_body (demo_request ANNOUNCE [CSEQ \<mapsto> ''1''] [])) =
      Ok \<lparr>fmtp = CHR '' '' # ''352'', minimum_latency = word_of_nat 11025, maximum_latency = word_of_nat 88200,
          announced_encryption = Some demo_encryption\<rparr>"
    unfolding demo_encryption_def
    by (rule announce_parses [where pt = 96 and pad_iv = "''==''" and pad_key = "[]"
          and wrapped = "replicate 16 2" and m = demo_media and ms = "[]"])
      (simp_all add: demo_ops_def demo_media_def demo_printed rfc4648.base64_axioms)
  then show ?thesis by simp
qed

lemma demo_info:
  "rtp_info_parse (nom_parsers demo_ops) ''seq=65535;rtptime=0'' = Some (\<lparr>rtp_seq = 65535, rtptime = 0\<rparr>, [])"
  by (simp add: demo_ops_def rtp_info_parse_def parameter_def trim_str_def trim_num_def nom_fun_def then_parse_def
      map_parse_def parse_uint_def is_digit_def is_space_def digit_val_def ascii_lower_def Let_def)

lemma demo_ports: "setup_ports demo_ops (demo_request SETUP [TRANSPORT \<mapsto> ''RTP/AVP''] []) = Some (6001, 6002)"
  using setup_answer_readable [where H = demo_ops and t = "''RTP/AVP''" and ts = "[]" and
      req = "demo_request SETUP [TRANSPORT \<mapsto> ''RTP/AVP''] []" and
      res = "\<lparr>resp_control_port = 6001, resp_timing_port = 6002, resp_server_port = 6003\<rparr>"]
  by (simp add: demo_ops_def demo_request_def)

lemma byte_codec_aes: "aes_new byte_codec k = k"
  by (simp add: byte_codec_def)

lemma byte_codec_new: "format \<noteq> [] \<Longrightarrow> alac_new byte_codec format = Some ()"
  by (simp add: byte_codec_def)

lemma demo_texts:
  "from_utf8 (bytes_of_str (''volume: 15'' @ [CHR 0x0D, CHR 0x0A])) = Some (''volume: 15'' @ [CHR 0x0D, CHR 0x0A])"
  "from_utf8 (bytes_of_str (''volume'' @ [CHR 0x0D, CHR 0x0A])) = Some (''volume'' @ [CHR 0x0D, CHR 0x0A])"
  "parse_digits 0 (str_trim '' 15'') = Some 15" "show_nat 20 = ''20''"
  by code_simp+

text \<open>Evaluation of handlers over the concrete world.\<close>

lemmas demo_eval = execute_def handler_defs io_then_def add_default_headers_def ask_def Let_def
  world_write_def conn_write_def player_body_def player_set_parameter_def player_get_parameter_def
  player_new_def done_of_def volume_of_def shutdown_new_def is_shutdown_def command_events_def

section \<open>A concrete protocol\<close>

text \<open>Requests of a head without body: the method is the first word, the sequence number what follows
  \<open>CSeq=\<close> in its line; a response is one byte for its status.\<close>

definition demo_method :: "string \<Rightarrow> rtsp_method" where
  "demo_method m = (if m = ''OPTIONS'' then OPTIONS else if m = ''PAUSE'' then PAUSE else EXTENSION m)"

definition demo_message :: "string \<times> bytes \<Rightarrow> message" where
  "demo_message x =
     (case str_lines (fst x) of
        first # lines \<Rightarrow>
          RequestMessage \<lparr>req_method = demo_method (takeWhile (\<lambda>c. c \<noteq> CHR '' '') first),
            req_header = Map.empty(CSEQ := map_of (List.map_filter (split_once (CHR ''='')) lines) ''CSeq''),
            req_body = snd x\<rparr>
      | [] \<Rightarrow> DataMessage)"

definition demo_parse :: "bytes \<Rightarrow> message parsed" where
  "demo_parse b = (case rtsp_frame b of Parsed x n \<Rightarrow> Parsed (demo_message x) n | Incomplete \<Rightarrow> Incomplete | Invalid \<Rightarrow> Invalid)"

interpretation demo_parse: message_parser demo_parse
proof unfold_locales
  show "0 < n \<and> n \<le> length b" if "demo_parse b = Parsed m n" for b m n
    using that rtsp_frame.consumes by (auto simp: demo_parse_def split: parsed.splits)
  show "demo_parse (b @ x) = Parsed m n" if "demo_parse b = Parsed m n" for b m n x
    using that rtsp_frame.parsed_stable by (auto simp: demo_parse_def split: parsed.splits)
  show "demo_parse (b @ x) = Invalid" if "demo_parse b = Invalid" for b x
    using that rtsp_frame.invalid_stable by (auto simp: demo_parse_def split: parsed.splits)
  show "demo_parse [] = Incomplete" by (simp add: demo_parse_def rtsp_frame.empty_incomplete)
qed

definition demo_encode :: "response \<Rightarrow> bytes option" where
  "demo_encode r = Some [if resp_status r = StatusOk then 200 else 5]"

definition demo_options :: request where
  "demo_options = demo_request OPTIONS [CSEQ \<mapsto> ''7''] []"

definition demo_pause :: request where
  "demo_pause = demo_request PAUSE [CSEQ \<mapsto> ''8''] []"

text \<open>\<open>OPTIONS *\<close> with \<open>CSeq=7\<close>, and \<open>PAUSE *\<close> with \<open>CSeq=8\<close>.\<close>

definition options_bytes :: bytes where
  "options_bytes = [79, 80, 84, 73, 79, 78, 83, 32, 42, 13, 10, 67, 83, 101, 113, 61, 55, 13, 10, 13, 10]"

definition pause_bytes :: bytes where
  "pause_bytes = [80, 65, 85, 83, 69, 32, 42, 13, 10, 67, 83, 101, 113, 61, 56, 13, 10, 13, 10]"

definition demo_enc :: "request \<Rightarrow> bytes" where
  "demo_enc r = (if req_method r = OPTIONS then options_bytes else pause_bytes)"

definition demo_bytes :: bytes where
  "demo_bytes = options_bytes @ pause_bytes"

lemma demo_frames:
  "rtsp_frame options_bytes = Parsed (str_of_bytes options_bytes, []) (length options_bytes)"
  "rtsp_frame pause_bytes = Parsed (str_of_bytes pause_bytes, []) (length pause_bytes)"
  "str_lines (str_of_bytes options_bytes) = [''OPTIONS *'', ''CSeq=7'', []]"
  "str_lines (str_of_bytes pause_bytes) = [''PAUSE *'', ''CSeq=8'', []]"
  by code_simp+

lemma demo_heads:
  "split_once (CHR ''='') ''CSeq=7'' = Some (''CSeq'', ''7'')" "split_once (CHR ''='') ''CSeq=8'' = Some (''CSeq'', ''8'')"
  "split_once (CHR ''='') [] = None" "takeWhile (\<lambda>c. c \<noteq> CHR '' '') ''OPTIONS *'' = ''OPTIONS''"
  "takeWhile (\<lambda>c. c \<noteq> CHR '' '') ''PAUSE *'' = ''PAUSE''"
  by code_simp+

lemma demo_messages:
  "demo_message (str_of_bytes options_bytes, []) = RequestMessage demo_options"
  "demo_message (str_of_bytes pause_bytes, []) = RequestMessage demo_pause"
  by (simp_all add: demo_message_def demo_frames demo_heads map_filter_simps demo_method_def demo_request_def
      demo_options_def demo_pause_def bytes_of_str_def)

lemma demo_enc_parses:
  assumes "r \<in> {demo_options, demo_pause}"
  shows "demo_parse (demo_enc r @ b) = Parsed (RequestMessage r) (length (demo_enc r))"
proof -
  have "demo_enc demo_options = options_bytes" "demo_enc demo_pause = pause_bytes"
    by (simp_all add: demo_enc_def demo_options_def demo_pause_def demo_request_def)
  then show ?thesis
    using assms rtsp_frame.parsed_stable [OF demo_frames(1), of b] rtsp_frame.parsed_stable [OF demo_frames(2), of b]
    by (auto simp: demo_parse_def demo_messages)
qed

lemma demo_chunks: "[] \<notin> set [take 10 demo_bytes, drop 10 demo_bytes]"
  by (simp add: demo_bytes_def options_bytes_def)

section \<open>Properties of the RTSP handler over the player and the connection\<close>

text \<open>C10. Whatever other connections and the network tasks ask of the player in the meantime, every request that
  the handler executes without an error is answered by exactly one response,
  except a SETUP without readable ports, which has no effect at all and is not answered (its client
  waits). The status is 200, or 405 for a method the handler does not implement (PAUSE among them, which
  OPTIONS advertises), or 451 for SET_PARAMETER with another content type; a 200 response carries
  the request's CSeq, the others carry no header. Audio packets may reach the player at any point.\<close>

theorem requests_are_answered:
  assumes "execute H (player_world Q C encode) h req w = (Ok (), w')"
  shows "if req_method req = SETUP \<and> setup_ports H req = None then w' = w
     else \<exists>r. w_written w' = w_written w @ [r] \<and> answers req r"
  using player_world.execute_answered [OF assms] assms
    player_world.setup_without_ports [of req H Q C encode h w]
  by (auto simp: player_world.answered_def)

theorem requests_are_answered_witness:
  "\<exists>r. w_written (snd (execute demo_ops demo_service demo_handler
     (demo_request PAUSE [CSEQ \<mapsto> ''7''] []) demo_world)) = [r] \<and> resp_status r = MethodNotAllowed"
proof -
  let ?x = "execute demo_ops demo_service demo_handler (demo_request PAUSE [CSEQ \<mapsto> ''7''] []) demo_world"
  have "fst ?x = Ok ()"
    by (simp add: demo_eval demo_service_def demo_world_def demo_request_def)
  then have "?x = (Ok (), snd ?x)" by (simp add: prod_eq_iff)
  from requests_are_answered [OF this [unfolded demo_service_def]] show ?thesis
    by (auto simp: demo_request_def demo_world_def answers_def expected_status_def demo_service_def)
qed

text \<open>C17. The volume at the RTSP level, shared by all connections: after SET_PARAMETER with the line \<open>volume:v\<close>,
  any requests but SET_PARAMETER, and GET_PARAMETER, the answer is the last volume that anybody set: \<open>v\<close>, as it was
  parsed, or what other connections have set since, between the commands of this one.\<close>

theorem volume_round_trip:
  assumes "handler_run H (player_world Q C encode) h shutdown_new (requests (set_req # between @ [get_req])) w = (None, w')"
    and "req_method set_req = SET_PARAMETER" "req_header set_req CONTENT_TYPE = Some ''text/parameters''"
    and "from_utf8 (req_body set_req) = Some (''volume:'' @ v @ [CHR 0x0D, CHR 0x0A])" "CHR 0x0A \<notin> set v"
    and "parse_f64 H (str_trim v) = Some x"
    and "\<forall>r \<in> set between. req_method r \<noteq> SET_PARAMETER"
    and "req_method get_req = GET_PARAMETER" "from_utf8 (req_body get_req) = Some (''volume'' @ [CHR 0x0D, CHR 0x0A])"
  shows "resp_body (last (w_written w')) = Some (''volume: '' @ show_f64 H
     (last_volume x (concat (take (Suc (sum_list (map (commands H) between))) (tl (w_others w))))))"
  using player_world.volume_set_and_read [OF assms]
  by (simp only: others_act_more set_level_def others_act_def world_level_def fst_conv snd_conv)

theorem volume_round_trip_witness:
  "resp_body (last (w_written (snd (handler_run demo_ops demo_service demo_handler shutdown_new
     (requests (demo_request SET_PARAMETER [CONTENT_TYPE \<mapsto> ''text/parameters''] (''volume: 15'' @ [CHR 0x0D, CHR 0x0A]) #
        [demo_request OPTIONS [CSEQ \<mapsto> ''7''] []] @
        [demo_request GET_PARAMETER [CSEQ \<mapsto> ''8''] (''volume'' @ [CHR 0x0D, CHR 0x0A])]))
     (demo_world\<lparr>w_others := [[], [SetParameter 20]]\<rparr>))))) =
   Some ''volume: 20''"
proof -
  let ?set = "demo_request SET_PARAMETER [CONTENT_TYPE \<mapsto> ''text/parameters''] (''volume: 15'' @ [CHR 0x0D, CHR 0x0A])"
  let ?get = "demo_request GET_PARAMETER [CSEQ \<mapsto> ''8''] (''volume'' @ [CHR 0x0D, CHR 0x0A])"
  let ?w = "demo_world\<lparr>w_others := [[], [SetParameter 20]]\<rparr>"
  let ?x = "handler_run demo_ops demo_service demo_handler shutdown_new
     (requests (?set # [demo_request OPTIONS [CSEQ \<mapsto> ''7''] []] @ [?get])) ?w"
  have body: "from_utf8 (req_body ?set) = Some (''volume:'' @ '' 15'' @ [CHR 0x0D, CHR 0x0A])"
    "from_utf8 (req_body ?get) = Some (''volume'' @ [CHR 0x0D, CHR 0x0A])"
    "parse_f64 demo_ops (str_trim '' 15'') = Some 15"
    using demo_texts by (simp_all add: demo_request_def demo_ops_def)
  have lines: "str_lines (''volume:'' @ '' 15'' @ [CHR 0x0D, CHR 0x0A]) = [''volume: 15'']"
    "split_once (CHR '':'') ''volume: 15'' = Some (''volume'', '' 15'')"
    by code_simp+
  have "fst ?x = None"
    using body lines
    by (simp add: demo_eval demo_service_def demo_world_def demo_request_def)
  then have run: "?x = (None, snd ?x)" by (simp add: prod_eq_iff)
  have "show_f64 demo_ops 20 = ''20''" using demo_texts by (simp add: demo_ops_def)
  then show ?thesis
    using volume_round_trip [OF run [unfolded demo_service_def] _ _ body(1) _ body(3) _ _ body(2)]
    by (simp add: demo_request_def demo_service_def last_volume_def set_by_def commands_def)
qed

text \<open>The server waits for a client that does not read the answer to its OPTIONS request, and for nothing else.\<close>

theorem shutdown_waits_for_readers_witness:
  "\<not> (\<exists>l s'. tasks_step demo_ops
     \<lparr>run = \<lparr>phase = AwaitComplete, own_tx = False, mdns_tx = False, player_tx = False, notify = False, handlers = 1,
        mdns_task = Responding\<rparr>, conns = {#Busy 0 Writes#}\<rparr> l s' \<and> \<not> outside l)"
proof -
  let ?s = "\<lambda>ph own m p n. \<lparr>run = \<lparr>phase = ph, own_tx = own, mdns_tx = m, player_tx = p, notify = n, handlers = 1,
    mdns_task = Responding\<rparr>, conns = {#Busy 0 Writes#}\<rparr>"
  have "tasks_step demo_ops tasks_new NewClient \<lparr>run = server_new\<lparr>handlers := 1\<rparr>, conns = {#Reading#}\<rparr>"
    using accepts [of tasks_new "server_new\<lparr>handlers := 1\<rparr>" demo_ops] accepted [of server_new]
    by (simp add: tasks_new_def server_new_def)
  from reach_step [OF reach_new this]
  have "tasks_reach demo_ops \<lparr>run = server_new\<lparr>handlers := 1\<rparr>, conns = {#Reading#}\<rparr>" .
  from reach_step [OF this advertises [OF responder_spawned]]
  have "tasks_reach demo_ops \<lparr>run = server_new\<lparr>handlers := 1, mdns_task := Responding\<rparr>, conns = {#Reading#}\<rparr>"
    by (simp add: server_new_def)
  from reach_step [OF this sends [where h = demo_handler and req = "demo_request OPTIONS (\<lambda>_. None) []" and M = "{#}"]]
  have "tasks_reach demo_ops (?s Selecting True True True True)"
    by (simp add: begin_request_def challenge_ok_def Let_def demo_request_def server_new_def)
  from reach_step [OF this selects [OF selected [where c = ShutdownSignal]]]
  have "tasks_reach demo_ops (?s DroppingPlayer True True True True)" by simp
  from reach_step [OF this proceeds [OF drop_player]] have "tasks_reach demo_ops (?s DroppingMdns True True False True)" by simp
  from reach_step [OF this proceeds [OF drop_mdns]] have "tasks_reach demo_ops (?s DroppingNotify True False False True)" by simp
  from reach_step [OF this proceeds [OF drop_notify]] have "tasks_reach demo_ops (?s DroppingComplete True False False False)" by simp
  from reach_step [OF this proceeds [OF drop_complete]] have "tasks_reach demo_ops (?s AwaitComplete False False False False)" by simp
  from shutdown_waits_for_readers [OF this] show ?thesis by (auto simp: waits_for_clients_def)
qed

text \<open>The second part is evaluated where every call gets through: a GET_PARAMETER whose body is not UTF-8 asks the player and
  then fails without a response.\<close>

definition all_through :: "(unit, nat) world_ops" where
  "all_through =
     \<lparr>announce_call = (\<lambda>_ w. (Ok (Ok ()), w)), setup_call = (\<lambda>_ w. (Ok (Err IoError), w)),
      record_call = (\<lambda>_ w. (Ok (Ok ()), w)), teardown_call = (\<lambda>w. (Ok (Ok ()), w)),
      set_parameter_call = (\<lambda>_ w. (Ok (Ok ()), w)), get_parameter_call = (\<lambda>w. (Ok 20, w)),
      flush_call = (\<lambda>_ w. (Ok (Ok ()), w)), write_response = (\<lambda>_ w. (Ok (), w))\<rparr>"

theorem request_asks_then_answers_witness:
  "snd (snd (execute demo_ops (logged demo_service) demo_handler
     (demo_request GET_PARAMETER [CSEQ \<mapsto> ''8''] (''volume'' @ [CHR 0x0D, CHR 0x0A])) (demo_world, []))) = [Command, Answer] \<and>
   (\<exists>r. execute demo_ops (logged all_through) demo_handler
      \<lparr>req_method = GET_PARAMETER, req_header = (\<lambda>_. None), req_body = [0xFF]\<rparr> ((), []) = (r, ((), [Command])) \<and> r \<noteq> Ok ())"
proof
  have "answering all_through" by (simp add: answering_def all_through_def)
  note fails = request_asks_then_answers [where H = demo_ops and h = demo_handler and w = "()" and l = "[]" and
      req = "\<lparr>req_method = GET_PARAMETER, req_header = (\<lambda>_. None), req_body = [0xFF]\<rparr>",
      THEN conjunct2, THEN mp, OF this]
  have "from_utf8 [0xFF] = None" by code_simp
  then have "begin_request demo_ops demo_handler \<lparr>req_method = GET_PARAMETER, req_header = (\<lambda>_. None), req_body = [0xFF]\<rparr> =
      Busy 1 Fails"
    by (simp add: begin_request_def challenge_ok_def Let_def)
  then show "\<exists>r. execute demo_ops (logged all_through) demo_handler
      \<lparr>req_method = GET_PARAMETER, req_header = (\<lambda>_. None), req_body = [0xFF]\<rparr> ((), []) = (r, ((), [Command])) \<and> r \<noteq> Ok ()"
    using fails by auto
  let ?req = "demo_request GET_PARAMETER [CSEQ \<mapsto> ''8''] (''volume'' @ [CHR 0x0D, CHR 0x0A])"
  let ?x = "execute demo_ops demo_service demo_handler ?req demo_world"
  have "from_utf8 (req_body ?req) = Some (''volume'' @ [CHR 0x0D, CHR 0x0A])"
    using demo_texts by (simp add: demo_request_def)
  then have "fst ?x = Ok ()"
    by (simp add: demo_eval demo_service_def demo_world_def demo_request_def)
  then have run: "?x = (Ok (), snd ?x)" by (simp add: prod_eq_iff)
  note phases = request_asks_then_answers [THEN conjunct1, THEN mp, OF run, of "[]"]
  have "\<not> unanswered demo_ops ?req" "asks demo_ops ?req = 1"
    by (simp_all add: unanswered_def asks_def commands_def demo_request_def)
  then have "begin_request demo_ops demo_handler ?req = Busy 1 Writes" using phases by simp
  then show "snd (snd (execute demo_ops (logged demo_service) demo_handler ?req (demo_world, []))) = [Command, Answer]"
    using phases \<open>asks demo_ops ?req = 1\<close> by simp
qed

text \<open>C35. What crashes a handler: a request with an unknown extension method runs into \<open>todo!()\<close>, and a
  response or an interleaved data message from the peer into \<open>unreachable!()\<close>; the task panics without
  an answer, whatever was processed before.\<close>

theorem unexpected_input_panics:
  assumes "handler_run H W h shutdown_new (requests rs) w = (None, w')"
    and "m \<in> {ResponseMessage, DataMessage} \<or>
      (\<exists>req e. m = RequestMessage req \<and> req_method req = EXTENSION e \<and> e \<notin> {''FLUSH'', ''flush''})"
  shows "handler_run H W h shutdown_new (requests rs @ Read (Ok (Some m)) # evs) w = (Some Panic, w')"
  using assms(1)
proof (induction rs arbitrary: w)
  case Nil
  then show ?case using assms(2) by (auto simp: shutdown_new_def is_shutdown_def execute_def)
next
  case (Cons r rs)
  then obtain w1 where "execute H W h r w = (Ok (), w1)"
    by (cases "execute H W h r w"; cases "fst (execute H W h r w)") (auto simp: shutdown_new_def is_shutdown_def)
  then show ?case using Cons by (simp add: shutdown_new_def is_shutdown_def)
qed

theorem unexpected_input_panics_witness:
  "fst (handler_run demo_ops demo_service demo_handler shutdown_new
     (requests [demo_request OPTIONS [CSEQ \<mapsto> ''7''] []] @
      Read (Ok (Some (RequestMessage (demo_request (EXTENSION ''POST'') [CSEQ \<mapsto> ''8''] [])))) # [])
     demo_world) = Some Panic"
proof -
  let ?x = "handler_run demo_ops demo_service demo_handler shutdown_new
     (requests [demo_request OPTIONS [CSEQ \<mapsto> ''7''] []]) demo_world"
  have "fst ?x = None"
    by (simp add: demo_eval demo_service_def demo_world_def demo_request_def demo_ops_def)
  then have "?x = (None, snd ?x)" by (simp add: prod_eq_iff)
  from unexpected_input_panics [OF this] show ?thesis by (simp add: demo_request_def)
qed

text \<open>C30. An ANNOUNCE body is understood: from the first media description the decoder parameters are the
  format attribute from its first white space on, the latencies are the announced numbers, and the key is
  the RSA-decrypted \<open>rsaaeskey\<close>, with or without Base64 padding in \<open>rsaaeskey\<close> and \<open>aesiv\<close>.\<close>

theorem announce_understood:
  assumes "base64 (b64 H)" and "sdp_parse H body = Some (m # ms)"
    and "m ''fmtp'' = Some (Some (show_nat pt @ CHR '' '' # params))"
    and "m ''min-latency'' = Some (Some (show_nat lo))" "lo < 2 ^ 32"
    and "m ''max-latency'' = Some (Some (show_nat hi))" "hi < 2 ^ 32"
    and "m ''aesiv'' = Some (Some (encode_base64 (b64 H) iv @ pad_iv))" "pad_iv = [] \<or> hd pad_iv = CHR ''=''"
    and "m ''rsaaeskey'' = Some (Some (encode_base64 (b64 H) wrapped @ pad_key))" "pad_key = [] \<or> hd pad_key = CHR ''=''"
    and "rsa_decrypt H wrapped = Some key"
  shows "parse_announce H body =
     Ok \<lparr>fmtp = CHR '' '' # params, minimum_latency = word_of_nat lo, maximum_latency = word_of_nat hi,
         announced_encryption = Some \<lparr>aesiv = iv, aeskey = key\<rparr>\<rparr>"
  by (rule announce_parses [OF assms])

theorem announce_understood_witness:
  "parse_announce demo_ops [] =
     Ok \<lparr>fmtp = '' 352'', minimum_latency = 11025, maximum_latency = 88200,
         announced_encryption = Some \<lparr>aesiv = replicate 16 1, aeskey = replicate 16 2\<rparr>\<rparr>"
proof -
  have "parse_announce demo_ops [] =
     Ok \<lparr>fmtp = CHR '' '' # ''352'', minimum_latency = word_of_nat 11025, maximum_latency = word_of_nat 88200,
         announced_encryption = Some \<lparr>aesiv = replicate 16 1, aeskey = replicate 16 2\<rparr>\<rparr>"
    by (rule announce_understood [where pt = 96 and pad_iv = "''==''" and pad_key = "[]"
          and wrapped = "replicate 16 2" and m = demo_media and ms = "[]"])
      (simp_all add: demo_ops_def demo_media_def demo_printed rfc4648.base64_axioms)
  then show ?thesis by simp
qed

text \<open>C31. The Apple challenge: a response to a request with a challenge (padded or not) carries the
  signature of the challenge, the server's own address and its hardware address, in Base64.\<close>

theorem challenge_is_signed:
  assumes "base64 (b64 H)" and "req_header req APPLE_CHALLENGE = Some (encode_base64 (b64 H) chall @ pad)"
    and "pad = [] \<or> hd pad = CHR ''=''"
    and "rsa_sign H (chall @ octets (local_ip h) @ hw_addr (config h)) = Some sig"
  shows "\<exists>r. add_default_headers H h req b = Ok r \<and>
     (APPLE_RESPONSE, Text (encode_base64 (b64 H) sig)) \<in> set (resp_headers r)"
  by (rule challenge_signed [OF assms])

theorem challenge_is_signed_witness:
  "\<exists>r. add_default_headers demo_ops demo_handler
       (demo_request OPTIONS [APPLE_CHALLENGE \<mapsto> encode_base64 rfc4648 [9, 9] @ ''==''] []) (builder StatusOk) = Ok r \<and>
     (APPLE_RESPONSE, Text (encode_base64 rfc4648 [6, 5, 4, 3, 2, 1, 1, 0, 0, 10, 9, 9])) \<in> set (resp_headers r)"
  using challenge_is_signed [of demo_ops "demo_request OPTIONS [APPLE_CHALLENGE \<mapsto> encode_base64 rfc4648 [9, 9] @ ''==''] []"
      "[9, 9]" "''==''" demo_handler "[6, 5, 4, 3, 2, 1, 1, 0, 0, 10, 9, 9]" "builder StatusOk"]
  by (simp add: demo_ops_def demo_request_def demo_handler_def octets_def rfc4648.base64_axioms)

text \<open>The transport header of SETUP round-trips: the control and timing ports printed into the
  answer's transport are what the handler's own reader of transport headers returns.\<close>

theorem setup_ports_round_trip:
  assumes "parse_transports H (str_replace ''mode=record'' ''mode=\"RECORD\"'' t) = Some (setup_transport res # ts)"
    and "req_header req TRANSPORT = Some t"
  shows "setup_ports H req = Some (resp_control_port res, resp_timing_port res)"
  by (rule setup_answer_readable [OF assms])

theorem setup_ports_round_trip_witness:
  "setup_ports demo_ops (demo_request SETUP [TRANSPORT \<mapsto> ''RTP/AVP''] []) = Some (6001, 6002)"
  using setup_ports_round_trip [where H = demo_ops and t = "''RTP/AVP''" and ts = "[]" and
      req = "demo_request SETUP [TRANSPORT \<mapsto> ''RTP/AVP''] []" and
      res = "\<lparr>resp_control_port = 6001, resp_timing_port = 6002, resp_server_port = 6003\<rparr>"]
  by (simp add: demo_ops_def demo_request_def)

text \<open>C15. The request loop on a byte stream is the loop on the messages of the stream: however TCP splits the bytes
  (no chunk empty before the end), a connection handler does with them exactly what it does with the messages
  that parsing the whole stream at once gives, and with the way that ends: the same effects on the player and the
  connection, the same result, up to the bytes left in the read buffer.\<close>

theorem connection_loop_on_bytes:
  assumes "message_parser parse" and "[] \<notin> set ds" and "buffer (w_conn w) = []"
  shows "agrees (serve k H (player_world Q C encode) parse h (closing ds) w)
     (handler_run H (player_world Q C encode) h shutdown_new
        (message_events (stream_messages k parse (concat ds))) w)"
  using serve_stream [OF assms(1,2), of k H Q C encode h w] assms(3) by simp

theorem connection_loop_on_bytes_witness:
  "fst (serve 3 demo_ops (player_world word_seq byte_codec demo_encode) demo_parse demo_handler
     (closing [take 10 demo_bytes, drop 10 demo_bytes]) demo_world) =
   fst (handler_run demo_ops (player_world word_seq byte_codec demo_encode) demo_handler shutdown_new
     (message_events (stream_messages 3 demo_parse demo_bytes)) demo_world)"
proof -
  have "agrees (serve 3 demo_ops (player_world word_seq byte_codec demo_encode) demo_parse demo_handler
     (closing [take 10 demo_bytes, drop 10 demo_bytes]) demo_world)
   (handler_run demo_ops (player_world word_seq byte_codec demo_encode) demo_handler shutdown_new
     (message_events (stream_messages 3 demo_parse (concat [take 10 demo_bytes, drop 10 demo_bytes]))) demo_world)"
    by (rule connection_loop_on_bytes [OF demo_parse.message_parser_axioms demo_chunks]) (simp add: demo_world_def)
  then show ?thesis by (simp add: agrees_def)
qed



text \<open>A session through RTSP plays what was sent: when ANNOUNCE with a 16-byte key and vector, SETUP with
  readable ports and RECORD with a readable RTP-Info header have been executed on a connection of a fresh
  player, and then the packets of the window (at most 32768) that starts at RECORD's sequence number reach the player
  in any order, each decrypting and decoding to \<open>pcm\<close>, the source in the sink yields their samples in
  sequence order, and silence afterwards.\<close>

theorem rtsp_session_plays_stream:
  assumes "seq_api Q"
    and "ready net (player_new zero) w" "\<forall>r. encode r \<noteq> None" "net_ok net"
    and "\<forall>req \<in> {ra, rs, rr}. req_header req APPLE_CHALLENGE = None"
    and "req_method ra = ANNOUNCE" "parse_announce H (req_body ra) = Ok a"
    and "announced_encryption a = Some enc" "length (aeskey enc) = 16" "length (aesiv enc) = 16"
    and "alac_new C (fmtp a) = Some d" "D d"
    and "req_method rs = SETUP" "setup_ports H rs = Some ports"
    and "req_method rr = RECORD" "req_header rr RTP_INFO = Some v"
    and "rtp_info_parse (nom_parsers H) v = Some (info, rest)"
    and "mset received =
      mset (zip (map (seq_plus Q (seq_of_u16 Q (rtp_seq info))) [0..<length packets]) packets)"
    and "length packets \<le> 32768"
    and "list_all (decodes C (aes_new C (aeskey enc)) (aesiv enc) D pcm) packets"
  shows "\<exists>p w' os p' src.
     handler_run H (player_world Q C encode) h shutdown_new (requests [ra, rs, rr]) w = (None, w') \<and>
     w_player w' = Some p \<and>
     task_loop (player_body Q C) p (packet_events net received) = (os, Waiting p') \<and> sink p' = [(src, 0)] \<and>
     source_play (pop_front Q) 0 n src (buffers p' ! 0) =
       map Some (take n (concat (map (voiced 0 \<circ> pcm16 pcm) packets) @ replicate n 0))"
proof -
  let ?start = "seq_of_u16 Q (rtp_seq info)"
  let ?src = "\<lparr>channels = 2, sample_rate = 44100, current = None\<rparr>"
  obtain p w' where run: "handler_run H (player_world Q C encode) h shutdown_new (requests [ra, rs, rr]) w = (None, w')"
    and r: "ready net p w'" and p: "encryption p = Some enc" "cipher p = Some (aes_new C (aeskey enc))"
      "alac p = Some d" "frame_buf p = Some 0" "buffers p = [frame_buffer_new ?start]" "sink p = [(?src, 0)]"
    using session_requests [OF assms(2-9,11,13-17), of Q h] by blast
  have "snd ` set received = snd ` set (zip (map (seq_plus Q ?start) [0..<length packets]) packets)"
    using mset_eq_setD [OF assms(18)] by simp
  then have "snd ` set received \<subseteq> set packets" by (auto dest: set_zip_rightD)
  then have "\<forall>pk \<in> snd ` set received. decodes C (aes_new C (aeskey enc)) (aesiv enc) D pcm pk"
    using assms(20) by (auto simp: list_all_iff)
  then obtain os d' where "task_loop (player_body Q C) p (packet_events net received) =
      (os, Waiting (p\<lparr>alac := Some d', buffers := (buffers p)[0 :=
         add_packets Q (buffers p ! 0) (map (\<lambda>(s, pk). (s, pcm16 pcm pk)) received)]\<rparr>))"
    using packets_stored [OF p(1,2) assms(10) p(3), of D received C pcm 0 Q net] assms(12) p(4,5) r
    by (auto simp: ready_def)
  moreover note decoded_window_plays [OF assms(1) mset_eq_setD [OF assms(18)] assms(19), where src = ?src and z = 0 and n = n and pcm = pcm]
  ultimately show ?thesis using run r p(5,6) by (fastforce simp: ready_def)
qed

theorem rtsp_session_plays_stream_witness:
  "\<exists>p w' os p' src.
     handler_run demo_ops (player_world word_seq byte_codec (\<lambda>_. Some [])) demo_handler shutdown_new
       (requests [demo_request ANNOUNCE [CSEQ \<mapsto> ''1''] [], demo_request SETUP [TRANSPORT \<mapsto> ''RTP/AVP''] [],
          demo_request RECORD [RTP_INFO \<mapsto> ''seq=65535;rtptime=0''] []]) demo_world = (None, w') \<and>
     w_player w' = Some p \<and>
     task_loop (player_body word_seq byte_codec) p (packet_events up [(1, [7, 8]), (65535, [5]), (0, [6])]) =
       (os, Waiting p') \<and> sink p' = [(src, 0)] \<and>
     source_play (pop_front word_seq) 0 3 src (buffers p' ! 0) = map Some [5, 254, 254]"
proof -
  let ?packets = "[[5], [6], [7, 8]] :: bytes list"
  have samples: "take 3 (concat (map (voiced 0 \<circ> pcm16 demo_pcm) ?packets) @ replicate 3 0) = [5, 254, 254]"
    by code_simp
  have arr: "mset [(1, [7, 8]), (65535, [5]), (0, [6])] = mset (zip (map (seq_plus word_seq
      (seq_of_u16 word_seq (rtp_seq \<lparr>rtp_seq = 65535, rtptime = 0\<rparr>))) [0..<length ?packets]) ?packets)"
    by (simp add: codec_simps upt_rec)
  show ?thesis
    unfolding samples [symmetric]
    by (rule rtsp_session_plays_stream [where Q = word_seq and C = byte_codec and d = "()" and D = "\<lambda>_. True" and
          pcm = demo_pcm and enc = demo_encryption and v = "''seq=65535;rtptime=0''" and zero = 0 and
          ports = "(6001, 6002)" and net = up, OF word_seq.seq_api_axioms demo_ready _ _ _ _ demo_parsed _ _ _ _ _ _
          demo_ports _ _ demo_info arr])
       (simp_all add: demo_request_def net_ok_def up_def byte_codec_aes demo_decoded demo_encryption_def byte_codec_new)
qed

text \<open>C1. From datagrams to sound: after ANNOUNCE, SETUP and RECORD through the RTSP handler, the datagrams of the
  peer reach the audio and the control socket, and together carry the packets of the window that starts at
  RECORD's number (at most 32768, half the number space), each at least once, in any order, as audio packets or as retransmissions. Then the receivers, the
  player and the control sender, running concurrently over their bounded channels, come to rest on every schedule;
  and whenever they have, the source in the sink yields the decoded samples of all packets in sequence order.\<close>

theorem datagrams_become_sound:
  assumes "seq_api Q" and "session_channels K L" and "rtp_reader rtp"
    and "ready net (player_new zero) w" "\<forall>r. encode r \<noteq> None" "net_ok net"
    and "\<forall>req \<in> {ra, rs, rr}. req_header req APPLE_CHALLENGE = None"
    and "req_method ra = ANNOUNCE" "parse_announce H (req_body ra) = Ok a"
    and "announced_encryption a = Some enc" "length (aeskey enc) = 16" "length (aesiv enc) = 16"
    and "alac_new C (fmtp a) = Some d" "D d"
    and "req_method rs = SETUP" "setup_ports H rs = Some ports"
    and "req_method rr = RECORD" "req_header rr RTP_INFO = Some v"
    and "rtp_info_parse (nom_parsers H) v = Some (info, rest)"
    and "list_all fits ds" and "list_all (fits_control rtp) cs"
    and "set (List.map_filter (audio_packet rtp) ds) \<union> set (List.map_filter (control_packet Q rtp) cs) =
      set (zip (map (seq_plus Q (seq_of_u16 Q (rtp_seq info))) [0..<length packets]) packets)"
    and "length packets \<le> 32768"
    and "list_all (decodes C (aes_new C (aeskey enc)) (aesiv enc) D pcm) packets"
  shows "\<exists>p w'.
     handler_run H (player_world Q C encode) h shutdown_new (requests [ra, rs, rr]) w = (None, w') \<and>
     w_player w' = Some p \<and>
     (\<exists>ts st. run_turns K L Q C net rtp ts (streaming_start K L p ds cs) = Some st \<and> stuck K L Q C net rtp st) \<and>
     (\<forall>ts st. run_turns K L Q C net rtp ts (streaming_start K L p ds cs) = Some st \<longrightarrow> stuck K L Q C net rtp st \<longrightarrow>
        (\<exists>p' src. player_task st = Waiting p' \<and> sink p' = [(src, 0)] \<and>
           source_play (pop_front Q) 0 n src (buffers p' ! 0) =
             map Some (take n (concat (map (voiced 0 \<circ> pcm16 pcm) packets) @ replicate n 0))))"
proof -
  let ?start = "seq_of_u16 Q (rtp_seq info)" and ?src = "\<lparr>channels = 2, sample_rate = 44100, current = None\<rparr>"
  let ?A = "List.map_filter (audio_packet rtp) ds" and ?R = "List.map_filter (control_packet Q rtp) cs"
  obtain p w' where run: "handler_run H (player_world Q C encode) h shutdown_new (requests [ra, rs, rr]) w = (None, w')"
    and r: "ready net p w'" and p: "encryption p = Some enc" "cipher p = Some (aes_new C (aeskey enc))"
      "alac p = Some d" "frame_buf p = Some 0" "buffers p = [frame_buffer_new ?start]" "sink p = [(?src, 0)]"
      "control_tx p \<noteq> None"
    using session_requests [OF assms(4-11,13,15-19), of Q h] by blast
  have rec: "records C D pcm (set packets) 0 p" and fb: "buffers p ! 0 = frame_buffer_new ?start"
    using p r assms(12,14,24) by (auto simp: records_def ready_def list_all_iff)
  have "snd ` (set ?A \<union> set ?R) \<subseteq> set packets" unfolding assms(22) by (auto dest: set_zip_rightD)
  from records_survives [OF rec this] have surv: "survives Q C net p (set ?A \<union> set ?R)" .
  have start: "streaming_inv K L Q C net rtp p ?A ?R (streaming_start K L p ds cs)"
    by (rule session_channels.streaming_inv_start [OF assms(2,20,21)])
  have "\<exists>p' src. player_task st = Waiting p' \<and> sink p' = [(src, 0)] \<and>
      source_play (pop_front Q) 0 n src (buffers p' ! 0) =
        map Some (take n (concat (map (voiced 0 \<circ> pcm16 pcm) packets) @ replicate n 0))"
    if "run_turns K L Q C net rtp ts (streaming_start K L p ds cs) = Some st" "stuck K L Q C net rtp st" for ts st
  proof -
    have "streaming_inv K L Q C net rtp p ?A ?R st"
      using session_channels.run_inv [OF assms(2,3) surv start that(1)] by blast
    from session_channels.window_completed [OF assms(2,1,3) rec fb this that(2) assms(22,23), of ?src n] p(6)
    show ?thesis by auto
  qed
  then show ?thesis
    using run r session_channels.schedule_completes [OF assms(2,3) surv start] by (auto simp: ready_def)
qed

theorem datagrams_become_sound_witness:
  "\<exists>p w' ts st p' src.
     handler_run demo_ops (player_world word_seq byte_codec (\<lambda>_. Some [])) demo_handler shutdown_new
       (requests [demo_request ANNOUNCE [CSEQ \<mapsto> ''1''] [], demo_request SETUP [TRANSPORT \<mapsto> ''RTP/AVP''] [],
          demo_request RECORD [RTP_INFO \<mapsto> ''seq=65535;rtptime=0''] []]) demo_world = (None, w') \<and>
     w_player w' = Some p \<and>
     run_turns (list_channel 4) (list_channel 4) word_seq byte_codec up rtp_decode ts
       (streaming_start (list_channel 4) (list_channel 4) p
          [[0x80, 0x60, 0, 1, 0, 0, 0, 0, 0, 0, 0, 0, 7, 8], [0x80, 0x60, 0xFF, 0xFF, 0, 0, 0, 0, 0, 0, 0, 0, 5]]
          [[0x80, 0xD6, 0, 1, 0, 0, 0, 0, 0, 0, 0, 0, 0, 0, 0, 0, 6]]) = Some st \<and>
     player_task st = Waiting p' \<and> sink p' = [(src, 0)] \<and>
     source_play (pop_front word_seq) 0 3 src (buffers p' ! 0) = map Some [5, 254, 254]"
proof -
  let ?packets = "[[5], [6], [7, 8]] :: bytes list"
  let ?ds = "[[0x80, 0x60, 0, 1, 0, 0, 0, 0, 0, 0, 0, 0, 7, 8], [0x80, 0x60, 0xFF, 0xFF, 0, 0, 0, 0, 0, 0, 0, 0, 5]] :: bytes list"
  let ?cs = "[[0x80, 0xD6, 0, 1, 0, 0, 0, 0, 0, 0, 0, 0, 0, 0, 0, 0, 6]] :: bytes list"
  have samples: "take 3 (concat (map (voiced 0 \<circ> pcm16 demo_pcm) ?packets) @ replicate 3 0) = [5, 254, 254]"
    by code_simp
  have fits: "list_all fits ?ds" "list_all (fits_control rtp_decode) ?cs"
    by (simp_all add: fits_def fits_control_def)
  have win: "set (List.map_filter (audio_packet rtp_decode) ?ds) \<union> set (List.map_filter (control_packet word_seq rtp_decode) ?cs) =
      set (zip (map (seq_plus word_seq (seq_of_u16 word_seq (rtp_seq \<lparr>rtp_seq = 65535, rtptime = 0\<rparr>))) [0..<length ?packets]) ?packets)"
    by (auto simp: map_filter_simps audio_packet_def control_packet_def rtp_decode_def u16_of_bytes_def codec_simps upt_rec)
  have "\<exists>p w'.
     handler_run demo_ops (player_world word_seq byte_codec (\<lambda>_. Some [])) demo_handler shutdown_new
       (requests [demo_request ANNOUNCE [CSEQ \<mapsto> ''1''] [], demo_request SETUP [TRANSPORT \<mapsto> ''RTP/AVP''] [],
          demo_request RECORD [RTP_INFO \<mapsto> ''seq=65535;rtptime=0''] []]) demo_world = (None, w') \<and>
     w_player w' = Some p \<and>
     (\<exists>ts st. run_turns (list_channel 4) (list_channel 4) word_seq byte_codec up rtp_decode ts
        (streaming_start (list_channel 4) (list_channel 4) p ?ds ?cs) = Some (st :: demo_streaming) \<and>
        stuck (list_channel 4) (list_channel 4) word_seq byte_codec up rtp_decode st) \<and>
     (\<forall>ts st. run_turns (list_channel 4) (list_channel 4) word_seq byte_codec up rtp_decode ts
        (streaming_start (list_channel 4) (list_channel 4) p ?ds ?cs) = Some (st :: demo_streaming) \<longrightarrow>
        stuck (list_channel 4) (list_channel 4) word_seq byte_codec up rtp_decode st \<longrightarrow>
        (\<exists>p' src. player_task st = Waiting p' \<and> sink p' = [(src, 0)] \<and>
           source_play (pop_front word_seq) 0 3 src (buffers p' ! 0) =
             map Some (take 3 (concat (map (voiced 0 \<circ> pcm16 demo_pcm) ?packets) @ replicate 3 0))))"
    by (rule datagrams_become_sound [where d = "()" and D = "\<lambda>_. True" and enc = demo_encryption and
          v = "''seq=65535;rtptime=0''" and zero = 0 and ports = "(6001, 6002)", OF word_seq.seq_api_axioms
          list_session.session_channels_axioms rtp_decode.rtp_reader_axioms demo_ready _ _ _ _ demo_parsed _ _ _ _ _ _
          demo_ports _ _ demo_info fits win])
       (simp_all add: demo_request_def net_ok_def up_def byte_codec_aes demo_decoded demo_encryption_def byte_codec_new)
  then show ?thesis unfolding samples by blast
qed

end
